(* ===== verification/Go_Prelude.thy ===== *)
theory Go_Prelude
  imports Main "HOL-Library.Word"
begin

text \<open>
  The shared prelude of the development.  A Go \<^verbatim>\<open>string\<close> or \<^verbatim>\<open>[]byte\<close> is a list of
  bytes, that is of HOL \<^typ>\<open>char\<close>s; the functions of the Go packages \<^verbatim>\<open>strings\<close> and
  \<^verbatim>\<open>unicode/utf8\<close> that the program calls are defined here on byte lists, with the lemmas
  the components share.  Fallible operations return a sum, \<^term>\<open>Inl e\<close> for the error and
  \<^term>\<open>Inr v\<close> for the value.

  The collection \<open>go_simps\<close> holds the rewrite rules that evaluate and simplify the
  library functions; component proofs use it with \<open>simp add: go_simps\<close>.
\<close>

named_theorems go_simps \<open>rewrite rules of the Go library functions\<close>

type_synonym bytes = "char list"
type_synonym u8 = "8 word"
type_synonym u16 = "16 word"
type_synonym u64 = "64 word"

section \<open>Definitions\<close>

abbreviation byte_val :: "char \<Rightarrow> nat" where
  "byte_val c \<equiv> of_char c"

definition is_digit :: "char \<Rightarrow> bool" where
  "is_digit c \<longleftrightarrow> 48 \<le> byte_val c \<and> byte_val c \<le> 57"

definition is_upper :: "char \<Rightarrow> bool" where
  "is_upper c \<longleftrightarrow> 65 \<le> byte_val c \<and> byte_val c \<le> 90"

definition is_lower :: "char \<Rightarrow> bool" where
  "is_lower c \<longleftrightarrow> 97 \<le> byte_val c \<and> byte_val c \<le> 122"

definition result_bind :: "'e + 'a \<Rightarrow> ('a \<Rightarrow> 'e + 'b) \<Rightarrow> 'e + 'b" where
  "result_bind r f = (case r of Inl e \<Rightarrow> Inl e | Inr v \<Rightarrow> f v)"

subsection \<open>Package strings\<close>

text \<open>\<^verbatim>\<open>strings.IndexByte\<close> and \<^verbatim>\<open>strings.LastIndexByte\<close>; \<^term>\<open>None\<close> stands for -1.\<close>

fun index_byte :: "char \<Rightarrow> bytes \<Rightarrow> nat option" where
  "index_byte c [] = None"
| "index_byte c (x # xs) = (if x = c then Some 0 else map_option Suc (index_byte c xs))"

definition last_index_byte :: "char \<Rightarrow> bytes \<Rightarrow> nat option" where
  "last_index_byte c s = map_option (\<lambda>i. length s - 1 - i) (index_byte c (rev s))"

text \<open>\<^verbatim>\<open>strings.HasPrefix\<close>, \<^verbatim>\<open>HasSuffix\<close>, \<^verbatim>\<open>TrimPrefix\<close> and \<^verbatim>\<open>TrimSuffix\<close>.\<close>

definition has_prefix :: "bytes \<Rightarrow> bytes \<Rightarrow> bool" where
  "has_prefix s p \<longleftrightarrow> take (length p) s = p"

definition has_suffix :: "bytes \<Rightarrow> bytes \<Rightarrow> bool" where
  "has_suffix s p \<longleftrightarrow> length p \<le> length s \<and> drop (length s - length p) s = p"

definition trim_prefix :: "bytes \<Rightarrow> bytes \<Rightarrow> bytes" where
  "trim_prefix s p = (if has_prefix s p then drop (length p) s else s)"

definition trim_suffix :: "bytes \<Rightarrow> bytes \<Rightarrow> bytes" where
  "trim_suffix s p = (if has_suffix s p then take (length s - length p) s else s)"

text \<open>\<^verbatim>\<open>strings.TrimLeft\<close> and \<^verbatim>\<open>strings.TrimRight\<close> with a cutset of ASCII characters.\<close>

definition trim_left :: "bytes \<Rightarrow> bytes \<Rightarrow> bytes" where
  "trim_left s cutset = dropWhile (\<lambda>c. c \<in> set cutset) s"

definition trim_right :: "bytes \<Rightarrow> bytes \<Rightarrow> bytes" where
  "trim_right s cutset = rev (dropWhile (\<lambda>c. c \<in> set cutset) (rev s))"

text \<open>\<^verbatim>\<open>strings.Cut\<close> with a separator of one byte: before, after, found.\<close>

definition cut_byte :: "char \<Rightarrow> bytes \<Rightarrow> bytes \<times> bytes \<times> bool" where
  "cut_byte c s =
     (case index_byte c s of
        None \<Rightarrow> (s, [], False)
      | Some i \<Rightarrow> (take i s, drop (Suc i) s, True))"

text \<open>
  \<^verbatim>\<open>strings.TrimSpace\<close> removes leading and trailing runes with \<^verbatim>\<open>unicode.IsSpace\<close>.  The
  list holds the UTF-8 encodings of all of them: the six ASCII ones, U+0085, U+00A0,
  U+1680, U+2000 to U+200A, U+2028, U+2029, U+202F, U+205F and U+3000.  Each encoding
  starts with a rune start byte, so a match at either end is what decoding there finds.
\<close>

definition space_runes :: "bytes list" where
  "space_runes =
     [[CHR 0x09], [CHR 0x0A], [CHR 0x0B], [CHR 0x0C], [CHR 0x0D], [CHR 0x20],
      [CHR 0xC2, CHR 0x85], [CHR 0xC2, CHR 0xA0], [CHR 0xE1, CHR 0x9A, CHR 0x80],
      [CHR 0xE2, CHR 0x80, CHR 0x80], [CHR 0xE2, CHR 0x80, CHR 0x81],
      [CHR 0xE2, CHR 0x80, CHR 0x82], [CHR 0xE2, CHR 0x80, CHR 0x83],
      [CHR 0xE2, CHR 0x80, CHR 0x84], [CHR 0xE2, CHR 0x80, CHR 0x85],
      [CHR 0xE2, CHR 0x80, CHR 0x86], [CHR 0xE2, CHR 0x80, CHR 0x87],
      [CHR 0xE2, CHR 0x80, CHR 0x88], [CHR 0xE2, CHR 0x80, CHR 0x89],
      [CHR 0xE2, CHR 0x80, CHR 0x8A], [CHR 0xE2, CHR 0x80, CHR 0xA8],
      [CHR 0xE2, CHR 0x80, CHR 0xA9], [CHR 0xE2, CHR 0x80, CHR 0xAF],
      [CHR 0xE2, CHR 0x81, CHR 0x9F], [CHR 0xE3, CHR 0x80, CHR 0x80]]"

text \<open>The number of bytes of the white-space rune a string starts with, 0 for none.\<close>

definition space_width :: "bytes list \<Rightarrow> bytes \<Rightarrow> nat" where
  "space_width runes s =
     (case find (has_prefix s) runes of None \<Rightarrow> 0 | Some r \<Rightarrow> length r)"

function strip_runes :: "bytes list \<Rightarrow> bytes \<Rightarrow> bytes" where
  "strip_runes runes s =
     (if s = [] \<or> space_width runes s = 0 then s
      else strip_runes runes (drop (space_width runes s) s))"
  by pat_completeness auto
termination
  by (relation "measure (\<lambda>(runes, s). length s)") auto

declare strip_runes.simps [simp del]

definition trim_space :: "bytes \<Rightarrow> bytes" where
  "trim_space s =
     rev (strip_runes (map rev space_runes) (rev (strip_runes space_runes s)))"

subsection \<open>Package unicode/utf8\<close>

definition is_cont :: "char \<Rightarrow> bool" where
  "is_cont c \<longleftrightarrow> 128 \<le> byte_val c \<and> byte_val c \<le> 191"

text \<open>
  The length of a UTF-8 sequence from its first byte (0 for a byte that starts none), and
  the narrower range of the second byte after 0xE0, 0xED, 0xF0 and 0xF4.
\<close>

definition utf8_need :: "nat \<Rightarrow> nat" where
  "utf8_need x =
     (if x < 128 then 1
      else if 194 \<le> x \<and> x \<le> 223 then 2
      else if 224 \<le> x \<and> x \<le> 239 then 3
      else if 240 \<le> x \<and> x \<le> 244 then 4
      else 0)"

definition utf8_second_ok :: "nat \<Rightarrow> nat \<Rightarrow> bool" where
  "utf8_second_ok x b \<longleftrightarrow>
     (x = 224 \<longrightarrow> 160 \<le> b) \<and> (x = 237 \<longrightarrow> b \<le> 159) \<and>
     (x = 240 \<longrightarrow> 144 \<le> b) \<and> (x = 244 \<longrightarrow> b \<le> 143)"

text \<open>
  The width of the well-formed UTF-8 sequence a string starts with; 0 where
  \<^verbatim>\<open>utf8.DecodeRuneInString\<close> reports \<^verbatim>\<open>RuneError\<close> with width 1, or at the end.
\<close>

definition utf8_width :: "bytes \<Rightarrow> nat" where
  "utf8_width s =
     (case s of
        [] \<Rightarrow> 0
      | a # t \<Rightarrow>
         (let n = utf8_need (byte_val a) in
          if n \<noteq> 0 \<and> n \<le> length s \<and> list_all is_cont (take (n - 1) t)
             \<and> (n \<noteq> 1 \<longrightarrow> utf8_second_ok (byte_val a) (byte_val (hd t)))
          then n else 0))"

function valid_utf8 :: "bytes \<Rightarrow> bool" where
  "valid_utf8 s =
     (if s = [] then True
      else if utf8_width s = 0 then False
      else valid_utf8 (drop (utf8_width s) s))"
  by pat_completeness auto
termination
  by (relation "measure length") auto

declare valid_utf8.simps [simp del]

text \<open>
  \<^verbatim>\<open>strings.ToValidUTF8\<close>: each run of invalid bytes becomes one replacement.  The flag
  says that the byte before was invalid.
\<close>

function to_valid_utf8_from :: "bool \<Rightarrow> bytes \<Rightarrow> bytes \<Rightarrow> bytes" where
  "to_valid_utf8_from invalid rep s =
     (if s = [] then []
      else if utf8_width s = 0
      then (if invalid then [] else rep) @ to_valid_utf8_from True rep (tl s)
      else take (utf8_width s) s @ to_valid_utf8_from False rep (drop (utf8_width s) s))"
  by pat_completeness auto
termination
  by (relation "measure (\<lambda>(i, r, s). length s)") auto

declare to_valid_utf8_from.simps [simp del]

definition to_valid_utf8 :: "bytes \<Rightarrow> bytes \<Rightarrow> bytes" where
  "to_valid_utf8 s rep = to_valid_utf8_from False rep s"

text \<open>The replacement character U+FFFD and the byte order mark U+FEFF.\<close>

definition replacement_char :: bytes where
  "replacement_char = [CHR 0xEF, CHR 0xBF, CHR 0xBD]"

definition byte_order_mark :: bytes where
  "byte_order_mark = [CHR 0xEF, CHR 0xBB, CHR 0xBF]"

section \<open>Lemmas\<close>

lemma result_bind_simps [simp]:
  "result_bind (Inl e) f = Inl e"
  "result_bind (Inr v) f = f v"
  by (simp_all add: result_bind_def)

lemma result_bind_Inr_iff:
  "result_bind r f = Inr v \<longleftrightarrow> (\<exists>u. r = Inr u \<and> f u = Inr v)"
  by (cases r) auto

subsection \<open>Searching and trimming\<close>

lemma index_byte_None_iff [simp]: "index_byte c s = None \<longleftrightarrow> c \<notin> set s"
  by (induction s) auto

lemma index_byte_None [simp]: "c \<notin> set s \<Longrightarrow> index_byte c s = None"
  by simp

lemma index_byte_SomeD:
  "index_byte c s = Some i \<Longrightarrow> i < length s \<and> s ! i = c \<and> c \<notin> set (take i s)"
  by (induction s arbitrary: i) (auto split: if_splits)

lemma index_byte_append [go_simps]:
  "c \<notin> set xs \<Longrightarrow> index_byte c (xs @ c # ys) = Some (length xs)"
  by (induction xs) auto

lemma index_byte_append_left: "index_byte c xs = Some i \<Longrightarrow> index_byte c (xs @ ys) = Some i"
  by (induction xs arbitrary: i) (auto split: if_splits)

lemma index_byte_append_right:
  "c \<notin> set xs \<Longrightarrow>
   index_byte c (xs @ ys) = (case index_byte c ys of None \<Rightarrow> None | Some i \<Rightarrow> Some (length xs + i))"
  by (induction xs) (auto split: option.split simp del: index_byte_None_iff)

lemma index_byte_split:
  assumes "index_byte c s = Some i"
  shows "s = take i s @ c # drop (Suc i) s"
  using index_byte_SomeD [OF assms] by (metis id_take_nth_drop)

lemma cut_byte_found [go_simps]:
  "c \<notin> set xs \<Longrightarrow> cut_byte c (xs @ c # ys) = (xs, ys, True)"
  by (simp add: cut_byte_def index_byte_append)

lemma cut_byte_not_found [go_simps]:
  "c \<notin> set s \<Longrightarrow> cut_byte c s = (s, [], False)"
  by (simp add: cut_byte_def flip: index_byte_None_iff)

lemma has_prefix_append [go_simps]: "has_prefix (p @ s) p"
  by (simp add: has_prefix_def)

lemma has_prefix_iff: "has_prefix s p \<longleftrightarrow> (\<exists>t. s = p @ t)"
  unfolding has_prefix_def by (metis append_eq_conv_conj append_take_drop_id)

lemma has_suffix_iff: "has_suffix s p \<longleftrightarrow> (\<exists>t. s = t @ p)"
proof
  assume "has_suffix s p"
  then have "s = take (length s - length p) s @ p"
    unfolding has_suffix_def by (metis append_take_drop_id)
  then show "\<exists>t. s = t @ p" ..
qed (auto simp: has_suffix_def)

lemma trim_suffix_append [go_simps]: "trim_suffix (t @ p) p = t"
  by (simp add: trim_suffix_def has_suffix_def)

lemma trim_prefix_append [go_simps]: "trim_prefix (p @ t) p = t"
  by (simp add: trim_prefix_def has_prefix_def)

lemma trim_right_append_cut [go_simps]:
  "set t \<subseteq> set cs \<Longrightarrow> trim_right (s @ t) cs = trim_right s cs"
  unfolding trim_right_def by (subst rev_append, subst dropWhile_append2) auto

lemma trim_right_id [go_simps]:
  "s = [] \<or> last s \<notin> set cs \<Longrightarrow> trim_right s cs = s"
  unfolding trim_right_def
  by (cases s rule: rev_cases) auto

lemma trim_right_prefix: "\<exists>t. s = trim_right s cs @ t \<and> set t \<subseteq> set cs"
proof -
  have "rev s = takeWhile (\<lambda>c. c \<in> set cs) (rev s) @ dropWhile (\<lambda>c. c \<in> set cs) (rev s)"
    by simp
  then have "s = trim_right s cs @ rev (takeWhile (\<lambda>c. c \<in> set cs) (rev s))"
    unfolding trim_right_def by (metis rev_append rev_rev_ident)
  moreover have "set (rev (takeWhile (\<lambda>c. c \<in> set cs) (rev s))) \<subseteq> set cs"
    by (auto dest: set_takeWhileD)
  ultimately show ?thesis by blast
qed

lemma trim_left_id [go_simps]:
  "s = [] \<or> hd s \<notin> set cs \<Longrightarrow> trim_left s cs = s"
  unfolding trim_left_def by (cases s) auto

lemma trim_left_hd: "trim_left s cs \<noteq> [] \<Longrightarrow> hd (trim_left s cs) \<notin> set cs"
  unfolding trim_left_def by (rule hd_dropWhile)

subsection \<open>White space\<close>

lemma space_width_le: "space_width runes s \<le> length s"
proof (cases "find (has_prefix s) runes")
  case (Some r)
  then have "has_prefix s r" by (auto simp: find_Some_iff)
  then show ?thesis using Some by (auto simp: space_width_def has_prefix_iff)
qed (simp add: space_width_def)

lemma strip_runes_nil [simp]: "strip_runes runes [] = []"
  by (simp add: strip_runes.simps)

lemma strip_runes_id: "space_width runes s = 0 \<Longrightarrow> strip_runes runes s = s"
  by (simp add: strip_runes.simps)

text \<open>A printable ASCII byte starts no white-space rune, and ends none.\<close>

definition solid :: "char \<Rightarrow> bool" where
  "solid c \<longleftrightarrow> 33 \<le> byte_val c \<and> byte_val c \<le> 126"

lemma space_width_zero:
  assumes "\<forall>r \<in> set runes. r \<noteq> [] \<and> hd r \<noteq> c"
  shows "space_width runes (c # s) = 0"
proof -
  have "\<not> has_prefix (c # s) r" if "r \<in> set runes" for r
    using assms that by (cases r) (auto simp: has_prefix_def)
  then have "find (has_prefix (c # s)) runes = None"
    by (simp add: find_None_iff)
  then show ?thesis by (simp add: space_width_def)
qed

lemma space_runes_not_solid:
  "\<forall>r \<in> set space_runes. r \<noteq> [] \<and> \<not> solid (hd r) \<and> \<not> solid (last r)"
  by (simp add: space_runes_def solid_def)

lemma space_width_solid [simp]: "solid c \<Longrightarrow> space_width space_runes (c # s) = 0"
  using space_runes_not_solid by (intro space_width_zero) auto

lemma space_width_rev_solid [simp]:
  "solid c \<Longrightarrow> space_width (map rev space_runes) (c # s) = 0"
  using space_runes_not_solid by (intro space_width_zero) (auto simp: hd_rev)

lemma trim_space_nil [simp]: "trim_space [] = []"
  by (simp add: trim_space_def)

lemma trim_space_id [go_simps]:
  assumes "s \<noteq> []" and "solid (hd s)" and "solid (last s)"
  shows "trim_space s = s"
proof -
  from assms(1,2) have l: "strip_runes space_runes s = s"
    by (cases s) (auto intro: strip_runes_id)
  from assms(1,3) have "strip_runes (map rev space_runes) (rev s) = rev s"
    by (cases s rule: rev_cases) (auto intro: strip_runes_id)
  then show ?thesis by (simp add: trim_space_def l)
qed

lemma trim_space_lead [go_simps]: "trim_space (CHR 0x20 # s) = trim_space s"
proof -
  have "space_width space_runes (CHR 0x20 # s) = 1"
    by (simp add: space_width_def space_runes_def has_prefix_def)
  then have "strip_runes space_runes (CHR 0x20 # s) = strip_runes space_runes s"
    by (subst strip_runes.simps) simp
  then show ?thesis by (simp add: trim_space_def)
qed

subsection \<open>UTF-8\<close>

lemma utf8_width_nil [simp]: "utf8_width [] = 0"
  by (simp add: utf8_width_def)

lemma utf8_width_ascii [go_simps]: "byte_val c < 128 \<Longrightarrow> utf8_width (c # s) = 1"
  by (simp add: utf8_width_def utf8_need_def)

lemma utf8_width_le: "utf8_width s \<le> length s"
  by (simp add: utf8_width_def Let_def split: list.split)

text \<open>The width depends only on the bytes of the sequence itself.\<close>

lemma utf8_width_cong:
  assumes w: "utf8_width s \<noteq> 0" and eq: "take (utf8_width s) t = take (utf8_width s) s"
    and le: "utf8_width s \<le> length t"
  shows "utf8_width t = utf8_width s"
proof -
  obtain a s' where s: "s = a # s'" using w by (cases s) auto
  obtain b t' where t: "t = b # t'" using w le by (cases t) auto
  define n where "n = utf8_width s"
  have n: "n = utf8_need (byte_val a)" "n \<noteq> 0"
    using w by (auto simp: n_def s utf8_width_def Let_def split: if_splits)
  then obtain m where m: "n = Suc m" using not0_implies_Suc by blast
  have "take (Suc m) t = take (Suc m) s" using eq m by (simp add: n_def)
  then have ab: "b = a" and tk: "take m t' = take m s'" by (simp_all add: s t)
  have "hd t' = hd s'" if "m \<noteq> 0"
    using tk that le utf8_width_le [of s] by (cases t'; cases s'; cases m) (auto simp: s t)
  moreover have "utf8_need (byte_val a) = Suc m" using n m by simp
  ultimately show ?thesis
    using ab tk le w by (auto simp: s t utf8_width_def Let_def split: if_splits)
qed

lemma utf8_width_append:
  "utf8_width s \<noteq> 0 \<Longrightarrow> utf8_width (s @ t) = utf8_width s"
  using utf8_width_le [of s] by (intro utf8_width_cong) auto

lemma utf8_width_take:
  "utf8_width s \<noteq> 0 \<Longrightarrow> utf8_width (take (utf8_width s) s) = utf8_width s"
  using utf8_width_le [of s] by (intro utf8_width_cong) auto

lemma valid_utf8_nil [simp]: "valid_utf8 []"
  by (subst valid_utf8.simps) simp

lemma valid_utf8_chunk: "utf8_width s \<noteq> 0 \<Longrightarrow> valid_utf8 (take (utf8_width s) s)"
  using utf8_width_le [of s]
  by (subst valid_utf8.simps) (auto simp: utf8_width_take)

lemma valid_utf8_append [intro]:
  "valid_utf8 s \<Longrightarrow> valid_utf8 t \<Longrightarrow> valid_utf8 (s @ t)"
proof (induction s rule: valid_utf8.induct)
  case (1 s)
  show ?case
  proof (cases "s = []")
    case False
    with "1.prems"(1) have w: "utf8_width s \<noteq> 0" and r: "valid_utf8 (drop (utf8_width s) s)"
      by (simp_all add: valid_utf8.simps [of s] split: if_splits)
    have "valid_utf8 (drop (utf8_width s) s @ t)"
      using "1.IH" False w r "1.prems"(2) by blast
    then show ?thesis
      using False w utf8_width_le [of s]
      by (subst valid_utf8.simps) (simp add: utf8_width_append)
  qed (use "1.prems" in simp)
qed

lemma valid_utf8_ascii: "\<forall>c \<in> set s. byte_val c < 128 \<Longrightarrow> valid_utf8 s"
proof (induction s)
  case (Cons c s)
  then show ?case by (subst valid_utf8.simps) (simp add: utf8_width_ascii)
qed simp

lemma valid_replacement_char: "valid_utf8 replacement_char"
proof -
  have "utf8_width replacement_char = 3"
    by (simp add: utf8_width_def replacement_char_def is_cont_def utf8_need_def
        utf8_second_ok_def)
  then show ?thesis
    by (subst valid_utf8.simps) (simp add: replacement_char_def)
qed

lemma to_valid_utf8_from_valid:
  "valid_utf8 rep \<Longrightarrow> valid_utf8 (to_valid_utf8_from b rep s)"
proof (induction b rep s rule: to_valid_utf8_from.induct)
  case (1 b rep s)
  show ?case
    using "1" valid_utf8_chunk [of s]
    by (subst to_valid_utf8_from.simps) auto
qed

lemma to_valid_utf8_from_id: "valid_utf8 s \<Longrightarrow> to_valid_utf8_from b rep s = s"
proof (induction s arbitrary: b rule: valid_utf8.induct)
  case (1 s)
  show ?case
  proof (cases "s = []")
    case False
    with "1.prems" have "utf8_width s \<noteq> 0" and "valid_utf8 (drop (utf8_width s) s)"
      by (simp_all add: valid_utf8.simps [of s] split: if_splits)
    then show ?thesis using "1.IH" False
      by (subst to_valid_utf8_from.simps) simp
  qed (simp add: to_valid_utf8_from.simps)
qed

lemma to_valid_utf8_valid: "valid_utf8 rep \<Longrightarrow> valid_utf8 (to_valid_utf8 s rep)"
  by (simp add: to_valid_utf8_def to_valid_utf8_from_valid)

lemma to_valid_utf8_id [go_simps]: "valid_utf8 s \<Longrightarrow> to_valid_utf8 s rep = s"
  by (simp add: to_valid_utf8_def to_valid_utf8_from_id)

end
