(* ===== verification/Go_Strconv.thy ===== *)
theory Go_Strconv
  imports Go_Prelude
begin

text \<open>
  The conversions of Go's packages \<^verbatim>\<open>strconv\<close> and \<^verbatim>\<open>encoding/hex\<close> that the program calls:
  \<^verbatim>\<open>Itoa\<close>, \<^verbatim>\<open>Atoi\<close> (with its optional sign and its 64-bit range), \<^verbatim>\<open>FormatUint\<close> in base 10
  and lower-case hexadecimal, with their round trips.
\<close>

section \<open>Definitions\<close>

definition digit_char :: "int \<Rightarrow> char" where
  "digit_char d = char_of (48 + d)"

definition digit_val :: "char \<Rightarrow> int" where
  "digit_val c = of_char c - 48"

function dec_digits :: "int \<Rightarrow> bytes" where
  "dec_digits n =
     (if n < 10 then [digit_char n] else dec_digits (n div 10) @ [digit_char (n mod 10)])"
  by pat_completeness auto
termination
  by (relation "measure nat") (auto simp: nat_less_eq_zless)

declare dec_digits.simps [simp del]

text \<open>\<^verbatim>\<open>strconv.Itoa\<close>, and \<^verbatim>\<open>strconv.FormatUint\<close> in base 10 where the number is not negative.\<close>

definition itoa :: "int \<Rightarrow> bytes" where
  "itoa n = (if n < 0 then CHR ''-'' # dec_digits (- n) else dec_digits n)"

definition digits_val :: "bytes \<Rightarrow> int" where
  "digits_val s = foldl (\<lambda>acc c. 10 * acc + digit_val c) 0 s"

definition int64_range :: "int \<Rightarrow> bool" where
  "int64_range n \<longleftrightarrow> - (2 ^ 63) \<le> n \<and> n < 2 ^ 63"

text \<open>\<^verbatim>\<open>strconv.Atoi\<close>; \<^term>\<open>None\<close> is its error, for a syntax or a range problem.\<close>

definition atoi :: "bytes \<Rightarrow> int option" where
  "atoi s =
     (let neg = (s \<noteq> [] \<and> hd s = CHR ''-'');
          signed = (s \<noteq> [] \<and> (hd s = CHR ''-'' \<or> hd s = CHR ''+''));
          t = (if signed then tl s else s);
          v = (if neg then - digits_val t else digits_val t)
      in if t = [] \<or> \<not> list_all is_digit t then None
         else if int64_range v then Some v else None)"

text \<open>A number printed with at least \<open>w\<close> digits, zeros in front.\<close>

definition pad_digits :: "nat \<Rightarrow> int \<Rightarrow> bytes" where
  "pad_digits w n =
     replicate (w - length (dec_digits n)) (CHR ''0'') @ dec_digits n"

definition hex_char :: "nat \<Rightarrow> char" where
  "hex_char d = (if d < 10 then char_of (48 + d) else char_of (87 + d))"

definition hex_byte :: "u8 \<Rightarrow> bytes" where
  "hex_byte b = [hex_char (unat b div 16), hex_char (unat b mod 16)]"

text \<open>\<^verbatim>\<open>hex.Encode\<close> and \<^verbatim>\<open>hex.EncodeToString\<close>.\<close>

definition hex_encode :: "u8 list \<Rightarrow> bytes" where
  "hex_encode bs = concat (map hex_byte bs)"

definition is_hex :: "char \<Rightarrow> bool" where
  "is_hex c \<longleftrightarrow> is_digit c \<or> (97 \<le> byte_val c \<and> byte_val c \<le> 102)"

definition hex_val :: "char \<Rightarrow> nat" where
  "hex_val c = (if byte_val c < 97 then byte_val c - 48 else byte_val c - 87)"

section \<open>Lemmas\<close>

subsection \<open>Decimal\<close>

lemma of_char_digit_char [simp]:
  "0 \<le> d \<Longrightarrow> d < 10 \<Longrightarrow> of_char (digit_char d) = (48 + d :: int)"
  by (simp add: digit_char_def)

lemma byte_val_int: "int (byte_val c) = of_char c"
  by (rule of_nat_of_char)

lemma is_digit_iff: "is_digit c \<longleftrightarrow> 48 \<le> (of_char c :: int) \<and> (of_char c :: int) \<le> 57"
  by (simp add: is_digit_def flip: byte_val_int)

lemma digit_val_digit_char [simp]: "0 \<le> d \<Longrightarrow> d < 10 \<Longrightarrow> digit_val (digit_char d) = d"
  by (simp add: digit_val_def)

lemma is_digit_digit_char [simp]: "0 \<le> d \<Longrightarrow> d < 10 \<Longrightarrow> is_digit (digit_char d)"
  by (simp add: is_digit_iff)

lemma digit_val_bounds [simp]:
  "is_digit c \<Longrightarrow> 0 \<le> digit_val c" "is_digit c \<Longrightarrow> digit_val c < 10"
  by (auto simp: is_digit_iff digit_val_def)

lemma digit_char_digit_val [simp]: "digit_char (digit_val c) = c"
  by (simp add: digit_val_def digit_char_def)

lemma is_digit_solid: "is_digit c \<Longrightarrow> solid c"
  by (simp add: is_digit_def solid_def)

lemma is_digit_neq [simp]:
  "is_digit c \<Longrightarrow> c \<noteq> CHR '' ''" "is_digit c \<Longrightarrow> c \<noteq> CHR ''-''"
  "is_digit c \<Longrightarrow> c \<noteq> CHR ''+''" "is_digit c \<Longrightarrow> c \<noteq> CHR '':''"
  "is_digit c \<Longrightarrow> c \<noteq> CHR ''>''" "is_digit c \<Longrightarrow> c \<noteq> CHR ''.''"
  "is_digit c \<Longrightarrow> c \<noteq> CHR 0x0A" "is_digit c \<Longrightarrow> c \<noteq> CHR 0x0D"
  by (auto simp: is_digit_def)

lemma digits_val_nil [simp]: "digits_val [] = 0"
  by (simp add: digits_val_def)

lemma digits_val_snoc [simp]: "digits_val (s @ [c]) = 10 * digits_val s + digit_val c"
  by (simp add: digits_val_def)

lemma digits_val_nonneg: "list_all is_digit s \<Longrightarrow> 0 \<le> digits_val s"
  by (induction s rule: rev_induct) simp_all

lemma digits_val_less: "list_all is_digit s \<Longrightarrow> digits_val s < 10 ^ length s"
proof (induction s rule: rev_induct)
  case (snoc c s)
  then have "digits_val s + 1 \<le> 10 ^ length s" and "digit_val c < 10" by simp_all
  then show ?case by simp
qed simp

lemma dec_digits_not_nil [simp]: "dec_digits n \<noteq> []"
  by (subst dec_digits.simps) simp

lemma dec_digits_is_digit: "0 \<le> n \<Longrightarrow> list_all is_digit (dec_digits n)"
proof (induction n rule: dec_digits.induct)
  case (1 n)
  then show ?case by (subst dec_digits.simps) simp
qed

lemma dec_digits_digit: "c \<in> set (dec_digits n) \<Longrightarrow> 0 \<le> n \<Longrightarrow> is_digit c"
  using dec_digits_is_digit [of n] by (simp add: list_all_iff)

lemma digits_val_dec_digits [simp]: "0 \<le> n \<Longrightarrow> digits_val (dec_digits n) = n"
proof (induction n rule: dec_digits.induct)
  case (1 n)
  show ?case
  proof (cases "n < 10")
    case True
    then show ?thesis using "1.prems"
      by (subst dec_digits.simps) (simp add: digits_val_def)
  next
    case False
    with "1" show ?thesis by (subst dec_digits.simps) simp
  qed
qed

lemma dec_digits_inj:
  "dec_digits m = dec_digits n \<Longrightarrow> 0 \<le> m \<Longrightarrow> 0 \<le> n \<Longrightarrow> m = n"
  by (metis digits_val_dec_digits)

lemma dec_digits_length:
  "n < 10 ^ k \<Longrightarrow> 0 < k \<Longrightarrow> length (dec_digits n) \<le> k"
proof (induction n arbitrary: k rule: dec_digits.induct)
  case (1 n)
  show ?case
  proof (cases "n < 10")
    case True
    then show ?thesis using "1.prems" by (subst dec_digits.simps) simp
  next
    case False
    then obtain j where j: "k = Suc j" "0 < j"
      using "1.prems" by (cases k; cases "k - 1") auto
    have "n div 10 < 10 ^ j"
      using "1.prems" j by simp
    then have "length (dec_digits (n div 10)) \<le> j" using "1.IH" False j by blast
    then show ?thesis using False j by (subst dec_digits.simps) simp
  qed
qed

lemma atoi_digits:
  assumes "s \<noteq> []" and "list_all is_digit s"
  shows "atoi s = (if digits_val s < 2 ^ 63 then Some (digits_val s) else None)"
proof -
  have "is_digit (hd s)" using assms by (cases s) auto
  moreover have "0 \<le> digits_val s" using assms by (simp add: digits_val_nonneg)
  ultimately show ?thesis
    using assms by (auto simp: atoi_def Let_def int64_range_def)
qed

lemma atoi_dec_digits [go_simps]:
  "0 \<le> n \<Longrightarrow> n < 2 ^ 63 \<Longrightarrow> atoi (dec_digits n) = Some n"
  by (simp add: atoi_digits dec_digits_is_digit)

lemma atoi_itoa:
  assumes "int64_range n"
  shows "atoi (itoa n) = Some n"
proof (cases "n < 0")
  case True
  then show ?thesis using assms
    by (simp add: itoa_def atoi_def Let_def dec_digits_is_digit)
next
  case False
  then show ?thesis using assms
    by (simp add: itoa_def atoi_dec_digits int64_range_def)
qed

lemma atoi_range: "atoi s = Some n \<Longrightarrow> int64_range n"
  by (auto simp: atoi_def Let_def split: if_splits)

lemma atoi_nil [simp]: "atoi [] = None"
  by (simp add: atoi_def)

lemma digits_val_zeros [simp]:
  "digits_val (replicate k (CHR ''0'') @ s) = digits_val s"
proof -
  have "foldl (\<lambda>acc c. 10 * acc + digit_val c) 0 (replicate k (CHR ''0'')) = 0"
    by (induction k) (simp_all add: digit_val_def)
  then show ?thesis by (simp add: digits_val_def)
qed

lemma pad_digits_is_digit: "0 \<le> n \<Longrightarrow> list_all is_digit (pad_digits w n)"
  using dec_digits_is_digit [of n]
  by (auto simp: pad_digits_def list_all_iff is_digit_def)

lemma digits_val_pad_digits [simp]: "0 \<le> n \<Longrightarrow> digits_val (pad_digits w n) = n"
  by (simp add: pad_digits_def)

lemma length_pad_digits: "n < 10 ^ w \<Longrightarrow> 0 < w \<Longrightarrow> length (pad_digits w n) = w"
  using dec_digits_length [of n w] by (simp add: pad_digits_def)

subsection \<open>Hexadecimal\<close>

lemma hex_val_hex_char [simp]: "d < 16 \<Longrightarrow> hex_val (hex_char d) = d"
  by (auto simp: hex_val_def hex_char_def)

lemma is_hex_hex_char [simp]: "d < 16 \<Longrightarrow> is_hex (hex_char d)"
  by (auto simp: is_hex_def is_digit_def hex_char_def)

lemma byte_val_hex_char_less:
  assumes "d < e" and "e < 16"
  shows "byte_val (hex_char d) < byte_val (hex_char e)"
  using assms by (auto simp: hex_char_def)

lemma length_hex_byte [simp]: "length (hex_byte b) = 2"
  by (simp add: hex_byte_def)

lemma unat_u8_less [simp]: "unat (b :: u8) < 256"
  using unsigned_less [where 'b = 8, of b] by simp

lemma hex_byte_is_hex: "c \<in> set (hex_byte b) \<Longrightarrow> is_hex c"
  using unat_u8_less [of b] by (auto simp: hex_byte_def less_mult_imp_div_less)

lemma hex_encode_simps [simp]:
  "hex_encode [] = []"
  "hex_encode (b # bs) = hex_byte b @ hex_encode bs"
  "hex_encode (bs @ cs) = hex_encode bs @ hex_encode cs"
  by (simp_all add: hex_encode_def)

lemma length_hex_encode [simp]: "length (hex_encode bs) = 2 * length bs"
  by (induction bs) auto

lemma hex_encode_is_hex: "c \<in> set (hex_encode bs) \<Longrightarrow> is_hex c"
  by (induction bs) (auto dest: hex_byte_is_hex)

end
