(* ===== verification/Go_Time.thy ===== *)
theory Go_Time
  imports Go_Strconv
begin

text \<open>
  The part of Go's package \<^verbatim>\<open>time\<close> that the program uses.  An instant is the integer number
  of nanoseconds since the Unix epoch, a duration an integer of nanoseconds (saturated or
  wrapped at 64 bits where Go does so).  A \<^verbatim>\<open>*time.Location\<close> is its lookup function: for
  Unix seconds, the offset of the zone in use and the interval it is used in; the zone
  database behind \<^verbatim>\<open>time.LoadLocation\<close> is a parameter of the definitions that load zones.
  \<^verbatim>\<open>time.Parse\<close> is given for the two layouts the program parses, piece by piece as the
  library reads them, and \<^verbatim>\<open>Format\<close> for \<^verbatim>\<open>RFC3339Nano\<close> in UTC.
\<close>

type_synonym instant = int
type_synonym duration = int

record zone =
  zone_offset :: int
  zone_start :: int
  zone_end :: int

type_synonym location = "int \<Rightarrow> zone"

record datetime =
  dt_year :: int
  dt_month :: int
  dt_day :: int
  dt_hour :: int
  dt_min :: int
  dt_sec :: int
  dt_nsec :: int

section \<open>Definitions\<close>

definition max_duration :: duration where
  "max_duration = 2 ^ 63 - 1"

definition min_duration :: duration where
  "min_duration = - (2 ^ 63)"

abbreviation second :: duration where "second \<equiv> 1000000000"
abbreviation hour :: duration where "hour \<equiv> 3600 * second"

text \<open>64-bit two's complement wrap-around, as \<^verbatim>\<open>Duration\<close> arithmetic has it.\<close>

definition wrap64 :: "int \<Rightarrow> int" where
  "wrap64 x = (x + 2 ^ 63) mod 2 ^ 64 - 2 ^ 63"

text \<open>\<^verbatim>\<open>Time.Sub\<close> saturates; the zero \<^verbatim>\<open>Time\<close> is 1 January of year 1 in UTC.\<close>

definition time_sub :: "instant \<Rightarrow> instant \<Rightarrow> duration" where
  "time_sub t u = max min_duration (min max_duration (t - u))"

definition zero_time :: instant where
  "zero_time = - 62135596800 * second"

definition unix_sec :: "instant \<Rightarrow> int" where
  "unix_sec t = t div second"

definition unix_milli :: "instant \<Rightarrow> int" where
  "unix_milli t = t div 1000000"

subsection \<open>The calendar\<close>

definition is_leap :: "int \<Rightarrow> bool" where
  "is_leap y \<longleftrightarrow> y mod 4 = 0 \<and> (y mod 100 \<noteq> 0 \<or> y mod 400 = 0)"

definition month_lengths :: "int \<Rightarrow> int list" where
  "month_lengths y =
     [31, if is_leap y then 29 else 28, 31, 30, 31, 30, 31, 31, 30, 31, 30, 31]"

text \<open>Days from 1 January of year 1 to 1 January of year \<open>y\<close>, proleptic Gregorian.\<close>

definition days_before_year :: "int \<Rightarrow> int" where
  "days_before_year y =
     (let k = y - 1 in 365 * k + k div 4 - k div 100 + k div 400)"

text \<open>The year a day falls in: cycles of 400, 100, 4 and 1 years.\<close>

definition year_of_days :: "int \<Rightarrow> int" where
  "year_of_days d =
     (let n = d div 146097; r = d mod 146097;
          c = min 3 (r div 36524); r1 = r - 36524 * c;
          q = r1 div 1461; r2 = r1 - 1461 * q
      in 400 * n + 100 * c + 4 * q + min 3 (r2 div 365) + 1)"

fun month_day :: "int list \<Rightarrow> int \<Rightarrow> int \<Rightarrow> int \<times> int" where
  "month_day [] m d = (m, d + 1)"
| "month_day (l # ls) m d = (if d < l then (m, d + 1) else month_day ls (m + 1) (d - l))"

definition unix_epoch_days :: int where
  "unix_epoch_days = 719162"

text \<open>The civil time of an instant in UTC, and \<^verbatim>\<open>Time.Year\<close> in a location.\<close>

definition civil_of :: "instant \<Rightarrow> datetime" where
  "civil_of t =
     (let s = unix_sec t; days = s div 86400 + unix_epoch_days; r = s mod 86400;
          y = year_of_days days;
          (m, d) = month_day (month_lengths y) 1 (days - days_before_year y)
      in \<lparr>dt_year = y, dt_month = m, dt_day = d, dt_hour = r div 3600,
          dt_min = r mod 3600 div 60, dt_sec = r mod 60,
          dt_nsec = t mod second\<rparr>)"

definition year_in :: "location \<Rightarrow> instant \<Rightarrow> int" where
  "year_in loc t =
     (let s = unix_sec t
      in year_of_days ((s + zone_offset (loc s)) div 86400 + unix_epoch_days))"

text \<open>\<^verbatim>\<open>time.Date\<close> on a valid civil time: the Unix second as if in UTC, then the zone.\<close>

definition civil_sec :: "datetime \<Rightarrow> int" where
  "civil_sec x =
     (days_before_year (dt_year x) - unix_epoch_days
       + sum_list (take (nat (dt_month x - 1)) (month_lengths (dt_year x)))
       + dt_day x - 1) * 86400
     + dt_hour x * 3600 + dt_min x * 60 + dt_sec x"

definition zone_adjust :: "location \<Rightarrow> int \<Rightarrow> int" where
  "zone_adjust loc unix =
     (let z = loc unix in
      if zone_offset z = 0 then unix
      else
        (let utc = unix - zone_offset z in
         if utc < zone_start z \<or> zone_end z \<le> utc
         then unix - zone_offset (loc utc)
         else utc))"

definition date_in :: "location \<Rightarrow> datetime \<Rightarrow> instant" where
  "date_in loc x = zone_adjust loc (civil_sec x) * second + dt_nsec x"

definition utc :: location where
  "utc = (\<lambda>_. \<lparr>zone_offset = 0, zone_start = - (2 ^ 63), zone_end = 2 ^ 63 - 1\<rparr>)"

subsection \<open>Parsing\<close>

text \<open>
  \<^verbatim>\<open>skip\<close>: a space of the layout skips any run of spaces of the value (none is an error
  unless the value is at its end); any other byte must be there.
\<close>

fun skip_layout :: "bytes \<Rightarrow> bytes \<Rightarrow> bytes option" where
  "skip_layout value [] = Some value"
| "skip_layout value (p # prefix) =
     (if p = CHR '' '' then
        (if value \<noteq> [] \<and> hd value \<noteq> CHR '' '' then None
         else skip_layout (trim_left value '' '') prefix)
      else if value = [] \<or> hd value \<noteq> p then None
      else skip_layout (tl value) prefix)"

text \<open>\<^verbatim>\<open>getnum\<close>: one or two digits, exactly two if \<open>fixed\<close>.\<close>

definition getnum :: "bool \<Rightarrow> bytes \<Rightarrow> (int \<times> bytes) option" where
  "getnum fixed s =
     (case s of
        [] \<Rightarrow> None
      | a # t \<Rightarrow>
          if \<not> is_digit a then None
          else
            (case t of
               [] \<Rightarrow> if fixed then None else Some (digit_val a, t)
             | b # u \<Rightarrow>
                 if is_digit b then Some (10 * digit_val a + digit_val b, u)
                 else if fixed then None else Some (digit_val a, t)))"

definition scan_year :: "bytes \<Rightarrow> (int \<times> bytes) option" where
  "scan_year s =
     (if 4 \<le> length s \<and> list_all is_digit (take 4 s)
      then Some (digits_val (take 4 s), drop 4 s) else None)"

definition short_month_names :: "bytes list" where
  "short_month_names =
     [''Jan'', ''Feb'', ''Mar'', ''Apr'', ''May'', ''Jun'',
      ''Jul'', ''Aug'', ''Sep'', ''Oct'', ''Nov'', ''Dec'']"

text \<open>\<^verbatim>\<open>lookup\<close> compares letters without regard to case.\<close>

definition ascii_lower :: "char \<Rightarrow> char" where
  "ascii_lower c = (if is_upper c then char_of (byte_val c + 32) else c)"

fun scan_month_from :: "int \<Rightarrow> bytes list \<Rightarrow> bytes \<Rightarrow> (int \<times> bytes) option" where
  "scan_month_from m [] s = None"
| "scan_month_from m (n # ns) s =
     (if length n \<le> length s
         \<and> map ascii_lower (take (length n) s) = map ascii_lower n
      then Some (m, drop (length n) s) else scan_month_from (m + 1) ns s)"

definition scan_month :: "bytes \<Rightarrow> (int \<times> bytes) option" where
  "scan_month s = scan_month_from 1 short_month_names s"

text \<open>A fraction of a second: a period or comma and digits; nine digits count.\<close>

definition scan_fraction :: "bytes \<Rightarrow> int \<times> bytes" where
  "scan_fraction s =
     (if 2 \<le> length s \<and> (hd s = CHR ''.'' \<or> hd s = CHR '','') \<and> is_digit (s ! 1)
      then
        (let ds = takeWhile is_digit (tl s); ns = take 9 ds
         in (digits_val ns * 10 ^ (9 - length ns), drop (Suc (length ds)) s))
      else (0, s))"

definition in_range :: "int \<Rightarrow> (int \<times> bytes) option \<Rightarrow> (int \<times> bytes) option" where
  "in_range bound r = (case r of Some (n, s) \<Rightarrow> if n < bound then Some (n, s) else None | None \<Rightarrow> None)"

text \<open>The clock of both layouts, \<^verbatim>\<open>15:04:05\<close> with an optional fraction behind.\<close>

definition scan_clock :: "bytes \<Rightarrow> ((int \<times> int \<times> int \<times> int) \<times> bytes) option" where
  "scan_clock s =
     Option.bind (in_range 24 (getnum False s)) (\<lambda>(h, s1).
     Option.bind (skip_layout s1 '':'') (\<lambda>s2.
     Option.bind (in_range 60 (getnum True s2)) (\<lambda>(mi, s3).
     Option.bind (skip_layout s3 '':'') (\<lambda>s4.
     Option.bind (in_range 60 (getnum True s4)) (\<lambda>(sec, s5).
     let (ns, s6) = scan_fraction s5 in Some ((h, mi, sec, ns), s6))))))"

definition valid_day :: "int \<Rightarrow> int \<Rightarrow> int \<Rightarrow> bool" where
  "valid_day y m d \<longleftrightarrow> 1 \<le> d \<and> d \<le> month_lengths y ! nat (m - 1)"

text \<open>\<^verbatim>\<open>time.ParseInLocation("2006 Jan 2 15:04:05", value, loc)\<close>.\<close>

definition parse_stamp_in :: "location \<Rightarrow> bytes \<Rightarrow> instant option" where
  "parse_stamp_in loc value =
     Option.bind (scan_year value) (\<lambda>(y, s1).
     Option.bind (skip_layout s1 '' '') (\<lambda>s2.
     Option.bind (scan_month s2) (\<lambda>(m, s3).
     Option.bind (skip_layout s3 '' '') (\<lambda>s4.
     Option.bind (getnum False s4) (\<lambda>(d, s5).
     Option.bind (skip_layout s5 '' '') (\<lambda>s6.
     Option.bind (scan_clock s6) (\<lambda>((h, mi, sec, ns), s7).
     if s7 = [] \<and> valid_day y m d
     then Some (date_in loc \<lparr>dt_year = y, dt_month = m, dt_day = d, dt_hour = h,
                  dt_min = mi, dt_sec = sec, dt_nsec = ns\<rparr>)
     else None)))))))"

text \<open>The zone of RFC 3339, \<^verbatim>\<open>Z07:00\<close>: \<^verbatim>\<open>Z\<close> or a sign, hours and minutes; in seconds.\<close>

definition scan_zone :: "bytes \<Rightarrow> (int \<times> bytes) option" where
  "scan_zone s =
     (case s of
        [] \<Rightarrow> None
      | c # t \<Rightarrow>
          if c = CHR ''Z'' then Some (0, t)
          else if length s < 6 \<or> s ! 3 \<noteq> CHR '':'' then None
          else
            Option.bind (getnum True (take 2 t)) (\<lambda>(hr, _).
            Option.bind (getnum True (take 2 (drop 4 s))) (\<lambda>(mm, _).
            if 24 < hr \<or> 60 < mm then None
            else if c = CHR ''+'' then Some (((hr * 60 + mm) * 60), drop 6 s)
            else if c = CHR ''-'' then Some (- ((hr * 60 + mm) * 60), drop 6 s)
            else None)))"

text \<open>\<^verbatim>\<open>time.Parse(time.RFC3339Nano, value)\<close>.\<close>

definition parse_rfc3339 :: "bytes \<Rightarrow> instant option" where
  "parse_rfc3339 value =
     Option.bind (scan_year value) (\<lambda>(y, s1).
     Option.bind (skip_layout s1 ''-'') (\<lambda>s2.
     Option.bind (getnum True s2) (\<lambda>(m, s3).
     if m < 1 \<or> 12 < m then None else
     Option.bind (skip_layout s3 ''-'') (\<lambda>s4.
     Option.bind (getnum True s4) (\<lambda>(d, s5).
     Option.bind (skip_layout s5 ''T'') (\<lambda>s6.
     Option.bind (scan_clock s6) (\<lambda>((h, mi, sec, ns), s7).
     Option.bind (scan_zone s7) (\<lambda>(off, s8).
     if s8 = [] \<and> valid_day y m d
     then Some (date_in utc \<lparr>dt_year = y, dt_month = m, dt_day = d, dt_hour = h,
                  dt_min = mi, dt_sec = sec, dt_nsec = ns\<rparr> - off * second)
     else None))))))))"

subsection \<open>Formatting\<close>

text \<open>\<^verbatim>\<open>t.UTC().Format(time.RFC3339Nano)\<close>; the fraction has no trailing zeros.\<close>

definition format_fraction :: "int \<Rightarrow> bytes" where
  "format_fraction ns =
     (if ns = 0 then [] else CHR ''.'' # trim_right (pad_digits 9 ns) ''0'')"

definition format_year :: "int \<Rightarrow> bytes" where
  "format_year y =
     (if y < 0 then CHR ''-'' # pad_digits 4 (- y) else pad_digits 4 y)"

definition format_civil :: "datetime \<Rightarrow> bytes" where
  "format_civil x =
     format_year (dt_year x) @ ''-'' @ pad_digits 2 (dt_month x) @ ''-''
       @ pad_digits 2 (dt_day x) @ ''T'' @ pad_digits 2 (dt_hour x) @ '':''
       @ pad_digits 2 (dt_min x) @ '':'' @ pad_digits 2 (dt_sec x)
       @ format_fraction (dt_nsec x) @ ''Z''"

definition format_rfc3339 :: "instant \<Rightarrow> bytes" where
  "format_rfc3339 t = format_civil (civil_of t)"

section \<open>Lemmas\<close>

lemma wrap64_id [simp]: "int64_range x \<Longrightarrow> wrap64 x = x"
  by (simp add: wrap64_def int64_range_def)

lemma wrap64_range: "int64_range (wrap64 x)"
  using pos_mod_bound [of "2 ^ 64 :: int" "x + 2 ^ 63"]
  by (simp add: wrap64_def int64_range_def)

lemma time_sub_exact: "int64_range (t - u) \<Longrightarrow> time_sub t u = t - u"
  by (simp add: time_sub_def int64_range_def max_duration_def min_duration_def)

subsection \<open>The calendar\<close>

lemma div_pred:
  assumes "0 < (m :: int)"
  shows "y div m = (y - 1) div m + (if y mod m = 0 then 1 else 0)"
proof -
  have y: "y = m * (y div m) + y mod m" and r: "0 \<le> y mod m" "y mod m < m"
    using assms by simp_all
  show ?thesis
  proof (cases "y mod m = 0")
    case True
    then have "y - 1 = m * (y div m - 1) + (m - 1)" using y by (simp add: algebra_simps)
    then have "(y - 1) div m = y div m - 1"
      by (rule int_div_pos_eq) (use assms in auto)
    then show ?thesis using True by simp
  next
    case False
    then have "y - 1 = m * (y div m) + (y mod m - 1)" using y by linarith
    then have "(y - 1) div m = y div m"
      by (rule int_div_pos_eq) (use False r in auto)
    then show ?thesis using False by simp
  qed
qed

lemma days_before_year_Suc:
  "days_before_year (y + 1) = days_before_year y + (if is_leap y then 366 else 365)"
proof -
  have d: "y mod 100 = 0 \<Longrightarrow> y mod 4 = 0" and e: "y mod 400 = 0 \<Longrightarrow> y mod 100 = 0"
    using mod_mod_cancel [of 4 100 y] mod_mod_cancel [of 100 400 y] by auto
  have leap: "(if p \<and> (\<not> q \<or> r) then 366 else 365)
      = (365 + of_bool p - of_bool q + of_bool r :: int)" if "q \<longrightarrow> p" "r \<longrightarrow> q" for p q r
    using that by (cases p; cases q; cases r) simp_all
  define A B C :: int where "A = of_bool (y mod 4 = 0)" and "B = of_bool (y mod 100 = 0)"
    and "C = of_bool (y mod 400 = 0)"
  have "y div 4 = (y - 1) div 4 + A" "y div 100 = (y - 1) div 100 + B"
    "y div 400 = (y - 1) div 400 + C"
    unfolding A_def B_def C_def of_bool_def by (rule div_pred, simp)+
  then have "days_before_year (y + 1) = days_before_year y + (365 + A - B + C)"
    by (simp add: days_before_year_def Let_def)
  moreover have "(if is_leap y then 366 else 365) = 365 + A - B + C"
    unfolding is_leap_def A_def B_def C_def using d e by (intro leap) blast+
  ultimately show ?thesis by (simp only:)
qed

lemma days_before_year_parts:
  assumes "0 \<le> c" "c \<le> 3" "0 \<le> q" "q \<le> 24" "0 \<le> y" "y \<le> 3"
  shows "days_before_year (400 * n + 100 * c + 4 * q + y + 1)
           = 146097 * n + 36524 * c + 1461 * q + 365 * y"
proof -
  let ?k = "400 * n + 100 * c + 4 * q + y"
  have "?k div 4 = 100 * n + 25 * c + q"
    by (rule int_div_pos_eq [where r = y]) (use assms in auto)
  moreover have "?k div 100 = 4 * n + c"
    by (rule int_div_pos_eq [where r = "4 * q + y"]) (use assms in auto)
  moreover have "?k div 400 = n"
    by (rule int_div_pos_eq [where r = "100 * c + 4 * q + y"]) (use assms in auto)
  ultimately show ?thesis by (simp add: days_before_year_def Let_def)
qed

lemma is_leap_parts:
  assumes "0 \<le> c" "c \<le> 3" "0 \<le> q" "q \<le> 24" "0 \<le> y" "y \<le> 3"
  shows "is_leap (400 * n + 100 * c + 4 * q + y + 1) \<longleftrightarrow> y = 3 \<and> (q < 24 \<or> c = 3)"
proof -
  let ?k = "400 * n + 100 * c + 4 * q + y + 1"
  have "?k mod 4 = (if y = 3 then 0 else y + 1)"
    using assms
    by (intro int_mod_pos_eq [where q = "100 * n + 25 * c + q + (if y = 3 then 1 else 0)"]) auto
  moreover have "?k mod 100 = (if y = 3 \<and> q = 24 then 0 else 4 * q + y + 1)"
    using assms
    by (intro int_mod_pos_eq [where q = "4 * n + c + (if y = 3 \<and> q = 24 then 1 else 0)"]) auto
  moreover have "?k mod 400 = (if y = 3 \<and> q = 24 \<and> c = 3 then 0 else 100 * c + 4 * q + y + 1)"
    using assms
    by (intro int_mod_pos_eq
      [where q = "n + (if y = 3 \<and> q = 24 \<and> c = 3 then 1 else 0)"]) auto
  ultimately show ?thesis using assms unfolding is_leap_def by auto
qed

lemma year_of_days_bounds:
  "days_before_year (year_of_days d) \<le> d \<and> d < days_before_year (year_of_days d + 1)"
proof -
  define n r where "n = d div 146097" and "r = d mod 146097"
  define c where "c = min 3 (r div 36524)"
  define r1 where "r1 = r - 36524 * c"
  define q where "q = r1 div 1461"
  define r2 where "r2 = r1 - 1461 * q"
  define y where "y = min 3 (r2 div 365)"
  have d: "d = 146097 * n + r" and r: "0 \<le> r" "r < 146097" by (simp_all add: n_def r_def)
  have c: "0 \<le> c" "c \<le> 3" using r by (auto simp: c_def)
  have rd: "r = 36524 * (r div 36524) + r mod 36524"
    and rm: "0 \<le> r mod 36524" "r mod 36524 < 36524" by simp_all
  have r1: "0 \<le> r1" "r1 \<le> 36524" "c < 3 \<Longrightarrow> r1 < 36524"
    using r rd rm unfolding r1_def c_def by (auto simp: min_def)
  have q: "0 \<le> q" "q \<le> 24" using r1 by (auto simp: q_def)
  have "r1 = 1461 * q + r1 mod 1461" by (simp add: q_def)
  then have r2: "0 \<le> r2" "r2 < 1461" unfolding r2_def by (simp_all add: q_def)
  have y: "0 \<le> y" "y \<le> 3" using r2 by (auto simp: y_def)
  have eq: "year_of_days d = 400 * n + 100 * c + 4 * q + y + 1"
    by (simp only: year_of_days_def Let_def n_def r_def c_def r1_def q_def r2_def y_def)
  have start: "days_before_year (year_of_days d) = 146097 * n + 36524 * c + 1461 * q + 365 * y"
    unfolding eq by (rule days_before_year_parts [OF c q y])
  have leap: "is_leap (year_of_days d) \<longleftrightarrow> y = 3 \<and> (q < 24 \<or> c = 3)"
    unfolding eq by (rule is_leap_parts [OF c q y])
  have dd: "d = 146097 * n + 36524 * c + 1461 * q + r2" by (simp add: d r1_def r2_def)
  have r3: "r2 = 365 * (r2 div 365) + r2 mod 365" "0 \<le> r2 mod 365" "r2 mod 365 < 365"
    by simp_all
  then have lo: "365 * y \<le> r2" unfolding y_def by (auto simp: min_def)
  have hi: "r2 < 365 * y + (if y = 3 then 366 else 365)"
    using r2 r3 unfolding y_def by (auto simp: min_def)
  have last: "r2 < 1460" if "\<not> (q < 24 \<or> c = 3)"
    using that r1 c q by (simp add: r2_def)
  have "days_before_year (year_of_days d) \<le> d" using start dd lo by linarith
  moreover have "d < days_before_year (year_of_days d + 1)"
  proof (cases "is_leap (year_of_days d)")
    case True
    then have "y = 3" using leap by blast
    then show ?thesis
      using True start dd r2 days_before_year_Suc [of "year_of_days d"] by simp
  next
    case False
    then have "r2 < 365 * y + 365" using leap last hi by (cases "y = 3") auto
    then show ?thesis
      using False start dd days_before_year_Suc [of "year_of_days d"] by simp
  qed
  ultimately show ?thesis ..
qed

lemma days_before_year_mono: "y < z \<Longrightarrow> days_before_year (y + 1) \<le> days_before_year z"
proof (induction "nat (z - y)" arbitrary: z)
  case (Suc n)
  show ?case
  proof (cases "z = y + 1")
    case False
    then have "days_before_year (y + 1) \<le> days_before_year (z - 1)"
      using Suc by (intro Suc.hyps(1)) auto
    also have "\<dots> \<le> days_before_year z"
      using days_before_year_Suc [of "z - 1"] by (auto split: if_splits)
    finally show ?thesis .
  qed simp
qed simp

lemma year_of_days_unique:
  assumes "days_before_year y \<le> d" and "d < days_before_year (y + 1)"
  shows "year_of_days d = y"
  using assms year_of_days_bounds [of d]
    days_before_year_mono [of y "year_of_days d"] days_before_year_mono [of "year_of_days d" y]
  by linarith

lemma length_month_lengths [simp]: "length (month_lengths y) = 12"
  by (simp add: month_lengths_def)

lemma month_lengths_sum: "sum_list (month_lengths y) = (if is_leap y then 366 else 365)"
  by (simp add: month_lengths_def)

lemma month_day_correct:
  assumes "0 \<le> d" and "d < sum_list ls" and "month_day ls m0 d = (m, dd)"
  shows "m0 \<le> m \<and> m < m0 + int (length ls) \<and> 1 \<le> dd \<and> dd \<le> ls ! nat (m - m0)
         \<and> sum_list (take (nat (m - m0)) ls) + dd - 1 = d"
  using assms
proof (induction ls m0 d rule: month_day.induct)
  case (2 l ls m0 d)
  show ?case
  proof (cases "d < l")
    case False
    with "2.IH" "2.prems" have IH: "m0 + 1 \<le> m \<and> m < m0 + 1 + int (length ls) \<and> 1 \<le> dd
      \<and> dd \<le> ls ! nat (m - (m0 + 1)) \<and> sum_list (take (nat (m - (m0 + 1))) ls) + dd - 1 = d - l"
      by simp
    then have "nat (m - m0) = Suc (nat (m - (m0 + 1)))" by linarith
    then show ?thesis using IH by simp
  qed (use "2.prems" in auto)
qed simp

lemma clock_parts:
  "(s :: int) div 86400 * 86400 + s mod 86400 div 3600 * 3600 + s mod 86400 mod 3600 div 60 * 60
     + s mod 86400 mod 60 = s"
proof -
  have "s mod 86400 mod 60 = s mod 86400 mod 3600 mod 60"
    by (simp add: mod_mod_cancel)
  then have a: "s mod 86400 mod 3600 div 60 * 60 + s mod 86400 mod 60 = s mod 86400 mod 3600"
    by (simp only: div_mult_mod_eq)
  show ?thesis by (simp only: add.assoc a div_mult_mod_eq)
qed

lemma civil_of_fields:
  fixes t
  defines "x \<equiv> civil_of t"
  shows "1 \<le> dt_month x" "dt_month x \<le> 12" "valid_day (dt_year x) (dt_month x) (dt_day x)"
    "0 \<le> dt_hour x" "dt_hour x < 24" "0 \<le> dt_min x" "dt_min x < 60"
    "0 \<le> dt_sec x" "dt_sec x < 60" "0 \<le> dt_nsec x" "dt_nsec x < second"
    and "civil_sec x = unix_sec t" and "dt_nsec x = t mod second"
proof -
  define s where "s = unix_sec t"
  define days where "days = s div 86400 + unix_epoch_days"
  define y where "y = year_of_days days"
  obtain m d where md: "month_day (month_lengths y) 1 (days - days_before_year y) = (m, d)"
    by fastforce
  have x: "x = \<lparr>dt_year = y, dt_month = m, dt_day = d, dt_hour = s mod 86400 div 3600,
    dt_min = s mod 86400 mod 3600 div 60, dt_sec = s mod 86400 mod 60, dt_nsec = t mod second\<rparr>"
    using md by (simp add: x_def civil_of_def Let_def s_def days_def y_def)
  have yb: "days_before_year y \<le> days" "days < days_before_year (y + 1)"
    using year_of_days_bounds [of days] by (simp_all add: y_def)
  then have "1 \<le> m \<and> m < 1 + int (length (month_lengths y)) \<and> 1 \<le> d
    \<and> d \<le> month_lengths y ! nat (m - 1)
    \<and> sum_list (take (nat (m - 1)) (month_lengths y)) + d - 1 = days - days_before_year y"
    by (intro month_day_correct [OF _ _ md])
      (simp_all add: month_lengths_sum days_before_year_Suc split: if_splits)
  then have md': "1 \<le> m" "m \<le> 12" "1 \<le> d" "d \<le> month_lengths y ! nat (m - 1)"
    "days_before_year y + sum_list (take (nat (m - 1)) (month_lengths y)) + d - 1 = days"
    by auto
  show "1 \<le> dt_month x" "dt_month x \<le> 12" "valid_day (dt_year x) (dt_month x) (dt_day x)"
    using md' by (simp_all add: x valid_day_def)
  show "0 \<le> dt_hour x" "dt_hour x < 24" "0 \<le> dt_min x" "dt_min x < 60"
    "0 \<le> dt_sec x" "dt_sec x < 60" "0 \<le> dt_nsec x" "dt_nsec x < second" "dt_nsec x = t mod second"
    by (simp_all add: x)
  have "civil_sec x = (days - unix_epoch_days) * 86400 + (s mod 86400 div 3600) * 3600
      + (s mod 86400 mod 3600 div 60) * 60 + s mod 86400 mod 60"
    using md'(5) by (simp add: civil_sec_def x algebra_simps)
  also have "\<dots> = s" by (simp add: days_def clock_parts)
  finally show "civil_sec x = unix_sec t" by (simp add: s_def)
qed

lemma date_in_utc: "date_in utc x = civil_sec x * second + dt_nsec x"
  by (simp add: date_in_def zone_adjust_def utc_def Let_def)

lemma date_in_civil_of: "date_in utc (civil_of t) = t"
  by (simp add: date_in_utc civil_of_fields unix_sec_def)

subsection \<open>Reading back what was formatted\<close>

lemma pad_digits_2:
  assumes "0 \<le> n" "n < 100"
  shows "pad_digits 2 n = [digit_char (n div 10), digit_char (n mod 10)]"
proof (cases "n < 10")
  case True
  then have "dec_digits n = [digit_char n]" by (subst dec_digits.simps) simp
  moreover have "digit_char 0 = CHR ''0''" by (simp add: digit_char_def char_of_def)
  ultimately show ?thesis using assms True by (simp add: pad_digits_def)
next
  case False
  then have "dec_digits n = [digit_char (n div 10), digit_char (n mod 10)]"
    using assms by (subst dec_digits.simps) (simp add: dec_digits.simps [of "n div 10"])
  then show ?thesis by (simp add: pad_digits_def)
qed

lemma getnum_pad [simp]:
  "0 \<le> n \<Longrightarrow> n < 100 \<Longrightarrow> getnum b (pad_digits 2 n @ s) = Some (n, s)"
  by (simp add: pad_digits_2 getnum_def)

lemma scan_year_pad [simp]:
  assumes "0 \<le> y" "y < 10000"
  shows "scan_year (pad_digits 4 y @ s) = Some (y, s)"
proof -
  have "length (pad_digits 4 y) = 4" using assms by (simp add: length_pad_digits)
  then show ?thesis using assms by (simp add: scan_year_def pad_digits_is_digit)
qed

lemma skip_layout_byte [simp]:
  "c \<noteq> CHR '' '' \<Longrightarrow> skip_layout (c # s) [c] = Some s"
  by simp

lemma digits_val_append_zeros:
  "digits_val (s @ replicate k (CHR ''0'')) = digits_val s * 10 ^ k"
proof (induction k)
  case (Suc k)
  have "digits_val (s @ replicate (Suc k) (CHR ''0''))
      = 10 * digits_val (s @ replicate k (CHR ''0'')) + digit_val (CHR ''0'')"
    by (metis append_assoc digits_val_snoc replicate_append_same replicate_Suc)
  then show ?case using Suc by (simp add: digit_val_def)
qed simp

lemma scan_fraction_format:
  assumes "0 \<le> ns" "ns < second"
  shows "scan_fraction (format_fraction ns @ CHR ''Z'' # s) = (ns, CHR ''Z'' # s)"
proof (cases "ns = 0")
  case True
  then show ?thesis by (simp add: format_fraction_def scan_fraction_def)
next
  case False
  define p where "p = pad_digits 9 ns"
  define ds where "ds = trim_right p ''0''"
  obtain z where z: "p = ds @ z" "set z \<subseteq> {CHR ''0''}"
    using trim_right_prefix [of p "''0''"] by (auto simp: ds_def)
  then have zr: "z = replicate (length z) (CHR ''0'')" by (auto intro: replicate_eqI)
  have lp: "length p = 9" using assms by (simp add: p_def length_pad_digits)
  have dig: "list_all is_digit p" using assms by (simp add: p_def pad_digits_is_digit)
  have val: "digits_val p = ns" using assms by (simp add: p_def)
  have val': "digits_val ds * 10 ^ length z = ns"
    using val z(1) zr digits_val_append_zeros [of ds "length z"] by simp
  then have ne: "ds \<noteq> []" using False by auto
  have dd: "list_all is_digit ds" using dig z by simp
  have len: "length z = 9 - length ds" "length ds \<le> 9" using lp z by auto
  have tw: "takeWhile is_digit (ds @ CHR ''Z'' # s) = ds"
    using dd by (simp add: takeWhile_tail is_digit_def list_all_iff)
  have hd1: "is_digit ((ds @ CHR ''Z'' # s) ! 0)" using ne dd by (cases ds) auto
  have "format_fraction ns = CHR ''.'' # ds"
    using False by (simp add: format_fraction_def ds_def p_def)
  then show ?thesis
    using ne hd1 len val' by (simp add: scan_fraction_def Let_def tw)
qed

text \<open>A civil time with a four-digit year, every field in its range.\<close>

definition civil_ok :: "datetime \<Rightarrow> bool" where
  "civil_ok x \<longleftrightarrow> 0 \<le> dt_year x \<and> dt_year x < 10000 \<and> 1 \<le> dt_month x \<and> dt_month x \<le> 12
     \<and> valid_day (dt_year x) (dt_month x) (dt_day x) \<and> 0 \<le> dt_hour x \<and> dt_hour x < 24
     \<and> 0 \<le> dt_min x \<and> dt_min x < 60 \<and> 0 \<le> dt_sec x \<and> dt_sec x < 60
     \<and> 0 \<le> dt_nsec x \<and> dt_nsec x < second"

lemma month_lengths_le_31:
  assumes "1 \<le> m" "m \<le> 12"
  shows "month_lengths y ! nat (m - 1) \<le> 31"
proof -
  have "\<forall>l \<in> set (month_lengths y). l \<le> 31" by (simp add: month_lengths_def)
  moreover have "nat (m - 1) < length (month_lengths y)" using assms by simp
  ultimately show ?thesis using nth_mem by blast
qed

lemma parse_format_civil:
  assumes "civil_ok x"
  shows "parse_rfc3339 (format_civil x) = Some (date_in utc x)"
proof -
  have "dt_day x \<le> 31" and "1 \<le> dt_day x"
    using assms month_lengths_le_31 [of "dt_month x" "dt_year x"]
    by (auto simp: civil_ok_def valid_day_def)
  then show ?thesis
    using assms
    by (cases x) (simp add: civil_ok_def parse_rfc3339_def format_civil_def format_year_def
        scan_clock_def in_range_def scan_fraction_format scan_zone_def)
qed

lemma parse_format_rfc3339 [go_simps]:
  assumes "0 \<le> dt_year (civil_of t)" and "dt_year (civil_of t) < 10000"
  shows "parse_rfc3339 (format_rfc3339 t) = Some t"
proof -
  have "civil_ok (civil_of t)"
    using assms civil_of_fields [of t] by (simp add: civil_ok_def)
  then show ?thesis
    by (simp add: format_rfc3339_def parse_format_civil date_in_civil_of)
qed

end
