(* ===== verification/Domain.thy ===== *)
theory Domain
  imports Go_Time
begin

text \<open>
  The data model of \<^verbatim>\<open>backend/internal/domain/log.go\<close>: the frame a transport hands to the
  pipeline and the canonical log entry the normalizer builds from it.  A pointer to an
  optional number is an \<^typ>\<open>'a option\<close>; \<^verbatim>\<open>map[string]any\<close> is a partial function to
  \<open>any_value\<close>, the values a JSON document or a parser puts there.
\<close>

datatype any_value =
    AStr bytes
  | ANum bytes
  | ABool bool
  | ANull
  | AArr "any_value list"
  | AObj "(bytes \<times> any_value) list"

type_synonym field_map = "bytes \<rightharpoonup> any_value"

datatype parse_status =
    ParseStatusParsed
  | ParseStatusPartial
  | ParseStatusUnknown
  | ParseStatusInvalid

fun parse_status_string :: "parse_status \<Rightarrow> bytes" where
  "parse_status_string ParseStatusParsed = ''parsed''"
| "parse_status_string ParseStatusPartial = ''partial''"
| "parse_status_string ParseStatusUnknown = ''unknown''"
| "parse_status_string ParseStatusInvalid = ''invalid''"

definition schema_version :: u16 where
  "schema_version = 1"

record frame =
  fr_payload :: bytes
  fr_received_at :: instant
  fr_tenant_id :: bytes
  fr_source_id :: bytes
  fr_source_name :: bytes
  fr_protocol :: bytes
  fr_source_ip :: bytes
  fr_source_port :: u16

record log_entry =
  le_id :: bytes
  le_tenant_id :: bytes
  le_timestamp :: instant
  le_received_at :: instant
  le_message :: bytes
  le_raw_message :: bytes
  le_hostname :: bytes
  le_source_ip :: bytes
  le_source_port :: u16
  le_facility :: "u8 option"
  le_facility_name :: bytes
  le_severity :: "u8 option"
  le_severity_name :: bytes
  le_priority :: "u8 option"
  le_protocol :: bytes
  le_format :: bytes
  le_app_name :: bytes
  le_process_id :: bytes
  le_message_id :: bytes
  le_source_id :: bytes
  le_source :: bytes
  le_source_type :: bytes
  le_fields :: field_map
  le_labels :: "bytes \<rightharpoonup> bytes"
  le_parse_status :: parse_status
  le_schema_version :: u16
  le_timestamp_inferred :: bool

text \<open>An entry with little in it, for examples.\<close>

definition sample_entry :: "bytes \<Rightarrow> log_entry" where
  "sample_entry msg = \<lparr>le_id = ''i'', le_tenant_id = ''t'', le_timestamp = 1, le_received_at = 1, le_message = msg,
     le_raw_message = msg, le_hostname = [], le_source_ip = [], le_source_port = 0, le_facility = None,
     le_facility_name = [], le_severity = None, le_severity_name = [], le_priority = None, le_protocol = ''udp'',
     le_format = ''unknown'', le_app_name = [], le_process_id = [], le_message_id = [], le_source_id = ''s'',
     le_source = [], le_source_type = ''syslog'', le_fields = Map.empty, le_labels = Map.empty,
     le_parse_status = ParseStatusUnknown, le_schema_version = 1, le_timestamp_inferred = False\<rparr>"

end
