(* ===== verification/Config.thy ===== *)
theory Config
  imports Domain
begin

text \<open>
  \<^verbatim>\<open>backend/internal/config/config.go\<close>: the configuration, its defaults, the environment
  overrides and the validation that \<^verbatim>\<open>Load\<close> ends with.  The YAML decoder, the file system,
  \<^verbatim>\<open>url.Parse\<close> and the zone database are arguments, and so is the floating point product that
  \<^verbatim>\<open>time.ParseDuration\<close> uses for the digits behind a decimal point.  Shown are what every
  accepted configuration satisfies, that validation is idempotent and keeps what was set,
  and the precedence of the sources of a setting.
\<close>

section \<open>Definitions\<close>

record http_config =
  hc_address :: bytes
  hc_read_timeout :: duration
  hc_write_timeout :: duration
  hc_idle_timeout :: duration
  hc_read_header_timeout :: duration
  hc_read_timeout_text :: bytes
  hc_write_timeout_text :: bytes
  hc_idle_timeout_text :: bytes
  hc_read_header_timeout_text :: bytes

record queue_config =
  qc_max_events :: int
  qc_max_bytes :: int
  qc_enqueue_timeout :: duration
  qc_enqueue_timeout_text :: bytes

record batch_config =
  bc_max_events :: int
  bc_max_bytes :: int
  bc_max_age :: duration
  bc_max_age_text :: bytes

record retry_config =
  rc_max_attempts :: int
  rc_initial_backoff :: duration
  rc_max_backoff :: duration
  rc_initial_backoff_text :: bytes
  rc_max_backoff_text :: bytes

record source_config =
  sc_id :: bytes
  sc_name :: bytes
  sc_protocol :: bytes
  sc_address :: bytes
  sc_parser :: bytes
  sc_enabled :: bool
  sc_max_message_bytes :: int
  sc_max_connections :: int
  sc_framing :: bytes
  sc_tenant_id :: bytes
  sc_timezone :: bytes

record ingestion_config =
  ic_queue :: queue_config
  ic_batch :: batch_config
  ic_retry :: retry_config
  ic_sources :: "source_config list"

record storage_config =
  st_type :: bytes
  st_endpoint :: bytes
  st_timeout :: duration
  st_timeout_text :: bytes
  st_stream_fields :: "bytes list"

record control_store_config =
  cs_enabled :: bool
  cs_dsn :: bytes
  cs_dsn_file :: bytes
  cs_timeout :: duration
  cs_timeout_text :: bytes

record shutdown_config =
  sd_timeout :: duration
  sd_timeout_text :: bytes

record config =
  cf_http :: http_config
  cf_ingestion :: ingestion_config
  cf_storage :: storage_config
  cf_control_store :: control_store_config
  cf_shutdown :: shutdown_config

record overrides =
  ov_http_address :: bytes
  ov_storage_endpoint :: bytes

datatype config_error =
    Open_config
  | Decode_config
  | Env_bool
  | Duration_syntax bytes
  | Duration_not_positive bytes
  | Address_required
  | Queue_limits
  | Batch_limits
  | Batch_exceeds_queue
  | Retry_policy
  | Storage_type bytes
  | Storage_endpoint
  | Source_id nat
  | Source_protocol bytes
  | Source_limits bytes
  | Source_parser bytes
  | Source_framing bytes
  | Source_timezone bytes
  | Control_dsn_required

definition default_config :: config where
  "default_config =
     \<lparr>cf_http = \<lparr>hc_address = '':8080'', hc_read_timeout = 0, hc_write_timeout = 0, hc_idle_timeout = 0,
        hc_read_header_timeout = 0, hc_read_timeout_text = ''15s'', hc_write_timeout_text = ''30s'',
        hc_idle_timeout_text = ''60s'', hc_read_header_timeout_text = ''5s''\<rparr>,
      cf_ingestion = \<lparr>
        ic_queue = \<lparr>qc_max_events = 100000, qc_max_bytes = 256 * 2 ^ 20, qc_enqueue_timeout = 0,
          qc_enqueue_timeout_text = ''25ms''\<rparr>,
        ic_batch = \<lparr>bc_max_events = 1000, bc_max_bytes = 4 * 2 ^ 20, bc_max_age = 0, bc_max_age_text = ''1s''\<rparr>,
        ic_retry = \<lparr>rc_max_attempts = 5, rc_initial_backoff = 0, rc_max_backoff = 0,
          rc_initial_backoff_text = ''100ms'', rc_max_backoff_text = ''5s''\<rparr>,
        ic_sources = []\<rparr>,
      cf_storage = \<lparr>st_type = ''victorialogs'', st_endpoint = ''http://127.0.0.1:9428'', st_timeout = 0,
        st_timeout_text = ''10s'',
        st_stream_fields = [''tenant_id'', ''source_type'', ''hostname'', ''app_name'']\<rparr>,
      cf_control_store = \<lparr>cs_enabled = False, cs_dsn = [], cs_dsn_file = [], cs_timeout = 0,
        cs_timeout_text = ''5s''\<rparr>,
      cf_shutdown = \<lparr>sd_timeout = 0, sd_timeout_text = ''20s''\<rparr>\<rparr>"

subsection \<open>Durations and booleans of the standard library\<close>

text \<open>
  \<^verbatim>\<open>leadingInt\<close>: the digits in front, or an error above \<open>2^63\<close>; \<^verbatim>\<open>leadingFraction\<close>: the
  digits behind the point as a number and its scale, stopping where they pass 63 bits.
\<close>

fun leading_int_from :: "int \<Rightarrow> bytes \<Rightarrow> (int \<times> bytes) option" where
  "leading_int_from x [] = Some (x, [])"
| "leading_int_from x (c # s) =
     (if \<not> is_digit c then Some (x, c # s)
      else if 2 ^ 63 div 10 < x then None
      else if 2 ^ 63 < 10 * x + digit_val c then None
      else leading_int_from (10 * x + digit_val c) s)"

fun leading_fraction_from :: "int \<Rightarrow> int \<Rightarrow> bool \<Rightarrow> bytes \<Rightarrow> int \<times> int \<times> bytes" where
  "leading_fraction_from x scale overflow [] = (x, scale, [])"
| "leading_fraction_from x scale overflow (c # s) =
     (if \<not> is_digit c then (x, scale, c # s)
      else if overflow then leading_fraction_from x scale True s
      else if (2 ^ 63 - 1) div 10 < x \<or> 2 ^ 63 < 10 * x + digit_val c
      then leading_fraction_from x scale True s
      else leading_fraction_from (10 * x + digit_val c) (10 * scale) False s)"

definition unit_map :: "bytes \<rightharpoonup> int" where
  "unit_map = map_of
     [(''ns'', 1), (''us'', 1000), ([CHR 0xC2, CHR 0xB5, CHR ''s''], 1000),
      ([CHR 0xCE, CHR 0xBC, CHR ''s''], 1000), (''ms'', 1000000), (''s'', 1000000000),
      (''m'', 60000000000), (''h'', 3600000000000)]"

definition unit_char :: "char \<Rightarrow> bool" where
  "unit_char c \<longleftrightarrow> c \<noteq> CHR ''.'' \<and> \<not> is_digit c"

text \<open>The digits of a number, with an optional point: integer part, fraction, its scale.\<close>

definition duration_number :: "bytes \<Rightarrow> (int \<times> int \<times> int \<times> bytes) option" where
  "duration_number s =
     (case leading_int_from 0 s of
        None \<Rightarrow> None
      | Some (v, s1) \<Rightarrow>
          if s1 \<noteq> [] \<and> hd s1 = CHR ''.''
          then
            (case leading_fraction_from 0 1 False (tl s1) of
               (f, scale, s2) \<Rightarrow>
                 if length s = length s1 \<and> length (tl s1) = length s2 then None
                 else Some (v, f, scale, s2))
          else if length s = length s1 then None
          else Some (v, 0, 1, s1))"

text \<open>
  One number with its unit.  \<^term>\<open>frac f u scale\<close> is Go's
  \<^verbatim>\<open>uint64(float64(f) * (float64(unit) / scale))\<close>.
\<close>

definition duration_item ::
  "(int \<Rightarrow> int \<Rightarrow> int \<Rightarrow> int) \<Rightarrow> bytes \<Rightarrow> (int \<times> bytes) option" where
  "duration_item frac s =
     (if s = [] \<or> \<not> (hd s = CHR ''.'' \<or> is_digit (hd s)) then None
      else
        (case duration_number s of
           None \<Rightarrow> None
         | Some (v, f, scale, s2) \<Rightarrow>
             (let u = takeWhile unit_char s2; s3 = dropWhile unit_char s2 in
              if u = [] then None
              else
                (case unit_map u of
                   None \<Rightarrow> None
                 | Some unit \<Rightarrow>
                     if 2 ^ 63 div unit < v then None
                     else if 0 < f then
                       (if 2 ^ 63 < v * unit + frac f unit scale then None
                        else Some (v * unit + frac f unit scale, s3))
                     else Some (v * unit, s3)))))"

lemma leading_int_from_length: "leading_int_from x s = Some (v, r) \<Longrightarrow> length r \<le> length s"
  by (induction x s rule: leading_int_from.induct) (auto split: if_splits)

lemma leading_fraction_from_length: "leading_fraction_from x y b s = (f, sc, r) \<Longrightarrow> length r \<le> length s"
  by (induction x y b s rule: leading_fraction_from.induct) (auto split: if_splits)

lemma duration_number_length: "duration_number s = Some (v, f, sc, r) \<Longrightarrow> length r \<le> length s"
  unfolding duration_number_def
  by (fastforce split: option.splits prod.splits if_splits
      dest!: leading_int_from_length leading_fraction_from_length)

lemma duration_item_shorter: "duration_item frac s = Some (w, r) \<Longrightarrow> length r < length s"
proof -
  assume "duration_item frac s = Some (w, r)"
  then obtain v f sc s2 where "duration_number s = Some (v, f, sc, s2)"
    and r: "r = dropWhile unit_char s2" "takeWhile unit_char s2 \<noteq> []"
    by (auto simp: duration_item_def Let_def split: if_split_asm option.split_asm)
  then have "length s2 \<le> length s" by (simp add: duration_number_length)
  moreover have "length r < length s2"
    using r by (metis length_append length_greater_0_conv less_add_same_cancel2 takeWhile_dropWhile_id)
  ultimately show ?thesis by linarith
qed

text \<open>\<^verbatim>\<open>time.ParseDuration\<close>: the loop over the items, and the sign.\<close>

function duration_items :: "(int \<Rightarrow> int \<Rightarrow> int \<Rightarrow> int) \<Rightarrow> int \<Rightarrow> bytes \<Rightarrow> int option" where
  "duration_items frac d s =
     (if s = [] then Some d
      else
        (case duration_item frac s of
           None \<Rightarrow> None
         | Some (w, r) \<Rightarrow> if 2 ^ 63 < d + w then None else duration_items frac (d + w) r))"
  by pat_completeness auto
termination
  by (relation "measure (\<lambda>(frac, d, s). length s)") (auto dest: duration_item_shorter)

declare duration_items.simps [simp del]

definition parse_duration :: "(int \<Rightarrow> int \<Rightarrow> int \<Rightarrow> int) \<Rightarrow> bytes \<Rightarrow> duration option" where
  "parse_duration frac s0 =
     (let neg = (s0 \<noteq> [] \<and> hd s0 = CHR ''-'');
          s = (if s0 \<noteq> [] \<and> (hd s0 = CHR ''-'' \<or> hd s0 = CHR ''+'') then tl s0 else s0)
      in if s = ''0'' then Some 0
         else if s = [] then None
         else
           (case duration_items frac 0 s of
              None \<Rightarrow> None
            | Some d \<Rightarrow>
                if neg then Some (- d) else if 2 ^ 63 - 1 < d then None else Some d))"

text \<open>\<^verbatim>\<open>strconv.ParseBool\<close>.\<close>

definition parse_bool :: "bytes \<Rightarrow> bool option" where
  "parse_bool s =
     (if s \<in> {''1'', ''t'', ''T'', ''true'', ''TRUE'', ''True''} then Some True
      else if s \<in> {''0'', ''f'', ''F'', ''false'', ''FALSE'', ''False''} then Some False
      else None)"

subsection \<open>Environment and overrides\<close>

text \<open>The map built from the environment: the last assignment of a name counts.\<close>

definition env_values :: "bytes list \<Rightarrow> bytes \<rightharpoonup> bytes" where
  "env_values environ =
     fold (\<lambda>item m. case cut_byte (CHR ''='') item of (k, v, ok) \<Rightarrow> if ok then m(k \<mapsto> v) else m)
       environ Map.empty"

definition set_from :: "(bytes \<rightharpoonup> bytes) \<Rightarrow> bytes \<Rightarrow> bytes \<Rightarrow> bytes" where
  "set_from vals name dst = (case vals name of None \<Rightarrow> dst | Some v \<Rightarrow> v)"

definition apply_env :: "config \<Rightarrow> bytes list \<Rightarrow> config_error + config" where
  "apply_env cfg environ =
     (let vals = env_values environ;
          cfg1 = cfg\<lparr>
            cf_http := (cf_http cfg)\<lparr>hc_address := set_from vals ''SYSLOGX_HTTP_ADDRESS'' (hc_address (cf_http cfg))\<rparr>,
            cf_storage := (cf_storage cfg)\<lparr>st_endpoint :=
              set_from vals ''SYSLOGX_STORAGE_ENDPOINT'' (st_endpoint (cf_storage cfg))\<rparr>,
            cf_control_store := (cf_control_store cfg)\<lparr>
              cs_dsn := set_from vals ''SYSLOGX_CONTROL_STORE_DSN'' (cs_dsn (cf_control_store cfg)),
              cs_dsn_file := set_from vals ''SYSLOGX_CONTROL_STORE_DSN_FILE'' (cs_dsn_file (cf_control_store cfg))\<rparr>\<rparr>
      in case vals ''SYSLOGX_CONTROL_STORE_ENABLED'' of
           None \<Rightarrow> Inr cfg1
         | Some v \<Rightarrow>
             (case parse_bool v of
                None \<Rightarrow> Inl Env_bool
              | Some b \<Rightarrow> Inr (cfg1\<lparr>cf_control_store := (cf_control_store cfg1)\<lparr>cs_enabled := b\<rparr>\<rparr>)))"

definition apply_overrides :: "overrides \<Rightarrow> config \<Rightarrow> config" where
  "apply_overrides ov cfg =
     (let cfg1 = (if ov_http_address ov \<noteq> []
                  then cfg\<lparr>cf_http := (cf_http cfg)\<lparr>hc_address := ov_http_address ov\<rparr>\<rparr> else cfg)
      in if ov_storage_endpoint ov \<noteq> []
         then cfg1\<lparr>cf_storage := (cf_storage cfg1)\<lparr>st_endpoint := ov_storage_endpoint ov\<rparr>\<rparr> else cfg1)"

subsection \<open>Validation\<close>

definition positive_duration ::
  "(int \<Rightarrow> int \<Rightarrow> int \<Rightarrow> int) \<Rightarrow> bytes \<Rightarrow> bytes \<Rightarrow> config_error + duration" where
  "positive_duration frac name text =
     (case parse_duration frac text of
        None \<Rightarrow> Inl (Duration_syntax name)
      | Some d \<Rightarrow> if d \<le> 0 then Inl (Duration_not_positive name) else Inr d)"

definition finalize_durations :: "(int \<Rightarrow> int \<Rightarrow> int \<Rightarrow> int) \<Rightarrow> config \<Rightarrow> config_error + config" where
  "finalize_durations frac c =
     (let h = cf_http c; i = cf_ingestion c in
      result_bind (positive_duration frac ''server.http.read_timeout'' (hc_read_timeout_text h)) (\<lambda>d1.
      result_bind (positive_duration frac ''server.http.write_timeout'' (hc_write_timeout_text h)) (\<lambda>d2.
      result_bind (positive_duration frac ''server.http.idle_timeout'' (hc_idle_timeout_text h)) (\<lambda>d3.
      result_bind (positive_duration frac ''server.http.read_header_timeout'' (hc_read_header_timeout_text h)) (\<lambda>d4.
      result_bind (positive_duration frac ''ingestion.queue.enqueue_timeout'' (qc_enqueue_timeout_text (ic_queue i))) (\<lambda>d5.
      result_bind (positive_duration frac ''ingestion.batch.max_age'' (bc_max_age_text (ic_batch i))) (\<lambda>d6.
      result_bind (positive_duration frac ''ingestion.retry.initial_backoff'' (rc_initial_backoff_text (ic_retry i))) (\<lambda>d7.
      result_bind (positive_duration frac ''ingestion.retry.max_backoff'' (rc_max_backoff_text (ic_retry i))) (\<lambda>d8.
      result_bind (positive_duration frac ''storage.timeout'' (st_timeout_text (cf_storage c))) (\<lambda>d9.
      result_bind (positive_duration frac ''control_store.timeout'' (cs_timeout_text (cf_control_store c))) (\<lambda>d10.
      result_bind (positive_duration frac ''shutdown.timeout'' (sd_timeout_text (cf_shutdown c))) (\<lambda>d11.
      Inr (c\<lparr>
        cf_http := h\<lparr>hc_read_timeout := d1, hc_write_timeout := d2, hc_idle_timeout := d3, hc_read_header_timeout := d4\<rparr>,
        cf_ingestion := i\<lparr>
          ic_queue := (ic_queue i)\<lparr>qc_enqueue_timeout := d5\<rparr>,
          ic_batch := (ic_batch i)\<lparr>bc_max_age := d6\<rparr>,
          ic_retry := (ic_retry i)\<lparr>rc_initial_backoff := d7, rc_max_backoff := d8\<rparr>\<rparr>,
        cf_storage := (cf_storage c)\<lparr>st_timeout := d9\<rparr>,
        cf_control_store := (cf_control_store c)\<lparr>cs_timeout := d10\<rparr>,
        cf_shutdown := (cf_shutdown c)\<lparr>sd_timeout := d11\<rparr>\<rparr>)))))))))))))"

text \<open>The defaults a source gets, and one turn of the loop over the sources.\<close>

definition source_defaults :: "source_config \<Rightarrow> source_config" where
  "source_defaults s =
     s\<lparr>sc_tenant_id := (if sc_tenant_id s = [] then ''default'' else sc_tenant_id s),
       sc_parser := (if sc_parser s = [] then ''auto'' else sc_parser s),
       sc_max_message_bytes := (if sc_max_message_bytes s = 0 then 64 * 2 ^ 10 else sc_max_message_bytes s),
       sc_max_connections := (if sc_max_connections s = 0 then 1024 else sc_max_connections s),
       sc_framing := (if sc_framing s = [] then ''auto'' else sc_framing s),
       sc_timezone := (if sc_timezone s = [] then ''UTC'' else sc_timezone s)\<rparr>"

definition check_source :: "(bytes \<Rightarrow> location option) \<Rightarrow> source_config \<Rightarrow> config_error option" where
  "check_source load_location s =
     (if sc_protocol s \<noteq> ''udp'' \<and> sc_protocol s \<noteq> ''tcp'' then Some (Source_protocol (sc_id s))
      else if sc_address s = [] \<or> sc_max_message_bytes s \<le> 0 \<or> sc_max_connections s \<le> 0
      then Some (Source_limits (sc_id s))
      else if sc_parser s \<noteq> ''auto'' \<and> sc_parser s \<noteq> ''rfc3164'' \<and> sc_parser s \<noteq> ''rfc5424''
      then Some (Source_parser (sc_id s))
      else if sc_framing s \<noteq> ''auto'' \<and> sc_framing s \<noteq> ''newline'' \<and> sc_framing s \<noteq> ''octet_counting''
      then Some (Source_framing (sc_id s))
      else if load_location (sc_timezone s) = None then Some (Source_timezone (sc_id s))
      else None)"

fun finalize_sources ::
  "(bytes \<Rightarrow> location option) \<Rightarrow> nat \<Rightarrow> bytes list \<Rightarrow> source_config list \<Rightarrow> config_error + source_config list" where
  "finalize_sources load_location i seen [] = Inr []"
| "finalize_sources load_location i seen (s # ss) =
     (if sc_id s = [] \<or> sc_id s \<in> set seen then Inl (Source_id i)
      else
        (case check_source load_location (source_defaults s) of
           Some e \<Rightarrow> Inl e
         | None \<Rightarrow>
             result_bind (finalize_sources load_location (Suc i) (sc_id s # seen) ss)
               (\<lambda>rest. Inr (source_defaults s # rest))))"

text \<open>\<^verbatim>\<open>url_parse\<close> gives the scheme and the host of a URL.\<close>

definition finalize ::
  "(int \<Rightarrow> int \<Rightarrow> int \<Rightarrow> int) \<Rightarrow> (bytes \<Rightarrow> (bytes \<times> bytes) option) \<Rightarrow> (bytes \<Rightarrow> location option)
     \<Rightarrow> config \<Rightarrow> config_error + config" where
  "finalize frac url_parse load_location c0 =
     result_bind (finalize_durations frac c0) (\<lambda>c.
     let q = ic_queue (cf_ingestion c); b = ic_batch (cf_ingestion c); r = ic_retry (cf_ingestion c) in
     if hc_address (cf_http c) = [] then Inl Address_required
     else if qc_max_events q \<le> 0 \<or> qc_max_bytes q \<le> 0 then Inl Queue_limits
     else if bc_max_events b \<le> 0 \<or> bc_max_bytes b \<le> 0 then Inl Batch_limits
     else if qc_max_events q < bc_max_events b \<or> qc_max_bytes q < bc_max_bytes b then Inl Batch_exceeds_queue
     else if rc_max_attempts r \<le> 0 \<or> rc_max_backoff r < rc_initial_backoff r then Inl Retry_policy
     else if st_type (cf_storage c) \<noteq> ''victorialogs'' then Inl (Storage_type (st_type (cf_storage c)))
     else if (case url_parse (st_endpoint (cf_storage c)) of
                None \<Rightarrow> True
              | Some (scheme, host) \<Rightarrow> (scheme \<noteq> ''http'' \<and> scheme \<noteq> ''https'') \<or> host = [])
     then Inl Storage_endpoint
     else
       result_bind (finalize_sources load_location 0 [] (ic_sources (cf_ingestion c))) (\<lambda>ss.
       if cs_enabled (cf_control_store c) \<and> cs_dsn (cf_control_store c) = [] \<and> cs_dsn_file (cf_control_store c) = []
       then Inl Control_dsn_required
       else Inr (c\<lparr>cf_ingestion := (cf_ingestion c)\<lparr>ic_sources := ss\<rparr>\<rparr>)))"

definition file_config ::
  "(bytes \<Rightarrow> bytes option) \<Rightarrow> (bytes \<Rightarrow> config \<Rightarrow> config option) \<Rightarrow> bytes \<Rightarrow> config_error + config" where
  "file_config read_file decode path =
     (if path = [] then Inr default_config
      else (case read_file path of
              None \<Rightarrow> Inl Open_config
            | Some text \<Rightarrow>
                (case decode (take (4 * 2 ^ 20) text) default_config of
                   None \<Rightarrow> Inl Decode_config
                 | Some cfg \<Rightarrow> Inr cfg)))"

definition load_config ::
  "(bytes \<Rightarrow> bytes option) \<Rightarrow> (bytes \<Rightarrow> config \<Rightarrow> config option)
     \<Rightarrow> (int \<Rightarrow> int \<Rightarrow> int \<Rightarrow> int) \<Rightarrow> (bytes \<Rightarrow> (bytes \<times> bytes) option) \<Rightarrow> (bytes \<Rightarrow> location option)
     \<Rightarrow> bytes \<Rightarrow> bytes list \<Rightarrow> overrides \<Rightarrow> config_error + config" where
  "load_config read_file decode frac url_parse load_location path environ ov =
     result_bind (file_config read_file decode path) (\<lambda>cfg.
     result_bind (apply_env cfg environ) (\<lambda>cfg1.
     finalize frac url_parse load_location (apply_overrides ov cfg1)))"

definition control_dsn :: "(bytes \<Rightarrow> bytes option) \<Rightarrow> config \<Rightarrow> bytes option" where
  "control_dsn read_file c =
     (if cs_dsn (cf_control_store c) \<noteq> [] then Some (cs_dsn (cf_control_store c))
      else if cs_dsn_file (cf_control_store c) = [] then Some []
      else map_option trim_space (read_file (cs_dsn_file (cf_control_store c))))"

section \<open>What validation guarantees\<close>

definition source_ok :: "(bytes \<Rightarrow> location option) \<Rightarrow> source_config \<Rightarrow> bool" where
  "source_ok load_location s \<longleftrightarrow>
     sc_id s \<noteq> [] \<and> sc_tenant_id s \<noteq> [] \<and> sc_address s \<noteq> [] \<and> sc_protocol s \<in> {''udp'', ''tcp''}
     \<and> sc_parser s \<in> {''auto'', ''rfc3164'', ''rfc5424''}
     \<and> sc_framing s \<in> {''auto'', ''newline'', ''octet_counting''}
     \<and> 0 < sc_max_message_bytes s \<and> 0 < sc_max_connections s \<and> load_location (sc_timezone s) \<noteq> None"

definition durations_ok :: "config \<Rightarrow> bool" where
  "durations_ok c \<longleftrightarrow>
     0 < hc_read_timeout (cf_http c) \<and> 0 < hc_write_timeout (cf_http c) \<and> 0 < hc_idle_timeout (cf_http c)
     \<and> 0 < hc_read_header_timeout (cf_http c) \<and> 0 < qc_enqueue_timeout (ic_queue (cf_ingestion c))
     \<and> 0 < bc_max_age (ic_batch (cf_ingestion c)) \<and> 0 < rc_initial_backoff (ic_retry (cf_ingestion c))
     \<and> 0 < rc_max_backoff (ic_retry (cf_ingestion c)) \<and> 0 < st_timeout (cf_storage c)
     \<and> 0 < cs_timeout (cf_control_store c) \<and> 0 < sd_timeout (cf_shutdown c)"

definition ingestion_ok :: "(bytes \<Rightarrow> location option) \<Rightarrow> ingestion_config \<Rightarrow> bool" where
  "ingestion_ok load_location i \<longleftrightarrow>
     0 < bc_max_events (ic_batch i) \<and> bc_max_events (ic_batch i) \<le> qc_max_events (ic_queue i)
     \<and> 0 < bc_max_bytes (ic_batch i) \<and> bc_max_bytes (ic_batch i) \<le> qc_max_bytes (ic_queue i)
     \<and> 0 < rc_max_attempts (ic_retry i) \<and> rc_initial_backoff (ic_retry i) \<le> rc_max_backoff (ic_retry i)
     \<and> list_all (source_ok load_location) (ic_sources i) \<and> distinct (map sc_id (ic_sources i))"

definition config_ok :: "(bytes \<Rightarrow> (bytes \<times> bytes) option) \<Rightarrow> (bytes \<Rightarrow> location option) \<Rightarrow> config \<Rightarrow> bool" where
  "config_ok url_parse load_location c \<longleftrightarrow>
     durations_ok c \<and> ingestion_ok load_location (cf_ingestion c) \<and> hc_address (cf_http c) \<noteq> []
     \<and> st_type (cf_storage c) = ''victorialogs''
     \<and> (\<exists>scheme host. url_parse (st_endpoint (cf_storage c)) = Some (scheme, host)
           \<and> scheme \<in> {''http'', ''https''} \<and> host \<noteq> [])
     \<and> (cs_enabled (cf_control_store c) \<longrightarrow> cs_dsn (cf_control_store c) \<noteq> [] \<or> cs_dsn_file (cf_control_store c) \<noteq> [])"

lemma positive_duration_pos: "positive_duration frac name text = Inr d \<Longrightarrow> 0 < d"
  by (auto simp: positive_duration_def split: option.splits if_splits)

lemma finalize_durations_ok: "finalize_durations frac c = Inr c' \<Longrightarrow> durations_ok c'"
  by (auto simp: finalize_durations_def Let_def result_bind_Inr_iff durations_ok_def
      dest!: positive_duration_pos)

text \<open>Reading the texts again gives the same durations.\<close>

lemma finalize_durations_idem:
  assumes "finalize_durations frac c = Inr c'"
  shows "finalize_durations frac (c'\<lparr>cf_ingestion := (cf_ingestion c')\<lparr>ic_sources := ss\<rparr>\<rparr>)
     = Inr (c'\<lparr>cf_ingestion := (cf_ingestion c')\<lparr>ic_sources := ss\<rparr>\<rparr>)"
  using assms unfolding finalize_durations_def [of frac c] Let_def result_bind_Inr_iff
  by (clarsimp simp: finalize_durations_def Let_def)

lemma source_defaults_idem: "source_defaults (source_defaults s) = source_defaults s"
  by (simp add: source_defaults_def)

lemma check_source_ok:
  "check_source load_location (source_defaults s) = None \<Longrightarrow> sc_id s \<noteq> [] \<Longrightarrow> source_ok load_location (source_defaults s)"
  by (auto simp: check_source_def source_ok_def source_defaults_def split: if_splits)

lemma source_defaults_id: "sc_id (source_defaults s) = sc_id s"
  by (simp add: source_defaults_def)

lemma finalize_sources_ConsD:
  assumes "finalize_sources load_location i seen (s # ss) = Inr ss'"
  obtains rest where "finalize_sources load_location (Suc i) (sc_id s # seen) ss = Inr rest"
    "ss' = source_defaults s # rest" "sc_id s \<noteq> []" "sc_id s \<notin> set seen"
    "check_source load_location (source_defaults s) = None"
proof (cases "check_source load_location (source_defaults s)")
  case None
  then show thesis
    using assms that by (simp add: result_bind_Inr_iff split: if_split_asm) metis
qed (use assms in \<open>simp split: if_split_asm\<close>)

lemma finalize_sources_ok:
  "finalize_sources load_location i seen ss = Inr ss' \<Longrightarrow>
   list_all (source_ok load_location) ss' \<and> distinct (map sc_id ss') \<and> set (map sc_id ss') \<inter> set seen = {}"
proof (induction ss arbitrary: i seen ss')
  case (Cons s ss)
  from Cons.prems obtain rest where r: "finalize_sources load_location (Suc i) (sc_id s # seen) ss = Inr rest"
    "ss' = source_defaults s # rest" "sc_id s \<noteq> []" "sc_id s \<notin> set seen"
    "check_source load_location (source_defaults s) = None"
    by (rule finalize_sources_ConsD)
  have "source_ok load_location (source_defaults s)" using r(3,5) by (intro check_source_ok)
  then show ?case using Cons.IH [OF r(1)] r(2,4) by (auto simp: source_defaults_id)
qed simp

lemma finalize_sources_idem:
  "finalize_sources load_location i seen ss = Inr ss' \<Longrightarrow> finalize_sources load_location i seen ss' = Inr ss'"
proof (induction ss arbitrary: i seen ss')
  case (Cons s ss)
  from Cons.prems obtain rest where r: "finalize_sources load_location (Suc i) (sc_id s # seen) ss = Inr rest"
    "ss' = source_defaults s # rest" "sc_id s \<noteq> []" "sc_id s \<notin> set seen"
    "check_source load_location (source_defaults s) = None"
    by (rule finalize_sources_ConsD)
  then show ?case using Cons.IH [OF r(1)] by (simp add: source_defaults_id source_defaults_idem)
qed simp

lemma finalize_InrD:
  assumes "finalize frac url_parse load_location c0 = Inr c'"
  obtains c ss where "finalize_durations frac c0 = Inr c"
    "finalize_sources load_location 0 [] (ic_sources (cf_ingestion c)) = Inr ss"
    "c' = c\<lparr>cf_ingestion := (cf_ingestion c)\<lparr>ic_sources := ss\<rparr>\<rparr>"
    "config_ok url_parse load_location c'"
proof -
  obtain c where c: "finalize_durations frac c0 = Inr c"
    using assms by (cases "finalize_durations frac c0") (simp_all add: finalize_def)
  obtain ss where ss: "finalize_sources load_location 0 [] (ic_sources (cf_ingestion c)) = Inr ss"
    using assms
    by (cases "finalize_sources load_location 0 [] (ic_sources (cf_ingestion c))")
      (simp_all add: finalize_def c Let_def split: if_split_asm)
  have c': "c' = c\<lparr>cf_ingestion := (cf_ingestion c)\<lparr>ic_sources := ss\<rparr>\<rparr>"
    using assms by (simp add: finalize_def c ss Let_def split: if_split_asm)
  have "ingestion_ok load_location (cf_ingestion c')"
    using assms finalize_sources_ok [OF ss]
    by (simp add: finalize_def c ss Let_def c' ingestion_ok_def split: if_split_asm)
  moreover have "durations_ok c'"
    using finalize_durations_ok [OF c] by (simp add: c' durations_ok_def)
  moreover have "hc_address (cf_http c') \<noteq> [] \<and> st_type (cf_storage c') = ''victorialogs''
      \<and> (cs_enabled (cf_control_store c') \<longrightarrow> cs_dsn (cf_control_store c') \<noteq> [] \<or> cs_dsn_file (cf_control_store c') \<noteq> [])"
    using assms by (auto simp: finalize_def c ss Let_def c' split: if_split_asm)
  moreover have "\<exists>scheme host. url_parse (st_endpoint (cf_storage c')) = Some (scheme, host)
           \<and> scheme \<in> {''http'', ''https''} \<and> host \<noteq> []"
    using assms by (auto simp: finalize_def c ss Let_def c' split: if_split_asm option.split_asm)
  ultimately show thesis using that [OF c ss c'] by (simp add: config_ok_def)
qed

lemma load_config_config_ok:
  assumes "load_config read_file decode frac url_parse load_location path environ ov = Inr c"
  shows "config_ok url_parse load_location c"
proof -
  obtain c0 where "finalize frac url_parse load_location c0 = Inr c"
    using assms by (auto simp: load_config_def result_bind_Inr_iff)
  then show ?thesis by (rule finalize_InrD)
qed

text \<open>
  C19: a configuration that loads is safe to run with.  Whatever the file, the environment
  and the command line say, if \<^verbatim>\<open>Load\<close> returns a configuration then all eleven durations are
  positive, batch limits are positive and within the queue's, the retry policy has an
  attempt and ordered backoffs, the endpoint is an http(s) URL with a host, and the sources
  have distinct non-empty ids, a tenant, and a protocol, parser, framing, limits and time
  zone the program knows.
\<close>

theorem load_config_ok:
  assumes "load_config read_file decode frac url_parse load_location path environ ov = Inr c"
  shows "config_ok url_parse load_location c"
  using assms by (rule load_config_config_ok)

text \<open>
  Validation is idempotent: a configuration it has returned passes again and is not
  changed by it.
\<close>

theorem finalize_idempotent:
  assumes "finalize frac url_parse load_location c0 = Inr c"
  shows "finalize frac url_parse load_location c = Inr c"
proof -
  obtain c1 ss where c1: "finalize_durations frac c0 = Inr c1"
    and ss: "finalize_sources load_location 0 [] (ic_sources (cf_ingestion c1)) = Inr ss"
    and c: "c = c1\<lparr>cf_ingestion := (cf_ingestion c1)\<lparr>ic_sources := ss\<rparr>\<rparr>"
    using assms by (rule finalize_InrD)
  have "finalize_durations frac c = Inr c"
    unfolding c using c1 by (rule finalize_durations_idem)
  moreover have "finalize_sources load_location 0 [] ss = Inr ss" using ss by (rule finalize_sources_idem)
  ultimately show ?thesis
    using assms by (simp add: finalize_def c1 ss Let_def c split: if_split_asm)
qed

lemma finalize_durations_keeps:
  "finalize_durations frac c = Inr c' \<Longrightarrow>
   hc_address (cf_http c') = hc_address (cf_http c) \<and> st_endpoint (cf_storage c') = st_endpoint (cf_storage c)"
  by (auto simp: finalize_durations_def Let_def result_bind_Inr_iff)

lemma apply_env_keeps:
  "apply_env c environ = Inr c' \<Longrightarrow>
   hc_address (cf_http c') = set_from (env_values environ) ''SYSLOGX_HTTP_ADDRESS'' (hc_address (cf_http c))
   \<and> st_endpoint (cf_storage c') = set_from (env_values environ) ''SYSLOGX_STORAGE_ENDPOINT'' (st_endpoint (cf_storage c))"
  by (auto simp: apply_env_def Let_def split: option.splits)

text \<open>
  The command line takes precedence over the environment, the environment over the
  file, the file over the defaults, for the address and the storage endpoint; and what is
  set there is what the program runs with.
\<close>

theorem load_config_precedence:
  assumes "file_config read_file decode path = Inr file"
    and "load_config read_file decode frac url_parse load_location path environ ov = Inr c"
  shows "hc_address (cf_http c) =
           (if ov_http_address ov \<noteq> [] then ov_http_address ov
            else case env_values environ ''SYSLOGX_HTTP_ADDRESS'' of
                   Some v \<Rightarrow> v | None \<Rightarrow> hc_address (cf_http file))
         \<and> st_endpoint (cf_storage c) =
           (if ov_storage_endpoint ov \<noteq> [] then ov_storage_endpoint ov
            else case env_values environ ''SYSLOGX_STORAGE_ENDPOINT'' of
                   Some v \<Rightarrow> v | None \<Rightarrow> st_endpoint (cf_storage file))"
proof -
  obtain c1 where c1: "apply_env file environ = Inr c1"
    and fin: "finalize frac url_parse load_location (apply_overrides ov c1) = Inr c"
    using assms by (auto simp: load_config_def result_bind_Inr_iff)
  obtain c2 ss where "finalize_durations frac (apply_overrides ov c1) = Inr c2"
    and c: "c = c2\<lparr>cf_ingestion := (cf_ingestion c2)\<lparr>ic_sources := ss\<rparr>\<rparr>"
    using fin by (rule finalize_InrD)
  from finalize_durations_keeps [OF this(1)] apply_env_keeps [OF c1] show ?thesis
    by (simp add: c apply_overrides_def set_from_def Let_def split: option.split)
qed

section \<open>Witnesses\<close>

definition sample_load :: "bytes list \<Rightarrow> config_error + config" where
  "sample_load environ =
     load_config (\<lambda>_. None) (\<lambda>_ c. Some c) (\<lambda>_ _ _. 0) (\<lambda>_. Some (''http'', ''vl'')) (\<lambda>_. Some utc) [] environ
       \<lparr>ov_http_address = '':9000'', ov_storage_endpoint = []\<rparr>"

lemma sample_load_Inr:
  obtains c where "sample_load [''SYSLOGX_STORAGE_ENDPOINT=http://vl''] = Inr c"
    "rc_max_backoff (ic_retry (cf_ingestion c)) = 5000000000"
proof -
  have "case sample_load [''SYSLOGX_STORAGE_ENDPOINT=http://vl''] of
      Inl _ \<Rightarrow> False | Inr c \<Rightarrow> rc_max_backoff (ic_retry (cf_ingestion c)) = 5000000000"
    by code_simp
  then show thesis using that by (auto split: sum.splits)
qed

theorem load_config_ok_witness:
  "\<exists>c. sample_load [''SYSLOGX_STORAGE_ENDPOINT=http://vl''] = Inr c
     \<and> config_ok (\<lambda>_. Some (''http'', ''vl'')) (\<lambda>_. Some utc) c"
proof (rule sample_load_Inr)
  fix c
  assume c: "sample_load [''SYSLOGX_STORAGE_ENDPOINT=http://vl''] = Inr c"
  then show ?thesis using load_config_ok [OF c [unfolded sample_load_def]] by blast
qed

theorem load_config_precedence_witness:
  "\<exists>c. sample_load [''SYSLOGX_STORAGE_ENDPOINT=http://vl''] = Inr c
     \<and> hc_address (cf_http c) = '':9000'' \<and> st_endpoint (cf_storage c) = ''http://vl''"
proof (rule sample_load_Inr)
  fix c
  assume c: "sample_load [''SYSLOGX_STORAGE_ENDPOINT=http://vl''] = Inr c"
  have fl: "file_config (\<lambda>_. None) (\<lambda>_ c. Some c) [] = Inr default_config" by (simp add: file_config_def)
  have "env_values [''SYSLOGX_STORAGE_ENDPOINT=http://vl''] ''SYSLOGX_STORAGE_ENDPOINT'' = Some ''http://vl''"
    by code_simp
  then show ?thesis
    using load_config_precedence [OF fl c [unfolded sample_load_def]] c by simp
qed

theorem finalize_idempotent_witness:
  "\<exists>c. finalize (\<lambda>_ _ _. 0) (\<lambda>_. Some (''http'', ''vl'')) (\<lambda>_. Some utc) default_config = Inr c
     \<and> finalize (\<lambda>_ _ _. 0) (\<lambda>_. Some (''http'', ''vl'')) (\<lambda>_. Some utc) c = Inr c"
proof -
  have "case finalize (\<lambda>_ _ _. 0) (\<lambda>_. Some (''http'', ''vl'')) (\<lambda>_. Some utc) default_config of
      Inl _ \<Rightarrow> False | Inr c \<Rightarrow> True"
    by code_simp
  then obtain c where "finalize (\<lambda>_ _ _. 0) (\<lambda>_. Some (''http'', ''vl'')) (\<lambda>_. Some utc) default_config = Inr c"
    by (auto split: sum.splits)
  then show ?thesis using finalize_idempotent by blast
qed

end
