(* ===== verification/Framing.thy ===== *)
theory Framing
  imports Config
begin

text \<open>
  The framing of syslog over TCP in \<^verbatim>\<open>backend/internal/transport/syslog/manager.go\<close>:
  \<^verbatim>\<open>readFrame\<close> with its automatic choice between octet counting and newline framing.  A
  connection is the bytes that will arrive and the error the reader meets behind them.  The
  \<^verbatim>\<open>bufio.Reader\<close> shows in \<^verbatim>\<open>ReadSlice\<close>, which hands out a full buffer when it finds no
  newline in it; the theorems show that the size of the buffer does not matter.
\<close>

section \<open>Definitions\<close>

datatype stream_error = Io_EOF | Io_unexpected_EOF | Net_closed | Net_timeout | Io_other

datatype frame_error = Stream_error stream_error | ErrFrameTooLarge | Invalid_octet_count

record stream =
  st_data :: bytes
  st_end :: stream_error

type_synonym 'a read_result = "frame_error + ('a \<times> stream)"

text \<open>\<^verbatim>\<open>Reader.ReadByte\<close>, \<^verbatim>\<open>Reader.Peek\<close> (up to ten bytes) and \<^verbatim>\<open>io.ReadFull\<close>.\<close>

definition read_byte :: "stream \<Rightarrow> char read_result" where
  "read_byte r =
     (case st_data r of
        [] \<Rightarrow> Inl (Stream_error (st_end r))
      | b # s \<Rightarrow> Inr (b, r\<lparr>st_data := s\<rparr>))"

definition peek_bytes :: "stream \<Rightarrow> nat \<Rightarrow> frame_error + bytes" where
  "peek_bytes r n =
     (if n \<le> length (st_data r) then Inr (take n (st_data r)) else Inl (Stream_error (st_end r)))"

definition read_full :: "stream \<Rightarrow> nat \<Rightarrow> bytes read_result" where
  "read_full r n =
     (if n \<le> length (st_data r) then Inr (take n (st_data r), r\<lparr>st_data := drop n (st_data r)\<rparr>)
      else if st_data r \<noteq> [] \<and> st_end r = Io_EOF then Inl (Stream_error Io_unexpected_EOF)
      else Inl (Stream_error (st_end r)))"

text \<open>
  \<^verbatim>\<open>Reader.ReadSlice('\n')\<close> with a buffer of \<open>bufsize\<close> bytes: up to the newline, a full
  buffer, or what is left with the error.
\<close>

datatype slice_status = Slice_ok | Slice_buffer_full | Slice_error stream_error

definition read_slice :: "nat \<Rightarrow> stream \<Rightarrow> bytes \<times> slice_status \<times> stream" where
  "read_slice bufsize r =
     (case index_byte (CHR 0x0A) (take bufsize (st_data r)) of
        Some i \<Rightarrow> (take (Suc i) (st_data r), Slice_ok, r\<lparr>st_data := drop (Suc i) (st_data r)\<rparr>)
      | None \<Rightarrow>
          if bufsize \<le> length (st_data r)
          then (take bufsize (st_data r), Slice_buffer_full, r\<lparr>st_data := drop bufsize (st_data r)\<rparr>)
          else (st_data r, Slice_error (st_end r), r\<lparr>st_data := []\<rparr>))"

definition bytes_trim_line :: "bytes \<Rightarrow> bytes" where
  "bytes_trim_line b = trim_suffix (trim_suffix b [CHR 0x0A]) [CHR 0x0D]"

text \<open>
  The loop of \<^verbatim>\<open>readNewline\<close> with the bytes collected so far, for a buffer of
  \<^term>\<open>Suc bufsize\<close> bytes.
\<close>

function read_newline_loop :: "nat \<Rightarrow> int \<Rightarrow> bytes \<Rightarrow> stream \<Rightarrow> bytes read_result" where
  "read_newline_loop bufsize max_bytes payload0 r =
     (case read_slice (Suc bufsize) r of
        (part, status, r') \<Rightarrow>
          (let payload = payload0 @ part in
           if max_bytes < int (length payload) then Inl ErrFrameTooLarge
           else
             (case status of
                Slice_ok \<Rightarrow> Inr (bytes_trim_line payload, r')
              | Slice_buffer_full \<Rightarrow> read_newline_loop bufsize max_bytes payload r'
              | Slice_error e \<Rightarrow>
                  if e = Io_EOF \<and> payload \<noteq> [] then Inr (bytes_trim_line payload, r')
                  else Inl (Stream_error e))))"
  by pat_completeness auto
termination
  by (relation "measure (\<lambda>(bufsize, m, p, r). length (st_data r))")
    (auto simp: read_slice_def split: option.splits if_splits)

declare read_newline_loop.simps [simp del]

text \<open>The reader's buffer has at least 16 bytes.\<close>

definition read_newline :: "nat \<Rightarrow> int \<Rightarrow> stream \<Rightarrow> bytes read_result" where
  "read_newline bufsize max_bytes r = read_newline_loop (max 16 bufsize - 1) max_bytes [] r"

text \<open>The loop over at most eleven digits.\<close>

function read_count :: "bytes \<Rightarrow> stream \<Rightarrow> bytes read_result" where
  "read_count digits r =
     (if length digits \<le> 10 then
        (case read_byte r of
           Inl e \<Rightarrow> Inl e
         | Inr (b, r') \<Rightarrow>
             if b = CHR '' '' then Inr (digits, r')
             else if \<not> is_digit b then Inl Invalid_octet_count
             else read_count (digits @ [b]) r')
      else Inr (digits, r))"
  by pat_completeness auto
termination
  by (relation "measure (\<lambda>(digits, r). 11 - length digits)") auto

declare read_count.simps [simp del]

definition read_octet_counted :: "int \<Rightarrow> stream \<Rightarrow> bytes read_result" where
  "read_octet_counted max_bytes r =
     result_bind (read_count [] r) (\<lambda>(digits, r').
     case atoi digits of
       None \<Rightarrow> Inl Invalid_octet_count
     | Some n \<Rightarrow>
         if n < 0 then Inl Invalid_octet_count
         else if max_bytes < n then Inl ErrFrameTooLarge
         else read_full r' (nat n))"

fun looks_from :: "nat \<Rightarrow> nat \<Rightarrow> stream \<Rightarrow> frame_error + bool" where
  "looks_from 0 i r = Inl ErrFrameTooLarge"
| "looks_from (Suc k) i r =
     result_bind (peek_bytes r i) (\<lambda>b.
     let ch = b ! (i - 1) in
     if ch = CHR '' '' then Inr (1 < i)
     else if \<not> is_digit ch then Inr False
     else looks_from k (i + 1) r)"

definition looks_octet_counted :: "stream \<Rightarrow> frame_error + bool" where
  "looks_octet_counted r = looks_from 10 1 r"

definition read_frame :: "nat \<Rightarrow> bytes \<Rightarrow> int \<Rightarrow> stream \<Rightarrow> bytes read_result" where
  "read_frame bufsize framing max_bytes r =
     result_bind
       (if framing = ''auto''
        then result_bind (looks_octet_counted r)
               (\<lambda>octet. Inr (if octet then ''octet_counting'' else ''newline''))
        else Inr framing) (\<lambda>mode.
     if mode = ''octet_counting'' then read_octet_counted max_bytes r
     else read_newline bufsize max_bytes r)"

section \<open>Newline framing\<close>

text \<open>What \<^verbatim>\<open>readNewline\<close> means, without a buffer.\<close>

definition newline_spec :: "int \<Rightarrow> stream \<Rightarrow> bytes read_result" where
  "newline_spec max_bytes r =
     (case index_byte (CHR 0x0A) (st_data r) of
        Some i \<Rightarrow>
          if max_bytes < int (Suc i) then Inl ErrFrameTooLarge
          else Inr (bytes_trim_line (take (Suc i) (st_data r)), r\<lparr>st_data := drop (Suc i) (st_data r)\<rparr>)
      | None \<Rightarrow>
          if max_bytes < int (length (st_data r)) then Inl ErrFrameTooLarge
          else if st_end r = Io_EOF \<and> st_data r \<noteq> []
          then Inr (bytes_trim_line (st_data r), r\<lparr>st_data := []\<rparr>)
          else Inl (Stream_error (st_end r)))"

lemma read_slice_cases:
  obtains (found) i where "index_byte (CHR 0x0A) (st_data r) = Some i"
      "read_slice bufsize r = (take (Suc i) (st_data r), Slice_ok, r\<lparr>st_data := drop (Suc i) (st_data r)\<rparr>)"
  | (full) "CHR 0x0A \<notin> set (take bufsize (st_data r))" "bufsize \<le> length (st_data r)"
      "read_slice bufsize r
         = (take bufsize (st_data r), Slice_buffer_full, r\<lparr>st_data := drop bufsize (st_data r)\<rparr>)"
  | (rest) "CHR 0x0A \<notin> set (st_data r)"
      "read_slice bufsize r = (st_data r, Slice_error (st_end r), r\<lparr>st_data := []\<rparr>)"
proof (cases "index_byte (CHR 0x0A) (take bufsize (st_data r))")
  case None
  then show thesis using full rest by (cases "bufsize \<le> length (st_data r)") (simp_all add: read_slice_def)
next
  case (Some i)
  then have "index_byte (CHR 0x0A) (take bufsize (st_data r) @ drop bufsize (st_data r)) = Some i"
    by (rule index_byte_append_left)
  then show thesis using found Some by (simp add: read_slice_def)
qed

lemma read_newline_loop_spec:
  assumes "CHR 0x0A \<notin> set payload" and "int (length payload) \<le> max_bytes"
  shows "read_newline_loop bufsize max_bytes payload r
           = newline_spec max_bytes (r\<lparr>st_data := payload @ st_data r\<rparr>)"
  using assms
proof (induction bufsize max_bytes payload r rule: read_newline_loop.induct)
  case (1 bufsize max_bytes payload r)
  note idx = index_byte_append_right [OF "1.prems"(1), of "st_data r"]
  show ?case
  proof (cases rule: read_slice_cases [of r "Suc bufsize"])
    case (found i)
    then have "i < length (st_data r)" by (simp add: index_byte_SomeD)
    then show ?thesis using found
      by (subst read_newline_loop.simps) (simp add: newline_spec_def idx Let_def)
  next
    case full
    let ?p = "payload @ take (Suc bufsize) (st_data r)" and ?r = "r\<lparr>st_data := drop (Suc bufsize) (st_data r)\<rparr>"
    have nl: "CHR 0x0A \<notin> set ?p" using full "1.prems"(1) by simp
    have split: "payload @ st_data r = ?p @ st_data ?r" by simp
    show ?thesis
    proof (cases "max_bytes < int (length ?p)")
      case True
      have "newline_spec max_bytes (r\<lparr>st_data := payload @ st_data r\<rparr>) = Inl ErrFrameTooLarge"
        using True index_byte_append_right [OF nl, of "st_data ?r"] unfolding split newline_spec_def
        by (auto split: option.split)
      then show ?thesis using full True by (subst read_newline_loop.simps) (simp add: Let_def)
    next
      case False
      then have "read_newline_loop bufsize max_bytes ?p ?r = newline_spec max_bytes (?r\<lparr>st_data := ?p @ st_data ?r\<rparr>)"
        using "1.IH" [OF full(3) [symmetric] refl refl _ refl nl] by simp
      then show ?thesis using full False by (subst read_newline_loop.simps) (simp add: Let_def)
    qed
  next
    case rest
    then have "CHR 0x0A \<notin> set (payload @ st_data r)" using "1.prems"(1) by simp
    then show ?thesis using rest
      by (subst read_newline_loop.simps) (auto simp: newline_spec_def Let_def)
  qed
qed

text \<open>
  The size of the read buffer does not show in newline framing.  For every buffer size,
  \<^verbatim>\<open>readNewline\<close> returns what its specification says: the bytes up to the first newline (or
  up to the end of the connection, if there are any) without the line end, the rest of the
  stream untouched; an error for a line longer than the limit, its newline included; or the
  error of the connection.
\<close>

theorem read_newline_spec:
  "0 \<le> max_bytes \<Longrightarrow> read_newline bufsize max_bytes r = newline_spec max_bytes r"
  using read_newline_loop_spec [of "[]" max_bytes "max 16 bufsize - 1" r] by (simp add: read_newline_def)

section \<open>Octet counting\<close>

lemma read_count_digits:
  assumes "list_all is_digit ds" and "length digits + length ds \<le> 10"
  shows "read_count digits (r\<lparr>st_data := ds @ CHR '' '' # s\<rparr>) = Inr (digits @ ds, r\<lparr>st_data := s\<rparr>)"
  using assms
proof (induction ds arbitrary: digits)
  case Nil
  then show ?case by (subst read_count.simps) (simp add: read_byte_def)
next
  case (Cons d ds)
  then have "d \<noteq> CHR '' ''" by auto
  then show ?case using Cons by (subst read_count.simps) (simp add: read_byte_def)
qed

definition octet_frame :: "bytes \<Rightarrow> bytes" where
  "octet_frame m = dec_digits (int (length m)) @ '' '' @ m"

definition line_frame :: "bytes \<Rightarrow> bytes" where
  "line_frame m = m @ [CHR 0x0A]"

lemma read_octet_counted_frame:
  assumes "int (length m) \<le> max_bytes" and "int (length m) < 10 ^ 10"
  shows "read_octet_counted max_bytes (r\<lparr>st_data := octet_frame m @ s\<rparr>) = Inr (m, r\<lparr>st_data := s\<rparr>)"
proof -
  let ?ds = "dec_digits (int (length m))"
  have "list_all is_digit ?ds" "length ?ds \<le> 10"
    using assms(2) dec_digits_length [of "int (length m)" 10] by (simp_all add: dec_digits_is_digit)
  then have "read_count [] (r\<lparr>st_data := ?ds @ CHR '' '' # (m @ s)\<rparr>) = Inr (?ds, r\<lparr>st_data := m @ s\<rparr>)"
    using read_count_digits [where ds = ?ds and digits = "[]" and r = r and s = "m @ s"] by simp
  moreover have "atoi ?ds = Some (int (length m))" using assms(2) by (simp add: atoi_dec_digits)
  ultimately show ?thesis
    using assms(1) by (simp add: read_octet_counted_def octet_frame_def read_full_def)
qed

lemma looks_from_digits:
  assumes "list_all is_digit ds" and "st_data r = ps @ ds @ CHR '' '' # s" and "i = Suc (length ps)"
    and "length ds < k"
  shows "looks_from k i r = Inr (ps @ ds \<noteq> [])"
  using assms
proof (induction k arbitrary: ds ps i)
  case (Suc k)
  show ?case
  proof (cases ds)
    case Nil
    then show ?thesis using Suc.prems by (simp add: peek_bytes_def nth_append)
  next
    case (Cons d ds')
    then have d: "is_digit d" "d \<noteq> CHR '' ''" using Suc.prems(1) by auto
    have "looks_from k (i + 1) r = Inr ((ps @ [d]) @ ds' \<noteq> [])"
      using Suc.prems Cons by (intro Suc.IH) simp_all
    then show ?thesis using d Suc.prems(2,3) Cons by (simp add: peek_bytes_def nth_append)
  qed
qed simp

lemma looks_octet_frame:
  assumes "int (length m) < 10 ^ 9"
  shows "looks_octet_counted (r\<lparr>st_data := octet_frame m @ s\<rparr>) = Inr True"
proof -
  let ?ds = "dec_digits (int (length m))"
  have "list_all is_digit ?ds" "length ?ds \<le> 9"
    using assms dec_digits_length [of "int (length m)" 9] by (simp_all add: dec_digits_is_digit)
  then show ?thesis
    unfolding looks_octet_counted_def
    by (subst looks_from_digits [of ?ds _ "[]" "m @ s"]) (simp_all add: octet_frame_def)
qed

lemma looks_line:
  assumes "s \<noteq> []" and "\<not> is_digit (hd s)"
  shows "looks_octet_counted (r\<lparr>st_data := s\<rparr>) = Inr False"
  using assms by (cases s) (simp_all add: looks_octet_counted_def numeral_eq_Suc peek_bytes_def Suc_le_eq)

text \<open>
  The message limit counts the line end.  A line that is exactly as long as the limit is
  refused as too large because of its newline, while the same message is accepted when it
  is sent with an octet count.
\<close>

theorem newline_counts_against_limit:
  assumes "max_bytes = int (length m)" and "max_bytes < 10 ^ 10" and "CHR 0x0A \<notin> set m"
  shows "read_newline bufsize max_bytes (r\<lparr>st_data := line_frame m @ s\<rparr>) = Inl ErrFrameTooLarge
         \<and> read_octet_counted max_bytes (r\<lparr>st_data := octet_frame m @ s\<rparr>) = Inr (m, r\<lparr>st_data := s\<rparr>)"
proof
  have "index_byte (CHR 0x0A) (m @ CHR 0x0A # s) = Some (length m)"
    using assms(3) by (rule index_byte_append)
  then have "newline_spec max_bytes (r\<lparr>st_data := line_frame m @ s\<rparr>) = Inl ErrFrameTooLarge"
    by (simp add: newline_spec_def line_frame_def assms(1))
  then show "read_newline bufsize max_bytes (r\<lparr>st_data := line_frame m @ s\<rparr>) = Inl ErrFrameTooLarge"
    using read_newline_loop_spec [of "[]" max_bytes] assms(1) by (simp add: read_newline_def)
  show "read_octet_counted max_bytes (r\<lparr>st_data := octet_frame m @ s\<rparr>) = Inr (m, r\<lparr>st_data := s\<rparr>)"
    using assms by (intro read_octet_counted_frame) simp_all
qed

section \<open>Frames\<close>

lemma newline_spec_bounds:
  assumes "newline_spec max_bytes r = Inr (p, r')"
  shows "int (length p) \<le> max_bytes" and "length (st_data r') < length (st_data r)"
    and "st_end r' = st_end r"
proof -
  have trim: "length (bytes_trim_line b) \<le> length b" for b
    by (simp add: bytes_trim_line_def trim_suffix_def)
  obtain b where b: "p = bytes_trim_line b" "int (length b) \<le> max_bytes" "b \<noteq> []"
    "length (st_data r') + length b = length (st_data r)" "st_end r' = st_end r"
  proof (cases "index_byte (CHR 0x0A) (st_data r)")
    case None
    then show ?thesis using assms by (intro that [of "st_data r"]) (auto simp: newline_spec_def split: if_splits)
  next
    case (Some i)
    then show ?thesis
      using assms index_byte_SomeD [OF Some]
      by (intro that [of "take (Suc i) (st_data r)"]) (auto simp: newline_spec_def split: if_splits)
  qed
  then show "int (length p) \<le> max_bytes" "st_end r' = st_end r" using trim [of b] by simp_all
  show "length (st_data r') < length (st_data r)" using b by (cases b) simp_all
qed

lemma read_count_shorter:
  "read_count digits r = Inr (ds, r') \<Longrightarrow> length digits \<le> 10 \<Longrightarrow>
   length (st_data r') < length (st_data r) \<and> st_end r' = st_end r"
proof (induction digits r rule: read_count.induct)
  case (1 digits r)
  then obtain b s where s: "st_data r = b # s"
    by (subst (asm) (2) read_count.simps) (auto simp: read_byte_def split: list.splits)
  show ?case
  proof (cases "b = CHR '' ''")
    case True
    then show ?thesis using "1.prems" s by (subst (asm) read_count.simps) (auto simp: read_byte_def)
  next
    case False
    then have rec: "read_count (digits @ [b]) (r\<lparr>st_data := s\<rparr>) = Inr (ds, r')" and "is_digit b"
      using "1.prems" s by (subst (asm) read_count.simps, auto simp: read_byte_def split: if_splits)+
    show ?thesis
    proof (cases "length digits = 10")
      case True
      then show ?thesis using rec s by (subst (asm) read_count.simps) auto
    next
      case l: False
      have "read_byte r = Inr (b, r\<lparr>st_data := s\<rparr>)" using s by (simp add: read_byte_def)
      from "1.IH" [OF "1.prems"(2) this refl False] \<open>is_digit b\<close> rec l "1.prems"(2) show ?thesis
        by (simp add: s)
    qed
  qed
qed

lemma read_octet_counted_bounds:
  assumes "read_octet_counted max_bytes r = Inr (p, r')"
  shows "int (length p) \<le> max_bytes" and "length (st_data r') < length (st_data r)"
    and "st_end r' = st_end r"
proof -
  obtain ds r1 n where c: "read_count [] r = Inr (ds, r1)" and "atoi ds = Some n" and n: "0 \<le> n" "n \<le> max_bytes"
    and f: "read_full r1 (nat n) = Inr (p, r')"
    using assms by (auto simp: read_octet_counted_def result_bind_Inr_iff split: option.splits if_splits)
  have "length p = nat n" "length (st_data r') \<le> length (st_data r1)" "st_end r' = st_end r1"
    using f by (auto simp: read_full_def split: if_splits)
  then show "int (length p) \<le> max_bytes" "length (st_data r') < length (st_data r)" "st_end r' = st_end r"
    using n read_count_shorter [OF c] by auto
qed

lemma read_newline_negative: "max_bytes < 0 \<Longrightarrow> read_newline bufsize max_bytes r = Inl ErrFrameTooLarge"
  unfolding read_newline_def by (subst read_newline_loop.simps) (simp add: Let_def split: prod.split)

lemma read_frame_bounds:
  assumes "read_frame bufsize framing max_bytes r = Inr (p, r')"
  shows "int (length p) \<le> max_bytes" and "length (st_data r') < length (st_data r)"
    and "st_end r' = st_end r"
proof -
  have "read_octet_counted max_bytes r = Inr (p, r') \<or> newline_spec max_bytes r = Inr (p, r')"
  proof (cases "max_bytes < 0")
    case True
    then show ?thesis
      using assms by (auto simp: read_frame_def result_bind_Inr_iff read_newline_negative split: if_splits)
  next
    case False
    then show ?thesis
      using assms read_newline_loop_spec [of "[]" max_bytes "max 16 bufsize - 1" r]
      by (auto simp: read_frame_def result_bind_Inr_iff read_newline_def split: if_splits)
  qed
  then show "int (length p) \<le> max_bytes" "length (st_data r') < length (st_data r)" "st_end r' = st_end r"
    using read_octet_counted_bounds [of max_bytes r p r'] newline_spec_bounds [of max_bytes r p r'] by fast+
qed

section \<open>Witnesses\<close>

theorem read_newline_spec_witness:
  "read_newline 16 100 \<lparr>st_data = ''<13>hello world, a longer line'' @ [CHR 0x0D, CHR 0x0A] @ ''next'', st_end = Io_EOF\<rparr>
     = Inr (''<13>hello world, a longer line'', \<lparr>st_data = ''next'', st_end = Io_EOF\<rparr>)"
proof -
  have "newline_spec 100 \<lparr>st_data = ''<13>hello world, a longer line'' @ [CHR 0x0D, CHR 0x0A] @ ''next'', st_end = Io_EOF\<rparr>
     = Inr (''<13>hello world, a longer line'', \<lparr>st_data = ''next'', st_end = Io_EOF\<rparr>)"
    by code_simp
  then show ?thesis by (subst read_newline_spec) simp_all
qed

theorem newline_counts_against_limit_witness:
  "read_newline 16 5 \<lparr>st_data = line_frame ''<1>hi'' @ ''x'', st_end = Io_EOF\<rparr> = Inl ErrFrameTooLarge
   \<and> read_octet_counted 5 \<lparr>st_data = octet_frame ''<1>hi'' @ ''x'', st_end = Io_EOF\<rparr>
     = Inr (''<1>hi'', \<lparr>st_data = ''x'', st_end = Io_EOF\<rparr>)"
  using newline_counts_against_limit [of 5 "''<1>hi''" 16 "''x''" "\<lparr>st_data = [], st_end = Io_EOF\<rparr>"] by simp

end
