(* ===== verification/Frame_Queue.thy ===== *)
theory Frame_Queue
  imports Domain
begin

text \<open>
  \<^verbatim>\<open>backend/internal/ingestion/queue.go\<close>: the bounded queue between the listeners and the
  workers.  Every operation runs under the queue's mutex, so the model has one step per
  critical section; what a goroutine sees when it wakes up from \<^verbatim>\<open>select\<close> is an argument of
  the loops.  The channel \<^verbatim>\<open>changed\<close> that is closed and replaced on every notification is
  the number of notifications so far.  Byte counts are 64-bit and wrap around.

  The interface \<open>bounded_fifo\<close> states what the pipeline relies on; its interpretation shows
  that the queue keeps it.
\<close>

section \<open>Definitions\<close>

datatype queue_error = ErrQueueClosed | ErrQueueFull | Ctx_done

record queued_frame =
  qf_frame :: frame
  qf_bytes :: int

record frame_queue =
  q_items :: "queued_frame list"
  q_head :: nat
  q_bytes :: int
  q_max_events :: int
  q_max_bytes :: int
  q_closed :: bool
  q_changed :: nat

definition zero_frame :: frame where
  "zero_frame = \<lparr>fr_payload = [], fr_received_at = zero_time, fr_tenant_id = [], fr_source_id = [],
     fr_source_name = [], fr_protocol = [], fr_source_ip = [], fr_source_port = 0\<rparr>"

definition zero_queued :: queued_frame where
  "zero_queued = \<lparr>qf_frame = zero_frame, qf_bytes = 0\<rparr>"

definition new_frame_queue :: "int \<Rightarrow> int \<Rightarrow> frame_queue" where
  "new_frame_queue max_events max_bytes =
     \<lparr>q_items = [], q_head = 0, q_bytes = 0, q_max_events = max_events, q_max_bytes = max_bytes,
      q_closed = False, q_changed = 0\<rparr>"

definition notify_locked :: "frame_queue \<Rightarrow> frame_queue" where
  "notify_locked q = q\<lparr>q_changed := Suc (q_changed q)\<rparr>"

definition frame_size :: "frame \<Rightarrow> int" where
  "frame_size frm = int (length (fr_payload frm))"

text \<open>One critical section of \<^verbatim>\<open>enqueue\<close>; waiting goes on to \<^verbatim>\<open>select\<close>.\<close>

datatype 'a attempt = Returns 'a | Waits

definition enqueue_step :: "frame_queue \<Rightarrow> frame \<Rightarrow> (queue_error + frame_queue) attempt" where
  "enqueue_step q frm =
     (if q_closed q then Returns (Inl ErrQueueClosed)
      else if int (length (q_items q)) - int (q_head q) < q_max_events q
              \<and> wrap64 (q_bytes q + frame_size frm) \<le> q_max_bytes q
      then Returns (Inr (notify_locked (q\<lparr>
             q_items := q_items q @ [\<lparr>qf_frame = frm, qf_bytes = frame_size frm\<rparr>],
             q_bytes := wrap64 (q_bytes q + frame_size frm)\<rparr>)))
      else Waits)"

text \<open>
  How a \<^verbatim>\<open>select\<close> ends: the context is done, the timer fires, or the queue changed and the
  goroutine finds it in a new state.
\<close>

datatype wake = Wake_ctx | Wake_timer | Wake_changed frame_queue

text \<open>
  The loop of \<^verbatim>\<open>enqueue\<close>, fed with the wake-ups it gets: the queue it leaves and what it
  returns; \<^term>\<open>Waits\<close> if it is still waiting after them.
\<close>

fun enqueue_loop ::
  "frame_queue \<Rightarrow> frame \<Rightarrow> wake list \<Rightarrow> frame_queue \<times> (queue_error + unit) attempt" where
  "enqueue_loop q frm ws =
     (case enqueue_step q frm of
        Returns (Inl e) \<Rightarrow> (q, Returns (Inl e))
      | Returns (Inr q') \<Rightarrow> (q', Returns (Inr ()))
      | Waits \<Rightarrow>
          (case ws of
             [] \<Rightarrow> (q, Waits)
           | Wake_ctx # _ \<Rightarrow> (q, Returns (Inl Ctx_done))
           | Wake_timer # _ \<Rightarrow> (q, Returns (Inl ErrQueueFull))
           | Wake_changed q' # ws' \<Rightarrow> enqueue_loop q' frm ws'))"

definition enqueue ::
  "frame_queue \<Rightarrow> frame \<Rightarrow> wake list \<Rightarrow> frame_queue \<times> (queue_error + unit) attempt" where
  "enqueue q frm ws =
     (if q_max_bytes q < frame_size frm then (q, Returns (Inl ErrQueueFull))
      else enqueue_loop q frm ws)"

text \<open>One critical section of \<^verbatim>\<open>dequeue\<close>, with the compaction of the backing array.\<close>

definition dequeue_step ::
  "frame_queue \<Rightarrow> (queue_error + (queued_frame \<times> frame_queue)) attempt" where
  "dequeue_step q =
     (if q_head q < length (q_items q) then
        (let item = q_items q ! q_head q;
             items = (q_items q)[q_head q := zero_queued];
             head = q_head q + 1;
             q1 = q\<lparr>q_items := items, q_head := head, q_bytes := wrap64 (q_bytes q - qf_bytes item)\<rparr>;
             q2 = (if 1024 < head \<and> length items \<le> head * 2
                   then q1\<lparr>q_items := drop head items, q_head := 0\<rparr> else q1)
         in Returns (Inr (item, notify_locked q2)))
      else if q_closed q then Returns (Inl ErrQueueClosed)
      else Waits)"

fun dequeue_loop ::
  "frame_queue \<Rightarrow> wake list \<Rightarrow> frame_queue \<times> (queue_error + queued_frame) attempt" where
  "dequeue_loop q ws =
     (case dequeue_step q of
        Returns (Inl e) \<Rightarrow> (q, Returns (Inl e))
      | Returns (Inr (item, q')) \<Rightarrow> (q', Returns (Inr item))
      | Waits \<Rightarrow>
          (case ws of
             Wake_changed q' # ws' \<Rightarrow> dequeue_loop q' ws'
           | Wake_ctx # _ \<Rightarrow> (q, Returns (Inl Ctx_done))
           | _ \<Rightarrow> (q, Waits)))"

definition close_queue :: "frame_queue \<Rightarrow> frame_queue" where
  "close_queue q = (if q_closed q then q else notify_locked (q\<lparr>q_closed := True\<rparr>))"

definition usage :: "frame_queue \<Rightarrow> int \<times> int" where
  "usage q = (int (length (q_items q)) - int (q_head q), q_bytes q)"

section \<open>The invariant\<close>

text \<open>The frames in the queue, oldest first.\<close>

definition queued :: "frame_queue \<Rightarrow> frame list" where
  "queued q = map qf_frame (drop (q_head q) (q_items q))"

definition total_size :: "frame list \<Rightarrow> int" where
  "total_size fs = sum_list (map frame_size fs)"

definition queue_inv :: "frame_queue \<Rightarrow> bool" where
  "queue_inv q \<longleftrightarrow>
     q_head q \<le> length (q_items q)
     \<and> q_bytes q = total_size (queued q)
     \<and> list_all (\<lambda>x. qf_bytes x = frame_size (qf_frame x)) (drop (q_head q) (q_items q))
     \<and> list_all (\<lambda>x. x = zero_queued) (take (q_head q) (q_items q))
     \<and> q_bytes q \<le> q_max_bytes q \<and> int (length (queued q)) \<le> q_max_events q
     \<and> (q_head q \<le> 1024 \<or> 2 * q_head q < length (q_items q))
     \<and> q_max_bytes q < 2 ^ 62"

lemma length_queued: "length (queued q) = length (q_items q) - q_head q"
  by (simp add: queued_def)

lemma frame_size_nonneg [simp]: "0 \<le> frame_size frm"
  by (simp add: frame_size_def)

lemma total_size_nonneg [simp]: "0 \<le> total_size fs"
  by (auto simp: total_size_def intro!: sum_list_nonneg)

lemma total_size_simps [simp]:
  "total_size [] = 0" "total_size (f # fs) = frame_size f + total_size fs"
  "total_size (fs @ gs) = total_size fs + total_size gs"
  by (simp_all add: total_size_def)

lemma queued_notify [simp]: "queued (notify_locked q) = queued q"
  by (simp add: queued_def notify_locked_def)

lemma queue_inv_notify [simp]: "queue_inv (notify_locked q) = queue_inv q"
  by (simp add: queue_inv_def queued_def notify_locked_def)

lemma queue_inv_new: "0 \<le> ne \<Longrightarrow> 0 \<le> nb \<Longrightarrow> nb < 2 ^ 62 \<Longrightarrow> queue_inv (new_frame_queue ne nb)"
  by (simp add: queue_inv_def new_frame_queue_def queued_def)

lemma wrap64_small: "0 \<le> a \<Longrightarrow> a < 2 ^ 63 \<Longrightarrow> wrap64 a = a"
  by (simp add: int64_range_def)

declare enqueue_loop.simps [simp del] dequeue_loop.simps [simp del]

subsection \<open>What a step does\<close>

lemma enqueue_step_Returns:
  assumes "queue_inv q" and "frame_size frm \<le> q_max_bytes q"
    and "enqueue_step q frm = Returns (Inr q')"
  shows "queue_inv q'" and "queued q' = queued q @ [frm]" and "\<not> q_closed q" and "\<not> q_closed q'"
    and "q_max_events q' = q_max_events q" and "q_max_bytes q' = q_max_bytes q"
    and "q_changed q' = Suc (q_changed q)"
proof -
  let ?i = "\<lparr>qf_frame = frm, qf_bytes = frame_size frm\<rparr>"
  let ?q = "q\<lparr>q_items := q_items q @ [?i], q_bytes := wrap64 (q_bytes q + frame_size frm)\<rparr>"
  have q': "q' = notify_locked ?q" and g: "\<not> q_closed q"
    "int (length (q_items q)) - int (q_head q) < q_max_events q"
    "wrap64 (q_bytes q + frame_size frm) \<le> q_max_bytes q"
    using assms(3) by (auto simp: enqueue_step_def split: if_splits)
  have w: "wrap64 (q_bytes q + frame_size frm) = q_bytes q + frame_size frm"
    using assms(1,2) by (intro wrap64_small) (auto simp: queue_inv_def)
  have qd: "queued ?q = queued q @ [frm]"
    using assms(1) by (simp add: queued_def queue_inv_def)
  have "queue_inv ?q"
    unfolding queue_inv_def qd using assms(1) g w
    by (auto simp: queue_inv_def length_queued)
  then show "queue_inv q'" "queued q' = queued q @ [frm]" by (simp_all add: q' qd)
  show "\<not> q_closed q" "\<not> q_closed q'" "q_max_events q' = q_max_events q"
    "q_max_bytes q' = q_max_bytes q" "q_changed q' = Suc (q_changed q)"
    using g(1) by (simp_all add: q' notify_locked_def)
qed

lemma dequeue_step_Returns:
  assumes "queue_inv q" and "dequeue_step q = Returns (Inr (item, q'))"
  shows "queue_inv q'" and "queued q = qf_frame item # queued q'"
    and "qf_bytes item = frame_size (qf_frame item)" and "q_closed q' = q_closed q"
    and "q_max_events q' = q_max_events q" and "q_max_bytes q' = q_max_bytes q"
    and "q_changed q' = Suc (q_changed q)"
proof -
  define items head where "items = (q_items q)[q_head q := zero_queued]" and "head = Suc (q_head q)"
  define q1 where "q1 = q\<lparr>q_items := items, q_head := head, q_bytes := wrap64 (q_bytes q - qf_bytes item)\<rparr>"
  define q2 where "q2 = (if 1024 < head \<and> length items \<le> head * 2
                         then q1\<lparr>q_items := drop head items, q_head := 0\<rparr> else q1)"
  define rest where "rest = drop head (q_items q)"
  have lt: "q_head q < length (q_items q)" and item: "item = q_items q ! q_head q"
    and q': "q' = notify_locked q2"
    using assms(2)
    by (auto simp: dequeue_step_def Let_def items_def head_def q1_def q2_def split: if_splits)
  have dr: "drop (q_head q) (q_items q) = item # rest" "drop head items = rest" "head \<le> length items"
    using lt by (simp_all add: item rest_def head_def items_def Cons_nth_drop_Suc)
  have qd: "queued q = qf_frame item # map qf_frame rest" by (simp add: queued_def dr)
  have sz: "qf_bytes item = frame_size (qf_frame item)"
    and oks: "list_all (\<lambda>x. qf_bytes x = frame_size (qf_frame x)) rest"
    and z: "list_all (\<lambda>x. x = zero_queued) (take (q_head q) (q_items q))"
    using assms(1) by (simp_all add: queue_inv_def dr)
  have tk: "take head items = take (q_head q) (q_items q) @ [zero_queued]"
    using lt by (simp add: head_def items_def take_Suc_conv_app_nth)
  have bs: "q_bytes q = frame_size (qf_frame item) + total_size (map qf_frame rest)"
    "q_bytes q \<le> q_max_bytes q" "q_max_bytes q < 2 ^ 62" "int (length rest) < q_max_events q"
    using assms(1) by (simp_all add: queue_inv_def qd)
  have w: "wrap64 (q_bytes q - qf_bytes item) = total_size (map qf_frame rest)"
  proof -
    have "(2 :: int) ^ 62 < 2 ^ 63" by simp
    then have "total_size (map qf_frame rest) < 2 ^ 63"
      using bs frame_size_nonneg [of "qf_frame item"] by linarith
    then show ?thesis using bs sz by (simp add: wrap64_small)
  qed
  have ln: "int (length items) - int head = int (length rest)"
    unfolding dr(2) [symmetric] using dr(3) by simp
  have le: "total_size (map qf_frame rest) \<le> q_max_bytes q"
    using bs(1,2) frame_size_nonneg [of "qf_frame item"] by linarith
  have "queue_inv q2 \<and> queued q2 = map qf_frame rest"
  proof (cases "1024 < head \<and> length items \<le> head * 2")
    case True
    then show ?thesis
      using bs(3,4) le oks
      by (simp add: q2_def q1_def queue_inv_def queued_def dr w)
  next
    case False
    then show ?thesis
      using bs(3,4) le oks dr(3) tk z ln
      by (auto simp: q2_def q1_def queue_inv_def queued_def dr w)
  qed
  then show "queue_inv q'" "queued q = qf_frame item # queued q'" by (simp_all add: q' qd)
  show "qf_bytes item = frame_size (qf_frame item)" by (rule sz)
  show "q_closed q' = q_closed q" "q_max_events q' = q_max_events q" "q_max_bytes q' = q_max_bytes q"
    "q_changed q' = Suc (q_changed q)"
    by (simp_all add: q' notify_locked_def q2_def q1_def)
qed

lemma dequeue_step_cases:
  assumes "queue_inv q"
  shows "dequeue_step q = Waits \<longleftrightarrow> queued q = [] \<and> \<not> q_closed q"
    and "dequeue_step q = Returns (Inl e) \<longleftrightarrow> queued q = [] \<and> q_closed q \<and> e = ErrQueueClosed"
  using assms by (auto simp: dequeue_step_def Let_def queue_inv_def queued_def)

lemma close_queue_simps [simp]:
  "queue_inv (close_queue q) = queue_inv q" "queued (close_queue q) = queued q" "q_closed (close_queue q)"
  by (simp_all add: close_queue_def queue_inv_def queued_def notify_locked_def)

section \<open>The interface\<close>

text \<open>Sequences of operations in the order in which they get the lock, with what went in and out.\<close>

datatype 'a queue_op = Put 'a | Get | Shut

fun run_ops ::
  "('q \<Rightarrow> 'a \<Rightarrow> 'q option) \<Rightarrow> ('q \<Rightarrow> ('a \<times> 'q) option) \<Rightarrow> ('q \<Rightarrow> 'q) \<Rightarrow> 'q \<Rightarrow> 'a queue_op list
     \<Rightarrow> 'a list \<times> 'a list \<times> 'q" where
  "run_ops put get shut q [] = ([], [], q)"
| "run_ops put get shut q (Put x # ops) =
     (case put q x of
        None \<Rightarrow> run_ops put get shut q ops
      | Some q1 \<Rightarrow> (let (a, r, q2) = run_ops put get shut q1 ops in (x # a, r, q2)))"
| "run_ops put get shut q (Get # ops) =
     (case get q of
        None \<Rightarrow> run_ops put get shut q ops
      | Some (x, q1) \<Rightarrow> (let (a, r, q2) = run_ops put get shut q1 ops in (a, x # r, q2)))"
| "run_ops put get shut q (Shut # ops) = run_ops put get shut (shut q) ops"

locale bounded_fifo =
  fixes inv :: "'q \<Rightarrow> bool" and contents :: "'q \<Rightarrow> 'a list" and is_shut :: "'q \<Rightarrow> bool"
    and put :: "'q \<Rightarrow> 'a \<Rightarrow> 'q option" and get :: "'q \<Rightarrow> ('a \<times> 'q) option" and shut :: "'q \<Rightarrow> 'q"
  assumes put_Some: "inv q \<Longrightarrow> put q x = Some q' \<Longrightarrow>
      inv q' \<and> contents q' = contents q @ [x] \<and> \<not> is_shut q \<and> \<not> is_shut q'"
    and get_Some: "inv q \<Longrightarrow> get q = Some (x, q') \<Longrightarrow>
      inv q' \<and> contents q = x # contents q' \<and> is_shut q' = is_shut q"
    and get_None: "inv q \<Longrightarrow> get q = None \<longleftrightarrow> contents q = []"
    and shut_law: "inv q \<Longrightarrow> inv (shut q) \<and> contents (shut q) = contents q \<and> is_shut (shut q)"
begin

lemma run_fifo:
  "inv q \<Longrightarrow> run_ops put get shut q ops = (a, r, q') \<Longrightarrow> inv q' \<and> contents q @ a = r @ contents q'"
proof (induction ops arbitrary: q a r)
  case (Cons op ops)
  show ?case
  proof (cases op)
    case (Put x)
    show ?thesis
    proof (cases "put q x")
      case None
      then show ?thesis using Cons Put by simp
    next
      case (Some q1)
      then obtain a1 where "run_ops put get shut q1 ops = (a1, r, q')" "a = x # a1"
        using Cons.prems(2) Put by (auto split: prod.splits)
      then show ?thesis using Cons.IH [of q1] put_Some [OF Cons.prems(1) Some] by auto
    qed
  next
    case Get
    show ?thesis
    proof (cases "get q")
      case None
      then show ?thesis using Cons Get by simp
    next
      case (Some p)
      then obtain x q1 where p: "get q = Some (x, q1)" by (cases p) auto
      then obtain r1 where "run_ops put get shut q1 ops = (a, r1, q')" "r = x # r1"
        using Cons.prems(2) Get by (auto split: prod.splits)
      then show ?thesis using Cons.IH [of q1] get_Some [OF Cons.prems(1) p] by auto
    qed
  next
    case Shut
    then show ?thesis using Cons.IH [of "shut q"] Cons.prems shut_law [OF Cons.prems(1)] by simp
  qed
qed simp

lemma run_shut:
  assumes "inv q" and "is_shut q" and "run_ops put get shut q ops = (a, r, q')"
  shows "a = []"
  using assms
proof (induction ops arbitrary: q a r)
  case (Cons op ops)
  show ?case
  proof (cases op)
    case (Put x)
    have "put q x = None" using put_Some [of q x] Cons.prems(1,2) by (cases "put q x") auto
    then show ?thesis using Cons Put by simp
  next
    case Get
    then show ?thesis
      using Cons get_Some [OF Cons.prems(1)] by (auto split: option.splits prod.splits)
  next
    case Shut
    then show ?thesis using Cons shut_law [OF Cons.prems(1)] by auto
  qed
qed simp

lemma run_drain:
  "inv q \<Longrightarrow> n = length (contents q) \<Longrightarrow>
   \<exists>q'. run_ops put get shut q (replicate n Get) = ([], contents q, q') \<and> contents q' = []
        \<and> inv q' \<and> is_shut q' = is_shut q"
proof (induction n arbitrary: q)
  case (Suc n)
  then obtain x q1 where g: "get q = Some (x, q1)"
    using get_None [OF Suc.prems(1)] by (cases "get q") fastforce+
  then show ?case
    using Suc.IH [of q1] Suc.prems get_Some [OF Suc.prems(1) g] by fastforce
qed simp

end

text \<open>The queue's operations without waiting: what one call does that finds its turn.\<close>

definition try_enqueue :: "frame_queue \<Rightarrow> frame \<Rightarrow> frame_queue option" where
  "try_enqueue q frm =
     (case enqueue q frm [] of (q', Returns (Inr _)) \<Rightarrow> Some q' | _ \<Rightarrow> None)"

definition try_dequeue :: "frame_queue \<Rightarrow> (frame \<times> frame_queue) option" where
  "try_dequeue q =
     (case dequeue_loop q [] of (q', Returns (Inr item)) \<Rightarrow> Some (qf_frame item, q') | _ \<Rightarrow> None)"

lemma enqueue_loop_Nil:
  "enqueue_loop q frm [] =
     (case enqueue_step q frm of
        Returns (Inl e) \<Rightarrow> (q, Returns (Inl e))
      | Returns (Inr q') \<Rightarrow> (q', Returns (Inr ()))
      | Waits \<Rightarrow> (q, Waits))"
  by (subst enqueue_loop.simps) (simp split: attempt.split)

lemma dequeue_loop_Nil:
  "dequeue_loop q [] =
     (case dequeue_step q of
        Returns (Inl e) \<Rightarrow> (q, Returns (Inl e))
      | Returns (Inr (item, q')) \<Rightarrow> (q', Returns (Inr item))
      | Waits \<Rightarrow> (q, Waits))"
  by (subst dequeue_loop.simps) (simp split: attempt.split)

lemma attempt_cases:
  obtains (error) e where "r = Returns (Inl e)" | (result) v where "r = Returns (Inr v)" | (wait) "r = Waits"
proof (cases r)
  case (Returns x)
  then show thesis using error result by (cases x) simp_all
next
  case Waits
  then show thesis by (rule wait)
qed

lemma try_enqueue_Some:
  "try_enqueue q frm = Some q' \<longleftrightarrow>
     frame_size frm \<le> q_max_bytes q \<and> enqueue_step q frm = Returns (Inr q')"
  by (cases "enqueue_step q frm" rule: attempt_cases)
    (simp_all add: try_enqueue_def enqueue_def enqueue_loop_Nil)

lemma try_dequeue_Some:
  "try_dequeue q = Some (frm, q') \<longleftrightarrow> (\<exists>item. dequeue_step q = Returns (Inr (item, q')) \<and> frm = qf_frame item)"
  by (cases "dequeue_step q" rule: attempt_cases) (auto simp: try_dequeue_def dequeue_loop_Nil)

lemma try_dequeue_None: "queue_inv q \<Longrightarrow> try_dequeue q = None \<longleftrightarrow> queued q = []"
  using dequeue_step_cases [of q] dequeue_step_Returns(2) [of q]
  by (cases "dequeue_step q" rule: attempt_cases) (auto simp: try_dequeue_def dequeue_loop_Nil)

interpretation fq: bounded_fifo queue_inv queued q_closed try_enqueue try_dequeue close_queue
proof unfold_locales
  show "queue_inv q \<Longrightarrow> try_enqueue q frm = Some q' \<Longrightarrow>
      queue_inv q' \<and> queued q' = queued q @ [frm] \<and> \<not> q_closed q \<and> \<not> q_closed q'" for q frm q'
    using enqueue_step_Returns [of q frm q'] by (simp add: try_enqueue_Some)
  show "queue_inv q \<Longrightarrow> try_dequeue q = Some (frm, q') \<Longrightarrow>
      queue_inv q' \<and> queued q = frm # queued q' \<and> q_closed q' = q_closed q" for q frm q'
    unfolding try_dequeue_Some using dequeue_step_Returns [of q _ q'] by blast
qed (simp_all add: try_dequeue_None)

section \<open>Properties\<close>

abbreviation run_queue :: "frame_queue \<Rightarrow> frame queue_op list \<Rightarrow> frame list \<times> frame list \<times> frame_queue" where
  "run_queue \<equiv> run_ops try_enqueue try_dequeue close_queue"

lemma run_queue_limits:
  assumes "queue_inv q" and "run_queue q ops = (a, r, q')"
  shows "q_max_events q' = q_max_events q \<and> q_max_bytes q' = q_max_bytes q"
  using assms
proof (induction ops arbitrary: q a r)
  case (Cons op ops)
  show ?case
  proof (cases op)
    case (Put x)
    show ?thesis
    proof (cases "try_enqueue q x")
      case (Some q1)
      then have "frame_size x \<le> q_max_bytes q" "enqueue_step q x = Returns (Inr q1)"
        by (simp_all add: try_enqueue_Some)
      note q1 = enqueue_step_Returns [OF Cons.prems(1) this]
      show ?thesis using Cons.IH [OF q1(1)] Cons.prems(2) Some Put q1(5,6) by (auto split: prod.splits)
    qed (use Cons Put in auto)
  next
    case Get
    show ?thesis
    proof (cases "try_dequeue q")
      case (Some p)
      then obtain x q1 where p: "p = (x, q1)" by fastforce
      with Some obtain item where "dequeue_step q = Returns (Inr (item, q1))"
        by (auto simp: try_dequeue_Some)
      note q1 = dequeue_step_Returns [OF Cons.prems(1) this]
      show ?thesis using Cons.IH [OF q1(1)] Cons.prems(2) Some Get p q1(5,6) by (auto split: prod.splits)
    qed (use Cons Get in auto)
  next
    case Shut
    moreover have "q_max_events (close_queue q) = q_max_events q" "q_max_bytes (close_queue q) = q_max_bytes q"
      by (simp_all add: close_queue_def notify_locked_def)
    ultimately show ?thesis using Cons.IH [of "close_queue q"] Cons.prems by simp
  qed
qed simp

text \<open>
  C7: the queue is first in, first out.  For any sequence of enqueues, dequeues and closes
  on a queue in a good state, the frames taken out followed by the frames still in it are
  the frames that were in it followed by the accepted ones, in order: none is lost, copied
  or reordered, compaction of the backing array included.
\<close>

theorem queue_fifo:
  assumes "queue_inv q" and "run_queue q ops = (accepted, taken, q')"
  shows "queued q @ accepted = taken @ queued q'"
  using fq.run_fifo [OF assms] by blast

text \<open>
  C20: the queue keeps its limits.  However a new queue is used, the reported usage is the
  number and the exact byte total of the frames in it, neither passes its limit, no 64-bit
  sum wraps around, slots already taken out hold no payload, and the backing array never
  grows beyond twice the event limit (or the limit and 1024).
\<close>

theorem queue_limits:
  assumes "0 \<le> max_events" "0 \<le> max_bytes" "max_bytes < 2 ^ 62"
    and "run_queue (new_frame_queue max_events max_bytes) ops = (accepted, taken, q)"
  shows "usage q = (int (length (queued q)), total_size (queued q))
         \<and> int (length (queued q)) \<le> max_events \<and> total_size (queued q) \<le> max_bytes
         \<and> list_all (\<lambda>x. x = zero_queued) (take (q_head q) (q_items q))
         \<and> int (length (q_items q)) \<le> max_events + max 1024 max_events"
proof -
  have inv: "queue_inv q"
    using fq.run_fifo [OF queue_inv_new [OF assms(1-3)] assms(4)] by blast
  have lim: "q_max_events q = max_events \<and> q_max_bytes q = max_bytes"
    using run_queue_limits [OF queue_inv_new [OF assms(1-3)] assms(4)] by (simp add: new_frame_queue_def)
  have "int (length (queued q)) = int (length (q_items q)) - int (q_head q)"
    using inv by (simp add: queue_inv_def length_queued)
  then show ?thesis using inv lim by (auto simp: queue_inv_def usage_def)
qed

text \<open>
  Closing loses nothing.  A closed queue accepts no frame any more, hands out every frame
  that was in it, in order, and only then reports that it is closed.
\<close>

theorem close_drains:
  assumes "queue_inv q"
  shows "(\<forall>ops accepted taken q'. run_queue (close_queue q) ops = (accepted, taken, q') \<longrightarrow> accepted = [])
         \<and> (\<exists>q'. run_queue (close_queue q) (replicate (length (queued q)) Get) = ([], queued q, q')
               \<and> dequeue_step q' = Returns (Inl ErrQueueClosed))"
proof -
  have inv: "queue_inv (close_queue q)" using assms by simp
  then obtain q' where "run_queue (close_queue q) (replicate (length (queued q)) Get) = ([], queued q, q')"
    "queued q' = []" "queue_inv q'" "q_closed q'"
    using fq.run_drain [OF inv refl] by auto
  then show ?thesis
    using fq.run_shut [OF inv] by (auto simp: dequeue_step_cases)
qed

lemma run_queue_changed:
  assumes "queue_inv q" and "run_queue q ops = (a, r, q')"
  shows "q_changed q \<le> q_changed q' \<and> (q_changed q' = q_changed q \<longrightarrow> q' = q)"
  using assms
proof (induction ops arbitrary: q a r)
  case (Cons op ops)
  show ?case
  proof (cases op)
    case (Put x)
    show ?thesis
    proof (cases "try_enqueue q x")
      case (Some q1)
      then have "frame_size x \<le> q_max_bytes q" "enqueue_step q x = Returns (Inr q1)"
        by (simp_all add: try_enqueue_Some)
      note q1 = enqueue_step_Returns [OF Cons.prems(1) this]
      show ?thesis using Cons.IH [OF q1(1)] Cons.prems(2) Some Put q1(7) by (auto split: prod.splits)
    qed (use Cons Put in auto)
  next
    case Get
    show ?thesis
    proof (cases "try_dequeue q")
      case (Some p)
      then obtain x q1 where p: "p = (x, q1)" by fastforce
      with Some obtain item where "dequeue_step q = Returns (Inr (item, q1))"
        by (auto simp: try_dequeue_Some)
      note q1 = dequeue_step_Returns [OF Cons.prems(1) this]
      show ?thesis using Cons.IH [OF q1(1)] Cons.prems(2) Some Get p q1(7) by (auto split: prod.splits)
    qed (use Cons Get in auto)
  next
    case Shut
    have "q_changed (close_queue q) = Suc (q_changed q) \<or> close_queue q = q"
      by (simp add: close_queue_def notify_locked_def)
    then show ?thesis using Cons.IH [of "close_queue q"] Cons.prems Shut by auto
  qed
qed simp

text \<open>
  C37: no wake-up is lost.  A goroutine waits on the notification channel it saw under the
  lock; as long as no notification has replaced that channel, whatever operations were
  done in between have left the queue as it was, so waiting on is right.
\<close>

theorem no_lost_wakeup:
  assumes "queue_inv q" and "run_queue q ops = (accepted, taken, q')" and "q_changed q' = q_changed q"
  shows "q' = q"
  using run_queue_changed [OF assms(1,2)] assms(3) by blast

lemma enqueue_loop_observed:
  assumes "enqueue_loop q frm ws = (q', r)"
  shows "(Wake_ctx \<in> set ws \<or> Wake_timer \<in> set ws \<longrightarrow> r \<noteq> Waits)
    \<and> (\<exists>q0. (q0 = q \<or> Wake_changed q0 \<in> set ws)
         \<and> (case r of Returns (Inr _) \<Rightarrow> enqueue_step q0 frm = Returns (Inr q') | _ \<Rightarrow> q' = q0))"
  using assms
proof (induction q frm ws rule: enqueue_loop.induct)
  case (1 q frm ws)
  show ?case
  proof (cases "enqueue_step q frm" rule: attempt_cases)
    case wait
    show ?thesis
    proof (cases ws)
      case Nil
      then show ?thesis using "1.prems" wait by (auto simp: enqueue_loop_Nil)
    next
      case (Cons w ws')
      show ?thesis
      proof (cases w)
        case (Wake_changed q1)
        then have "enqueue_loop q1 frm ws' = (q', r)"
          using "1.prems" wait Cons by (subst (asm) enqueue_loop.simps) simp
        from "1.IH" [OF wait Cons Wake_changed this] show ?thesis
          using Cons Wake_changed by auto
      qed (use "1.prems" wait Cons in \<open>subst (asm) enqueue_loop.simps, force\<close>)+
    qed
  qed (use "1.prems" in \<open>subst (asm) enqueue_loop.simps, force\<close>)+
qed

text \<open>
  C38: an enqueue comes to an end and does what it reports.  Once its context is done or its
  timer has fired it returns; if it reports success, it has appended exactly its frame to
  the state in which it found the queue; if it reports an error (closed, full, context
  done), or if it is still waiting, it has changed nothing; and a frame larger than the
  byte limit is refused at once.
\<close>

theorem enqueue_outcome:
  assumes "enqueue q frm ws = (q', r)"
    and "\<forall>q0. q0 = q \<or> Wake_changed q0 \<in> set ws \<longrightarrow> queue_inv q0 \<and> q_max_bytes q0 = max_bytes"
  shows "(max_bytes < frame_size frm \<longrightarrow> r = Returns (Inl ErrQueueFull))
         \<and> (Wake_ctx \<in> set ws \<or> Wake_timer \<in> set ws \<longrightarrow> r \<noteq> Waits)
         \<and> (\<exists>q0. (q0 = q \<or> Wake_changed q0 \<in> set ws)
               \<and> (if r = Returns (Inr ()) then queue_inv q' \<and> queued q' = queued q0 @ [frm] else q' = q0))"
proof (cases "max_bytes < frame_size frm")
  case True
  then have "q' = q" "r = Returns (Inl ErrQueueFull)" using assms by (simp_all add: enqueue_def)
  then show ?thesis by auto
next
  case False
  then have loop: "enqueue_loop q frm ws = (q', r)" using assms by (simp add: enqueue_def)
  obtain q0 where q0: "q0 = q \<or> Wake_changed q0 \<in> set ws"
    "case r of Returns (Inr _) \<Rightarrow> enqueue_step q0 frm = Returns (Inr q') | _ \<Rightarrow> q' = q0"
    using enqueue_loop_observed [OF loop] by blast
  have "queue_inv q0 \<and> q_max_bytes q0 = max_bytes" using assms(2) q0(1) by blast
  then have "queue_inv q0" "frame_size frm \<le> q_max_bytes q0" using False by simp_all
  note app = enqueue_step_Returns(1,2) [OF this, of q']
  have "if r = Returns (Inr ()) then queue_inv q' \<and> queued q' = queued q0 @ [frm] else q' = q0"
    using q0(2) app by (cases r rule: attempt_cases) simp_all
  moreover have "Wake_ctx \<in> set ws \<or> Wake_timer \<in> set ws \<longrightarrow> r \<noteq> Waits"
    using enqueue_loop_observed [OF loop] by blast
  ultimately show ?thesis using q0(1) False by blast
qed

section \<open>Witnesses\<close>

definition sample_frame :: "bytes \<Rightarrow> frame" where
  "sample_frame payload = zero_frame\<lparr>fr_payload := payload\<rparr>"

lemma sample_run:
  "run_queue (new_frame_queue 2 10) [Put (sample_frame ''abc''), Put (sample_frame ''defg''),
      Put (sample_frame ''h''), Get]
   = ([sample_frame ''abc'', sample_frame ''defg''], [sample_frame ''abc''],
      \<lparr>q_items = [zero_queued, \<lparr>qf_frame = sample_frame ''defg'', qf_bytes = 4\<rparr>], q_head = 1,
       q_bytes = 4, q_max_events = 2, q_max_bytes = 10, q_closed = False, q_changed = 3\<rparr>)"
  by (simp add: try_enqueue_def try_dequeue_def enqueue_def enqueue_loop_Nil dequeue_loop_Nil
      enqueue_step_def dequeue_step_def new_frame_queue_def sample_frame_def frame_size_def
      notify_locked_def Let_def wrap64_small)

lemma sample_inv: "queue_inv (new_frame_queue 2 10)"
  by (simp add: queue_inv_new)

theorem queue_fifo_witness:
  "\<exists>q'. run_queue (new_frame_queue 2 10) [Put (sample_frame ''abc''), Put (sample_frame ''defg''),
      Put (sample_frame ''h''), Get] = ([sample_frame ''abc'', sample_frame ''defg''], [sample_frame ''abc''], q')
     \<and> [sample_frame ''abc'', sample_frame ''defg''] = [sample_frame ''abc''] @ queued q'"
  using queue_fifo [OF sample_inv sample_run] sample_run
  by (simp add: new_frame_queue_def queued_def)

theorem queue_limits_witness:
  "\<exists>q. run_queue (new_frame_queue 2 10) [Put (sample_frame ''abc''), Put (sample_frame ''defg''),
      Put (sample_frame ''h''), Get] = ([sample_frame ''abc'', sample_frame ''defg''], [sample_frame ''abc''], q)
     \<and> usage q = (1, 4) \<and> int (length (queued q)) \<le> 2"
  using queue_limits [OF _ _ _ sample_run] sample_run by (simp add: usage_def)

theorem close_drains_witness:
  "\<exists>q'. run_queue (close_queue (new_frame_queue 2 10)) [] = ([], [], q')
     \<and> dequeue_step q' = Returns (Inl ErrQueueClosed)"
  using close_drains [OF sample_inv] by (simp add: new_frame_queue_def queued_def)

theorem no_lost_wakeup_witness:
  "run_queue (new_frame_queue 0 10) [Put (sample_frame ''abc''), Get] = ([], [], new_frame_queue 0 10)"
proof -
  have "queue_inv (new_frame_queue 0 10)" by (simp add: queue_inv_new)
  moreover obtain a r q where run: "run_queue (new_frame_queue 0 10) [Put (sample_frame ''abc''), Get] = (a, r, q)"
    by (metis prod_cases3)
  moreover have ar: "a = [] \<and> r = [] \<and> q_changed q = q_changed (new_frame_queue 0 10)"
    using run by (auto simp: try_enqueue_def try_dequeue_def enqueue_def enqueue_loop_Nil dequeue_loop_Nil
        enqueue_step_def dequeue_step_def new_frame_queue_def sample_frame_def frame_size_def)
  ultimately have "q = new_frame_queue 0 10" using no_lost_wakeup by blast
  with run ar show ?thesis by simp
qed

theorem enqueue_outcome_witness:
  "\<exists>q' r. enqueue (new_frame_queue 0 10) (sample_frame ''abc'') [Wake_timer] = (q', r) \<and> r \<noteq> Waits
     \<and> q' = new_frame_queue 0 10"
proof -
  have inv: "queue_inv (new_frame_queue 0 10)" by (simp add: queue_inv_new)
  obtain q' r where e: "enqueue (new_frame_queue 0 10) (sample_frame ''abc'') [Wake_timer] = (q', r)"
    by fastforce
  then have "r = Returns (Inl ErrQueueFull)"
    by (simp add: enqueue_def enqueue_loop.simps enqueue_step_def new_frame_queue_def sample_frame_def
        frame_size_def)
  then show ?thesis
    using enqueue_outcome [OF e, of 10] inv e by (auto simp: new_frame_queue_def)
qed

end
