(* ===== verification/Manager.thy ===== *)
theory Manager
  imports Framing Frame_Queue
begin

text \<open>
  The listeners of \<^verbatim>\<open>backend/internal/transport/syslog/manager.go\<close>: starting and closing
  sources, and the UDP and TCP read loops; \<open>Connections\<close> has their goroutines.  Opening a
  listener, closing it, the clock and the peer's address are arguments.  The loops hand their
  frames to the pipeline through two operations, \<^verbatim>\<open>Submit\<close> and \<^verbatim>\<open>Reject\<close>, passed as functions
  on a pipeline state, so that the theory does not depend on what the pipeline does.
\<close>

section \<open>Definitions\<close>

definition make_frame :: "source_config \<Rightarrow> bytes \<Rightarrow> bytes \<Rightarrow> bytes \<Rightarrow> int \<Rightarrow> instant \<Rightarrow> frame" where
  "make_frame source protocol payload ip port now =
     \<lparr>fr_payload = payload, fr_received_at = now, fr_tenant_id = sc_tenant_id source,
      fr_source_id = sc_id source, fr_source_name = sc_name source, fr_protocol = protocol,
      fr_source_ip = ip, fr_source_port = word_of_int port\<rparr>"

text \<open>\<^verbatim>\<open>net.SplitHostPort\<close>; \<^term>\<open>None\<close> is its error.\<close>

definition split_host_port :: "bytes \<Rightarrow> (bytes \<times> bytes) option" where
  "split_host_port hp =
     (case last_index_byte (CHR '':'') hp of
        None \<Rightarrow> None
      | Some i \<Rightarrow>
          if hd hp = CHR ''['' then
            (case index_byte (CHR '']'') hp of
               None \<Rightarrow> None
             | Some e \<Rightarrow>
                 if e + 1 \<noteq> i then None
                 else if CHR ''['' \<in> set (drop 1 hp) \<or> CHR '']'' \<in> set (drop (e + 1) hp) then None
                 else Some (take (e - 1) (drop 1 hp), drop (i + 1) hp))
          else if CHR '':'' \<in> set (take i hp) then None
          else if CHR ''['' \<in> set hp \<or> CHR '']'' \<in> set hp then None
          else Some (take i hp, drop (i + 1) hp))"

text \<open>\<^verbatim>\<open>Atoi\<close> leaves zero behind on an error.\<close>

definition peer_address :: "bytes \<Rightarrow> bytes \<times> int" where
  "peer_address addr =
     (case split_host_port addr of
        None \<Rightarrow> (addr, 0)
      | Some (host, port) \<Rightarrow> (host, case atoi port of None \<Rightarrow> 0 | Some n \<Rightarrow> n))"

record 'p pipeline_ops =
  po_submit :: "'p \<Rightarrow> frame \<Rightarrow> 'p \<times> (queue_error + unit)"
  po_reject :: "'p \<Rightarrow> bytes \<Rightarrow> bytes \<Rightarrow> int \<Rightarrow> 'p"

text \<open>
  The read loop of one TCP connection, from its \<open>k\<close>-th turn on; the clock is read once per
  turn.
\<close>

definition tcp_buffer :: "source_config \<Rightarrow> nat" where
  "tcp_buffer source = nat (min (sc_max_message_bytes source + 1) (256 * 2 ^ 10))"

function handle_tcp ::
  "'p pipeline_ops \<Rightarrow> (nat \<Rightarrow> instant) \<Rightarrow> source_config \<Rightarrow> bytes \<Rightarrow> nat \<Rightarrow> stream \<Rightarrow> 'p \<Rightarrow> 'p" where
  "handle_tcp ops clock source addr k r p =
     (case read_frame (tcp_buffer source) (sc_framing source) (sc_max_message_bytes source) r of
        Inl e \<Rightarrow>
          (if e = Stream_error Io_EOF \<or> e = Stream_error Net_closed then p
           else if e = ErrFrameTooLarge then po_reject ops p ''syslog_tcp'' ''message_too_large'' 0
           else p)
      | Inr (payload, r') \<Rightarrow>
          if payload = [] then handle_tcp ops clock source addr (Suc k) r' p
          else
            (case po_submit ops p (make_frame source ''syslog_tcp'' payload
                    (fst (peer_address addr)) (snd (peer_address addr)) (clock k)) of
               (p', Inl _) \<Rightarrow> p'
             | (p', Inr _) \<Rightarrow> handle_tcp ops clock source addr (Suc k) r' p'))"
  by pat_completeness auto
termination
  by (relation "measure (\<lambda>(ops, clock, source, addr, k, r, p). length (st_data r))")
    (auto dest: read_frame_bounds(2))

declare handle_tcp.simps [simp del]

text \<open>
  The UDP loop over the datagrams that arrive before the socket is closed, each with its
  peer and the time.  The buffer is one byte longer than the limit, so that \<^verbatim>\<open>ReadFromUDP\<close>
  cuts a longer datagram to a length that is refused.
\<close>

fun handle_udp ::
  "'p pipeline_ops \<Rightarrow> source_config \<Rightarrow> (bytes \<times> bytes \<times> int \<times> instant) list \<Rightarrow> 'p \<Rightarrow> 'p" where
  "handle_udp ops source [] p = p"
| "handle_udp ops source ((datagram, ip, port, now) # rest) p =
     (let buffer = take (nat (sc_max_message_bytes source + 1)) datagram; n = int (length buffer) in
      if sc_max_message_bytes source < n
      then handle_udp ops source rest (po_reject ops p ''syslog_udp'' ''message_too_large'' n)
      else handle_udp ops source rest
             (fst (po_submit ops p (make_frame source ''syslog_udp'' buffer ip port now))))"

subsection \<open>Starting and closing\<close>

datatype start_error = Listen_failed bytes | Unsupported_protocol bytes

text \<open>
  The listeners and connections that are open, and those that \<^verbatim>\<open>Close\<close> has closed.  After
  \<^verbatim>\<open>acceptWG.Wait\<close> no further connection is tracked; a connection that is closed ends its read
  loop, which untracks it.
\<close>

record manager =
  mg_closers :: "bytes list"
  mg_shut :: "bytes list"
  mg_conns :: "nat list"
  mg_hung_up :: "nat list"

definition new_manager :: manager where
  "new_manager = \<lparr>mg_closers = [], mg_shut = [], mg_conns = [], mg_hung_up = []\<rparr>"

definition close_manager :: "manager \<Rightarrow> manager" where
  "close_manager m =
     m\<lparr>mg_closers := [], mg_shut := mg_shut m @ mg_closers m, mg_conns := [], mg_hung_up := mg_hung_up m @ mg_conns m\<rparr>"

definition start_source ::
  "(source_config \<Rightarrow> bool) \<Rightarrow> source_config \<Rightarrow> manager \<Rightarrow> start_error + manager" where
  "start_source listen s m =
     (if sc_protocol s = ''udp'' \<or> sc_protocol s = ''tcp''
      then if listen s then Inr (m\<lparr>mg_closers := mg_closers m @ [sc_id s]\<rparr>) else Inl (Listen_failed (sc_id s))
      else Inl (Unsupported_protocol (sc_protocol s)))"

fun start_manager ::
  "(source_config \<Rightarrow> bool) \<Rightarrow> source_config list \<Rightarrow> manager \<Rightarrow> manager \<times> start_error option" where
  "start_manager listen [] m = (m, None)"
| "start_manager listen (s # ss) m =
     (if \<not> sc_enabled s then start_manager listen ss m
      else
        (case start_source listen s m of
           Inl e \<Rightarrow> (close_manager m, Some e)
         | Inr m' \<Rightarrow> start_manager listen ss m'))"

section \<open>The read loops\<close>

text \<open>A pipeline that accepts everything and remembers it.\<close>

definition recorder :: "frame list pipeline_ops" where
  "recorder = \<lparr>po_submit = (\<lambda>p frm. (p @ [frm], Inr ())), po_reject = (\<lambda>p protocol reason n. p)\<rparr>"

text \<open>What a sender writes: a message with its octet count, or on a line of its own.\<close>

datatype wire_message = Octets bytes | Line bytes

fun wire_text :: "wire_message \<Rightarrow> bytes" where
  "wire_text (Octets m) = octet_frame m"
| "wire_text (Line m) = line_frame m"

fun wire_payload :: "wire_message \<Rightarrow> bytes" where
  "wire_payload (Octets m) = m"
| "wire_payload (Line m) = m"

fun wire_ok :: "int \<Rightarrow> wire_message \<Rightarrow> bool" where
  "wire_ok max_bytes (Octets m) \<longleftrightarrow> m \<noteq> [] \<and> int (length m) \<le> max_bytes \<and> int (length m) < 10 ^ 9"
| "wire_ok max_bytes (Line m) \<longleftrightarrow>
     m \<noteq> [] \<and> \<not> is_digit (hd m) \<and> CHR 0x0A \<notin> set m \<and> last m \<noteq> CHR 0x0D \<and> int (length m) < max_bytes"

lemma bytes_trim_line_frame: "m \<noteq> [] \<Longrightarrow> last m \<noteq> CHR 0x0D \<Longrightarrow> bytes_trim_line (m @ [CHR 0x0A]) = m"
  by (cases m rule: rev_cases)
    (auto simp: bytes_trim_line_def trim_suffix_append trim_suffix_def has_suffix_def)

lemma read_frame_wire:
  assumes "wire_ok max_bytes w"
  shows "read_frame bufsize ''auto'' max_bytes (r\<lparr>st_data := wire_text w @ s\<rparr>)
           = Inr (wire_payload w, r\<lparr>st_data := s\<rparr>)"
proof (cases w)
  case (Octets m)
  then show ?thesis
    using assms by (simp add: read_frame_def looks_octet_frame read_octet_counted_frame)
next
  case (Line m)
  have looks: "looks_octet_counted (r\<lparr>st_data := line_frame m @ s\<rparr>) = Inr False"
    using assms Line by (intro looks_line) (simp_all add: line_frame_def hd_append)
  have "index_byte (CHR 0x0A) (m @ CHR 0x0A # s) = Some (length m)"
    using assms Line by (intro index_byte_append) simp
  then have "newline_spec max_bytes (r\<lparr>st_data := line_frame m @ s\<rparr>) = Inr (m, r\<lparr>st_data := s\<rparr>)"
    using assms Line bytes_trim_line_frame [of m] by (simp add: newline_spec_def line_frame_def)
  moreover have "0 \<le> max_bytes" using assms Line by simp
  ultimately show ?thesis
    using looks Line read_newline_loop_spec [of "[]" max_bytes]
    by (simp add: read_frame_def read_newline_def)
qed

lemma read_frame_auto_end:
  "read_frame bufsize ''auto'' max_bytes (r\<lparr>st_data := []\<rparr>) = Inl (Stream_error (st_end r))"
  by (simp add: read_frame_def looks_octet_counted_def peek_bytes_def numeral_eq_Suc)

text \<open>
  C18: automatic framing recovers what was sent.  On a connection over which a sender writes
  messages, each with its octet count or on a line of its own as it likes (lines starting
  with no digit, as syslog messages do), the pipeline gets exactly these messages, in order
  and byte for byte, whatever way the connection ends.
\<close>

theorem tcp_roundtrip:
  assumes "sc_framing source = ''auto''" and "list_all (wire_ok (sc_max_message_bytes source)) ws"
    and "st_data r = concat (map wire_text ws)"
  shows "map fr_payload (handle_tcp recorder clock source addr k r p) = map fr_payload p @ map wire_payload ws"
  using assms(2,3)
proof (induction ws arbitrary: k r p)
  case Nil
  then have "r = r\<lparr>st_data := []\<rparr>" by simp
  then have "read_frame (tcp_buffer source) ''auto'' (sc_max_message_bytes source) r = Inl (Stream_error (st_end r))"
    using read_frame_auto_end by metis
  then show ?case using assms(1) by (subst handle_tcp.simps) (simp add: recorder_def)
next
  case (Cons w ws)
  let ?r = "r\<lparr>st_data := concat (map wire_text ws)\<rparr>"
  have "r = r\<lparr>st_data := wire_text w @ concat (map wire_text ws)\<rparr>" using Cons.prems(2) by simp
  then have "read_frame (tcp_buffer source) ''auto'' (sc_max_message_bytes source) r = Inr (wire_payload w, ?r)"
    using read_frame_wire [of "sc_max_message_bytes source" w] Cons.prems(1) by (metis list.pred_inject(2))
  moreover have "wire_payload w \<noteq> []" using Cons.prems(1) by (cases w) simp_all
  ultimately show ?case
    using assms(1) Cons.IH [of ?r] Cons.prems(1)
    by (subst handle_tcp.simps) (simp add: recorder_def make_frame_def)
qed

subsection \<open>What the loops need of the pipeline\<close>

text \<open>
  The interface: a pipeline state with an invariant that \<^verbatim>\<open>Submit\<close> of an acceptable frame and
  \<^verbatim>\<open>Reject\<close> keep.  Whatever a peer sends then keeps it too.
\<close>

definition frame_within :: "source_config \<Rightarrow> frame \<Rightarrow> bool" where
  "frame_within source frm \<longleftrightarrow> int (length (fr_payload frm)) \<le> sc_max_message_bytes source"

locale frame_sink =
  fixes ops :: "'p pipeline_ops" and sink_inv :: "'p \<Rightarrow> bool" and acceptable :: "frame \<Rightarrow> bool"
  assumes submit_keeps: "sink_inv p \<Longrightarrow> acceptable frm \<Longrightarrow> sink_inv (fst (po_submit ops p frm))"
    and reject_keeps: "sink_inv p \<Longrightarrow> sink_inv (po_reject ops p protocol reason n)"
begin

lemma tcp_keeps:
  assumes "\<And>frm. fr_payload frm \<noteq> [] \<Longrightarrow> frame_within source frm \<Longrightarrow> acceptable frm" and "sink_inv p"
  shows "sink_inv (handle_tcp ops clock source addr k r p)"
  using assms(2)
proof (induction "length (st_data r)" arbitrary: k r p rule: less_induct)
  case less
  show ?case
  proof (cases "read_frame (tcp_buffer source) (sc_framing source) (sc_max_message_bytes source) r")
    case (Inl e)
    then show ?thesis using less.prems reject_keeps by (subst handle_tcp.simps) simp
  next
    case (Inr v)
    then obtain payload r' where v: "read_frame (tcp_buffer source) (sc_framing source) (sc_max_message_bytes source) r
        = Inr (payload, r')" by (cases v) auto
    let ?frm = "make_frame source ''syslog_tcp'' payload (fst (peer_address addr)) (snd (peer_address addr)) (clock k)"
    note b = read_frame_bounds [OF v]
    have "payload \<noteq> [] \<Longrightarrow> acceptable ?frm" using assms(1) b(1) by (simp add: make_frame_def frame_within_def)
    then have sub: "payload \<noteq> [] \<Longrightarrow> sink_inv (fst (po_submit ops p ?frm))" using less.prems submit_keeps by blast
    obtain p' out where po: "po_submit ops p ?frm = (p', out)" by fastforce
    show ?thesis
      using less.hyps [OF b(2)] less.prems sub v po
      by (subst handle_tcp.simps) (cases out; simp)
  qed
qed

lemma udp_keeps:
  assumes "\<And>frm. frame_within source frm \<Longrightarrow> acceptable frm" and "sink_inv p"
  shows "sink_inv (handle_udp ops source ds p)"
  using assms(2)
proof (induction ds arbitrary: p)
  case (Cons d ds)
  obtain datagram ip port now where d: "d = (datagram, ip, port, now)" by (rule prod_cases4)
  define buffer where "buffer = take (nat (sc_max_message_bytes source + 1)) datagram"
  define frm where "frm = make_frame source ''syslog_udp'' buffer ip port now"
  have "\<not> sc_max_message_bytes source < int (length buffer) \<Longrightarrow> acceptable frm"
    using assms(1) by (simp add: frm_def make_frame_def frame_within_def)
  then show ?case
    using Cons submit_keeps [of p frm] reject_keeps [of p]
    by (simp add: d Let_def buffer_def [symmetric] frm_def [symmetric])
qed simp

end

text \<open>The recorder: it remembers only what it was given.\<close>

interpretation all_within: frame_sink recorder "list_all (frame_within source)" "frame_within source" for source
  by unfold_locales (simp_all add: recorder_def)

interpretation none_empty: frame_sink recorder "list_all (\<lambda>frm. fr_payload frm \<noteq> [] \<and> frame_within source frm)"
    "\<lambda>frm. fr_payload frm \<noteq> [] \<and> frame_within source frm" for source
  by unfold_locales (simp_all add: recorder_def)

text \<open>
  No oversized or empty frame reaches the pipeline.  Whatever bytes a peer sends over
  TCP, and whatever datagrams arrive over UDP, each submitted payload is within the
  source's limit, and over TCP none is empty.
\<close>

theorem submitted_within_limit:
  "list_all (\<lambda>f. fr_payload f \<noteq> [] \<and> int (length (fr_payload f)) \<le> sc_max_message_bytes source)
      (handle_tcp recorder clock source addr k r [])
   \<and> list_all (\<lambda>f. int (length (fr_payload f)) \<le> sc_max_message_bytes source)
       (handle_udp recorder source datagrams [])"
  using none_empty.tcp_keeps [of source source "[]" clock addr k r] all_within.udp_keeps [of source source "[]" datagrams]
  by (simp add: frame_within_def [abs_def])

section \<open>Starting\<close>

lemma start_source_Inr:
  "start_source listen s m = Inr m' \<Longrightarrow> m' = m\<lparr>mg_closers := mg_closers m @ [sc_id s]\<rparr>"
  by (simp add: start_source_def split: if_splits)

lemma start_manager_outcome:
  "start_manager listen ss m0 = (m, err) \<Longrightarrow> mg_shut m0 = [] \<Longrightarrow>
   (case err of
      None \<Rightarrow> mg_closers m = mg_closers m0 @ map sc_id (filter sc_enabled ss) \<and> mg_shut m = []
    | Some e \<Rightarrow> mg_closers m = [] \<and> (\<exists>n. mg_shut m = mg_closers m0 @ map sc_id (take n (filter sc_enabled ss))))"
proof (induction ss arbitrary: m0)
  case (Cons s ss)
  show ?case
  proof (cases "sc_enabled s")
    case True
    show ?thesis
    proof (cases "start_source listen s m0")
      case (Inl e)
      then show ?thesis using Cons.prems True by (auto simp: close_manager_def intro: exI [of _ 0])
    next
      case (Inr m1)
      note m1 = start_source_Inr [OF Inr]
      have "start_manager listen ss m1 = (m, err)" using Cons.prems True Inr by simp
      from Cons.IH [OF this] m1 True Cons.prems(2) show ?thesis
        by (cases err) (auto intro: exI [of _ "Suc n" for n])
    qed
  next
    case False
    then show ?thesis using Cons.IH [of m0] Cons.prems by (cases err) simp_all
  qed
qed (auto split: option.splits)

text \<open>
  Starting is all or nothing.  If \<^verbatim>\<open>Start\<close> succeeds, exactly the enabled sources are
  open, in order; if a source cannot be opened, every listener opened before it has been
  closed and none is open.
\<close>

theorem start_all_or_nothing:
  assumes "start_manager listen ss new_manager = (m, err)"
  shows "case err of
           None \<Rightarrow> mg_closers m = map sc_id (filter sc_enabled ss) \<and> mg_shut m = []
         | Some e \<Rightarrow> mg_closers m = [] \<and> (\<exists>n. mg_shut m = map sc_id (take n (filter sc_enabled ss)))"
  using start_manager_outcome [OF assms] by (cases err) (simp_all add: new_manager_def)

section \<open>Witnesses\<close>

definition sample_source :: source_config where
  "sample_source = \<lparr>sc_id = ''tcp'', sc_name = ''edge'', sc_protocol = ''tcp'', sc_address = '':514'', sc_parser = ''auto'',
     sc_enabled = True, sc_max_message_bytes = 64, sc_max_connections = 2, sc_framing = ''auto'',
     sc_tenant_id = ''default'', sc_timezone = ''UTC''\<rparr>"

theorem tcp_roundtrip_witness:
  "map fr_payload (handle_tcp recorder (\<lambda>k. int k) sample_source ''10.0.0.1:4000'' 0
      \<lparr>st_data = concat (map wire_text [Octets ''<13>a b'', Line ''<13>c'', Octets ''1 2'']), st_end = Io_EOF\<rparr> [])
   = [''<13>a b'', ''<13>c'', ''1 2'']"
proof -
  have "list_all (wire_ok (sc_max_message_bytes sample_source)) [Octets ''<13>a b'', Line ''<13>c'', Octets ''1 2'']"
    by code_simp
  moreover have "sc_framing sample_source = ''auto''" by (simp add: sample_source_def)
  ultimately show ?thesis
    using tcp_roundtrip [of sample_source "[Octets ''<13>a b'', Line ''<13>c'', Octets ''1 2'']"
        "\<lparr>st_data = concat (map wire_text [Octets ''<13>a b'', Line ''<13>c'', Octets ''1 2'']), st_end = Io_EOF\<rparr>"]
    by simp
qed

theorem start_all_or_nothing_witness:
  "\<exists>m. start_manager (\<lambda>s. True) [sample_source] new_manager = (m, None) \<and> mg_closers m = [''tcp'']"
proof -
  obtain m err where run: "start_manager (\<lambda>s. True) [sample_source] new_manager = (m, err)"
    by fastforce
  then have "err = None" by (auto simp: start_source_def sample_source_def)
  with start_all_or_nothing [OF run] run show ?thesis by (simp add: sample_source_def)
qed

end
