(* ===== verification/Parser.thy ===== *)
theory Parser
  imports Domain
begin

text \<open>
  The syslog parsers of \<^verbatim>\<open>backend/internal/parser/parser.go\<close>: detection of the format, the
  RFC 3164 and RFC 5424 parsers and the registry that dispatches to them.  Where the source
  moves an index through a string, the model passes the rest of the string; where it
  returns a wrapped \<^verbatim>\<open>ErrInvalid\<close>, the model returns the constructor for its message.

  The RFC 3164 regular expression is matched by a backtracking matcher with Go's
  leftmost-first preference.  It works on bytes where Go works on runes: every byte above
  0x7F is in the classes \<^verbatim>\<open>\S\<close> and \<^verbatim>\<open>.\<close>, and in no other class of the pattern, so the
  greedy runs end at the same places.
\<close>

section \<open>Definitions\<close>

datatype parse_error =
    Err_priority
  | Err_rfc3164_header
  | Err_timestamp
  | Err_rfc5424_header
  | Err_version
  | Err_structured_data
  | Err_sd_id
  | Err_sd_parameter
  | Err_sd_value
  | Err_sd_unterminated_value
  | Err_sd_unterminated
  | Not_registered bytes

record event =
  ev_timestamp :: instant
  ev_timestamp_inferred :: bool
  ev_message :: bytes
  ev_hostname :: bytes
  ev_facility :: "u8 option"
  ev_severity :: "u8 option"
  ev_priority :: "u8 option"
  ev_app_name :: bytes
  ev_process_id :: bytes
  ev_message_id :: bytes
  ev_format :: bytes
  ev_fields :: "field_map option"

type_synonym parser = "bytes \<Rightarrow> instant \<Rightarrow> location option \<Rightarrow> parse_error + event"

subsection \<open>The regular expression of RFC 3164\<close>

text \<open>A piece is a character class repeated between a least and a greatest number of times.\<close>

datatype piece = Rep "char \<Rightarrow> bool" nat "nat option"

text \<open>The first success of \<open>f n, f (n - 1), \<dots>, f lo\<close>: a greedy run gives back one by one.\<close>

fun first_success :: "(nat \<Rightarrow> 'a option) \<Rightarrow> nat \<Rightarrow> nat \<Rightarrow> 'a option" where
  "first_success f lo 0 = (if lo = 0 then f 0 else None)"
| "first_success f lo (Suc n) =
     (if Suc n < lo then None
      else case f (Suc n) of Some r \<Rightarrow> Some r | None \<Rightarrow> first_success f lo n)"

definition run_length :: "(char \<Rightarrow> bool) \<Rightarrow> nat option \<Rightarrow> bytes \<Rightarrow> nat" where
  "run_length cls hi s =
     (case hi of
        None \<Rightarrow> length (takeWhile cls s)
      | Some h \<Rightarrow> length (takeWhile cls (take h s)))"

text \<open>The lengths the pieces match, anchored at both ends; \<^term>\<open>None\<close> for no match.\<close>

primrec match_pieces :: "piece list \<Rightarrow> bytes \<Rightarrow> nat list option" where
  "match_pieces [] s = (if s = [] then Some [] else None)"
| "match_pieces (p # ps) s =
     (case p of Rep cls lo hi \<Rightarrow>
        first_success (\<lambda>n. map_option (Cons n) (match_pieces ps (drop n s))) lo
          (run_length cls hi s))"

fun split_lengths :: "nat list \<Rightarrow> bytes \<Rightarrow> bytes list" where
  "split_lengths [] s = []"
| "split_lengths (n # ns) s = take n s # split_lengths ns (drop n s)"

definition re_space :: "char \<Rightarrow> bool" where
  "re_space c \<longleftrightarrow> c \<in> {CHR 0x09, CHR 0x0A, CHR 0x0C, CHR 0x0D, CHR 0x20}"

definition lit :: "char \<Rightarrow> piece" where
  "lit c = Rep (\<lambda>x. x = c) 1 (Some 1)"

definition two_digits :: piece where
  "two_digits = Rep is_digit 2 (Some 2)"

definition rfc3164_pattern :: "piece list" where
  "rfc3164_pattern =
     [lit (CHR ''<''), Rep is_digit 1 (Some 3), lit (CHR ''>''),
      Rep is_upper 1 (Some 1), Rep is_lower 2 (Some 2),
      Rep re_space 1 None,
      Rep (\<lambda>c. c = CHR '' '' \<or> is_digit c) 1 (Some 1), Rep is_digit 0 (Some 1),
      Rep re_space 1 None,
      two_digits, lit (CHR '':''), two_digits, lit (CHR '':''), two_digits,
      Rep re_space 1 None,
      Rep (\<lambda>c. \<not> re_space c) 1 None,
      Rep re_space 0 None,
      Rep (\<lambda>c. c \<noteq> CHR 0x0A) 0 None]"

text \<open>The six submatches of \<^verbatim>\<open>FindStringSubmatch\<close>.\<close>

definition rfc3164_submatch ::
  "bytes \<Rightarrow> (bytes \<times> bytes \<times> bytes \<times> bytes \<times> bytes \<times> bytes) option" where
  "rfc3164_submatch s =
     map_option (\<lambda>ns. let c = split_lengths ns s in
        (c ! 1, c ! 3 @ c ! 4, c ! 6 @ c ! 7,
         c ! 9 @ c ! 10 @ c ! 11 @ c ! 12 @ c ! 13, c ! 15, c ! 17))
       (match_pieces rfc3164_pattern s)"

subsection \<open>Priority and detection\<close>

definition priority :: "bytes \<Rightarrow> parse_error + (u8 \<times> u8 \<times> u8)" where
  "priority value =
     (case atoi value of
        None \<Rightarrow> Inl Err_priority
      | Some n \<Rightarrow>
          if n < 0 \<or> 191 < n then Inl Err_priority
          else Inr (word_of_int n, word_of_int (n div 8), word_of_int (n mod 8)))"

definition detect :: "bytes \<Rightarrow> bytes" where
  "detect s =
     (case index_byte (CHR ''>'') s of
        None \<Rightarrow> ''unknown''
      | Some e \<Rightarrow>
          if length s < 4 \<or> hd s \<noteq> CHR ''<'' \<or> e < 2 \<or> 4 < e then ''unknown''
          else if atoi (take (e - 1) (drop 1 s)) = None then ''unknown''
          else
            (let rest = drop (e + 1) s in
             if 2 \<le> length rest \<and> byte_val (CHR ''1'') \<le> byte_val (hd rest)
                \<and> byte_val (hd rest) \<le> byte_val (CHR ''9'') \<and> rest ! 1 = CHR '' ''
             then ''rfc5424''
             else if rfc3164_submatch s \<noteq> None then ''rfc3164''
             else ''unknown''))"

subsection \<open>RFC 3164\<close>

fun nearest_loop ::
  "location \<Rightarrow> bytes \<Rightarrow> instant \<Rightarrow> int list \<Rightarrow> instant \<times> duration \<Rightarrow> instant option" where
  "nearest_loop loc value base [] (best, best_delta) = Some best"
| "nearest_loop loc value base (year # years) (best, best_delta) =
     (case parse_stamp_in loc (itoa year @ '' '' @ value) of
        None \<Rightarrow> None
      | Some t \<Rightarrow>
          (let d = time_sub t base; delta = (if d < 0 then wrap64 (- d) else d) in
           nearest_loop loc value base years
             (if delta < best_delta then (t, delta) else (best, best_delta))))"

definition nearest_rfc3164_time ::
  "bytes \<Rightarrow> bytes \<Rightarrow> bytes \<Rightarrow> instant \<Rightarrow> location option \<Rightarrow> instant option" where
  "nearest_rfc3164_time month day clock received loc =
     (let l = (case loc of None \<Rightarrow> utc | Some l \<Rightarrow> l);
          y = year_in l received;
          value = month @ '' '' @ day @ '' '' @ clock
      in nearest_loop l value received [y - 1, y, y + 1] (zero_time, max_duration))"

text \<open>The application name, the process id and the message of the text after the host.\<close>

definition parse_tag :: "bytes \<Rightarrow> bytes \<times> bytes \<times> bytes" where
  "parse_tag value0 =
     (let value = trim_space value0; (head, rest, found) = cut_byte (CHR '':'') value in
      if \<not> found then ([], [], value)
      else
        (let message = trim_space rest in
         case last_index_byte (CHR ''['') head of
           Some open \<Rightarrow>
             if 0 < open \<and> has_suffix head '']''
             then (take open head, take (length head - 1 - (open + 1)) (drop (open + 1) head), message)
             else (head, [], message)
         | None \<Rightarrow> (head, [], message)))"

definition rfc3164_parse :: parser where
  "rfc3164_parse payload received loc =
     (case rfc3164_submatch (trim_right payload [CHR 0x0D, CHR 0x0A]) of
        None \<Rightarrow> Inl Err_rfc3164_header
      | Some (m1, m2, m3, m4, m5, m6) \<Rightarrow>
          result_bind (priority m1) (\<lambda>(p, facility, severity).
          case nearest_rfc3164_time m2 (trim_space m3) m4 received loc of
            None \<Rightarrow> Inl Err_timestamp
          | Some stamp \<Rightarrow>
              (let (app, pid, msg) = parse_tag m6 in
               Inr \<lparr>ev_timestamp = stamp, ev_timestamp_inferred = True, ev_message = msg,
                    ev_hostname = m5, ev_facility = Some facility, ev_severity = Some severity,
                    ev_priority = Some p, ev_app_name = app, ev_process_id = pid,
                    ev_message_id = [], ev_format = ''rfc3164'', ev_fields = Some Map.empty\<rparr>)))"

subsection \<open>RFC 5424\<close>

definition cut_token :: "bytes \<Rightarrow> (bytes \<times> bytes) option" where
  "cut_token value =
     (case index_byte (CHR '' '') value of
        None \<Rightarrow> None
      | Some i \<Rightarrow> Some (take i value, trim_left (drop (Suc i) value) '' ''))"

text \<open>The loop that cuts \<open>n\<close> header tokens off.\<close>

fun cut_tokens :: "nat \<Rightarrow> bytes \<Rightarrow> (bytes list \<times> bytes) option" where
  "cut_tokens 0 rest = Some ([], rest)"
| "cut_tokens (Suc n) rest =
     (case cut_token rest of
        None \<Rightarrow> None
      | Some (token, remaining) \<Rightarrow>
          map_option (\<lambda>(parts, r). (token # parts, r)) (cut_tokens n remaining))"

definition nil_value :: "bytes \<Rightarrow> bytes" where
  "nil_value v = (if v = ''-'' then [] else v)"

text \<open>
  The loop over a quoted parameter value, from behind the opening quote to behind the
  closing one; \<^term>\<open>None\<close> when the text ends before it.
\<close>

fun sd_value :: "bytes \<Rightarrow> (bytes \<times> bytes) option" where
  "sd_value [] = None"
| "sd_value (ch # s) =
     (if ch = CHR 0x22 then Some ([], s)
      else if ch = CHR 0x5C then
        (case s of
           [] \<Rightarrow> None
         | escaped # s' \<Rightarrow>
             map_option (\<lambda>(v, r).
               ((if escaped = CHR 0x22 \<or> escaped = CHR 0x5C \<or> escaped = CHR '']''
                 then [escaped] else [CHR 0x5C, escaped]) @ v, r)) (sd_value s'))
      else map_option (\<lambda>(v, r). (ch # v, r)) (sd_value s))"

definition sd_name_char :: "char \<Rightarrow> bool" where
  "sd_name_char c \<longleftrightarrow> c \<noteq> CHR ''='' \<and> c \<noteq> CHR '']'' \<and> c \<noteq> CHR '' ''"

definition sd_id_char :: "char \<Rightarrow> bool" where
  "sd_id_char c \<longleftrightarrow> c \<noteq> CHR '' '' \<and> c \<noteq> CHR '']''"

definition sd_key :: "bytes \<Rightarrow> bytes \<Rightarrow> bytes" where
  "sd_key sd_id name = ''syslog.sd.'' @ sd_id @ ''.'' @ name"

lemma sd_value_shorter: "sd_value s = Some (v, r) \<Longrightarrow> length r < length s"
proof (induction s arbitrary: v r rule: sd_value.induct)
  case (2 ch s)
  then show ?case
    by (cases s) (fastforce split: if_splits simp: less_Suc_eq)+
qed simp

text \<open>The loop over the parameters of one element, up to its closing bracket.\<close>

function sd_params :: "bytes \<Rightarrow> bytes \<Rightarrow> field_map \<Rightarrow> parse_error + (bytes \<times> field_map)" where
  "sd_params sd_id s flds =
     (if s = [] \<or> hd s = CHR '']'' then Inr (s, flds)
      else
        (let s1 = dropWhile (\<lambda>c. c = CHR '' '') s;
             name = takeWhile sd_name_char s1;
             s2 = dropWhile sd_name_char s1
         in if name = [] \<or> s2 = [] \<or> hd s2 \<noteq> CHR ''='' then Inl Err_sd_parameter
            else if tl s2 = [] \<or> hd (tl s2) \<noteq> CHR 0x22 then Inl Err_sd_value
            else
              (case sd_value (tl (tl s2)) of
                 None \<Rightarrow> Inl Err_sd_unterminated_value
               | Some (value, s3) \<Rightarrow>
                   sd_params sd_id s3 (flds(sd_key sd_id name \<mapsto> AStr value)))))"
  by pat_completeness auto
termination
proof (relation "measure (\<lambda>(i, s, f). length s)", goal_cases)
  case (2 sd_id s flds s1 name s2 p v s3)
  have "length s3 < length (tl (tl s2))" using 2 by (auto dest: sd_value_shorter)
  also have "\<dots> \<le> length s2" by simp
  also have "\<dots> \<le> length s"
    using 2 by (metis length_dropWhile_le le_trans)
  finally show ?case by simp
qed simp

declare sd_params.simps [simp del]

lemma sd_params_shorter: "sd_params sd_id s fs = Inr (r, fs') \<Longrightarrow> length r \<le> length s"
proof (induction sd_id s fs rule: sd_params.induct)
  case (1 sd_id s fs)
  define s2 where "s2 = dropWhile sd_name_char (dropWhile (\<lambda>c. c = CHR '' '') s)"
  have len: "length s2 \<le> length s"
    unfolding s2_def by (metis length_dropWhile_le le_trans)
  show ?case
  proof (cases "s = [] \<or> hd s = CHR '']''")
    case False
    with "1.prems" obtain v s3 name where v: "sd_value (tl (tl s2)) = Some (v, s3)"
      and p: "sd_params sd_id s3 (fs(sd_key sd_id name \<mapsto> AStr v)) = Inr (r, fs')"
      and cond: "name = takeWhile sd_name_char (dropWhile (\<lambda>c. c = CHR '' '') s)"
        "\<not> (name = [] \<or> s2 = [] \<or> hd s2 \<noteq> CHR ''='')"
        "\<not> (tl s2 = [] \<or> hd (tl s2) \<noteq> CHR 0x22)"
      by (subst (asm) sd_params.simps)
        (simp add: Let_def s2_def split: if_splits option.splits prod.splits)
    have "length r \<le> length s3"
      using "1.IH" [OF False refl cond(1) s2_def cond(2,3) v refl p] .
    moreover have "length s3 < length (tl (tl s2))" using v by (rule sd_value_shorter)
    ultimately show ?thesis using len by (simp add: less_diff_conv)
  qed (use "1.prems" in \<open>simp add: sd_params.simps\<close>)
qed

text \<open>The loop over the elements.\<close>

function sd_elements :: "bytes \<Rightarrow> field_map \<Rightarrow> parse_error + (bytes \<times> field_map)" where
  "sd_elements s flds =
     (if s = [] \<or> hd s \<noteq> CHR ''['' then Inr (s, flds)
      else
        (let sd_id = takeWhile sd_id_char (tl s); s1 = dropWhile sd_id_char (tl s)
         in if sd_id = [] then Inl Err_sd_id
            else
              (case sd_params sd_id s1 flds of
                 Inl e \<Rightarrow> Inl e
               | Inr (s2, flds2) \<Rightarrow>
                   if s2 = [] \<or> hd s2 \<noteq> CHR '']'' then Inl Err_sd_unterminated
                   else sd_elements (tl s2) flds2)))"
  by pat_completeness auto
termination
proof (relation "measure (\<lambda>(s, f). length s)", goal_cases)
  case (2 s flds sd_id s1 p s2 flds2)
  then have "length s2 \<le> length s1" by (auto dest: sd_params_shorter)
  also have "\<dots> \<le> length (tl s)" using 2 by (metis length_dropWhile_le)
  finally show ?case using 2 by (cases s; cases s2) auto
qed simp

declare sd_elements.simps [simp del]

definition parse_structured_data :: "bytes \<Rightarrow> field_map \<Rightarrow> parse_error + (bytes \<times> field_map)" where
  "parse_structured_data joined flds =
     (if joined = ''-'' then Inr ([], flds)
      else if has_prefix joined ''- '' then Inr (drop 2 joined, flds)
      else if joined = [] \<or> hd joined \<noteq> CHR ''['' then Inl Err_structured_data
      else sd_elements joined flds)"

definition rfc5424_parse :: parser where
  "rfc5424_parse payload received loc =
     (let s = trim_right payload [CHR 0x0D, CHR 0x0A] in
      if \<not> has_prefix s ''<'' then Inl Err_priority
      else
        (case index_byte (CHR ''>'') s of
           None \<Rightarrow> Inl Err_priority
         | Some e \<Rightarrow>
             if e < 2 \<or> 4 < e then Inl Err_priority
             else
               result_bind (priority (take (e - 1) (drop 1 s))) (\<lambda>(p, facility, severity).
               case cut_tokens 6 (drop (e + 1) s) of
                 None \<Rightarrow> Inl Err_rfc5424_header
               | Some (parts, rest) \<Rightarrow>
                   if parts ! 0 \<noteq> ''1'' then Inl Err_version
                   else
                     result_bind
                       (if parts ! 1 = ''-'' then Inr (received, True)
                        else case parse_rfc3339 (parts ! 1) of
                               None \<Rightarrow> Inl Err_timestamp
                             | Some t \<Rightarrow> Inr (t, False)) (\<lambda>(stamp, inferred).
                     result_bind (parse_structured_data rest Map.empty) (\<lambda>(remaining, flds).
                     let message = trim_prefix (trim_prefix remaining '' '') byte_order_mark in
                     Inr \<lparr>ev_timestamp = stamp, ev_timestamp_inferred = inferred,
                          ev_message = message, ev_hostname = nil_value (parts ! 2),
                          ev_facility = Some facility, ev_severity = Some severity,
                          ev_priority = Some p, ev_app_name = nil_value (parts ! 3),
                          ev_process_id = nil_value (parts ! 4),
                          ev_message_id = nil_value (parts ! 5),
                          ev_format = ''rfc5424'', ev_fields = Some flds\<rparr>)))))"

subsection \<open>The registry\<close>

definition new_registry :: "bytes \<rightharpoonup> parser" where
  "new_registry = [''rfc3164'' \<mapsto> rfc3164_parse, ''rfc5424'' \<mapsto> rfc5424_parse]"

definition unknown_event :: "bytes \<Rightarrow> instant \<Rightarrow> event" where
  "unknown_event payload received =
     \<lparr>ev_timestamp = received, ev_timestamp_inferred = True,
      ev_message = to_valid_utf8 payload replacement_char, ev_hostname = [],
      ev_facility = None, ev_severity = None, ev_priority = None, ev_app_name = [],
      ev_process_id = [], ev_message_id = [], ev_format = ''unknown'',
      ev_fields = Some Map.empty\<rparr>"

definition registry_parse ::
  "(bytes \<rightharpoonup> parser) \<Rightarrow> bytes \<Rightarrow> bytes \<Rightarrow> instant \<Rightarrow> location option \<Rightarrow> parse_error + event" where
  "registry_parse parsers configured payload received loc =
     (let auto = (configured = [] \<or> configured = ''auto'');
          name = (if auto then detect payload else configured)
      in if auto \<and> name = ''unknown'' then Inr (unknown_event payload received)
         else
           (case parsers name of
              None \<Rightarrow> Inl (Not_registered name)
            | Some p \<Rightarrow> p payload received loc))"

end
