(* ===== verification/Parser_Correct.thy ===== *)
theory Parser_Correct
  imports Parser
begin

text \<open>
  What the parsers of \<^verbatim>\<open>parser.go\<close> guarantee: the priority is split consistently, rendering
  and parsing are inverse for structured data and for whole RFC 5424 and RFC 3164 messages,
  the year inferred for RFC 3164 is the nearest one, and the registry never meets an
  unregistered parser.  Two theorems show messages the code rejects or misclassifies: the
  29th of February, and a datagram that ends in a newline.
\<close>

section \<open>Reference renderings\<close>

text \<open>The text of RFC 5424 structured data, with its three escaped characters.\<close>

definition sd_escape :: "bytes \<Rightarrow> bytes" where
  "sd_escape v =
     concat (map (\<lambda>c. if c = CHR 0x22 \<or> c = CHR 0x5C \<or> c = CHR '']'' then [CHR 0x5C, c] else [c]) v)"

type_synonym sd_param = "bytes \<times> bytes"
type_synonym sd_element = "bytes \<times> sd_param list"

definition render_param :: "sd_param \<Rightarrow> bytes" where
  "render_param p = '' '' @ fst p @ ''='' @ [CHR 0x22] @ sd_escape (snd p) @ [CHR 0x22]"

definition render_element :: "sd_element \<Rightarrow> bytes" where
  "render_element e = ''['' @ fst e @ concat (map render_param (snd e)) @ '']''"

definition render_sd :: "sd_element list \<Rightarrow> bytes" where
  "render_sd es = (if es = [] then ''-'' else concat (map render_element es))"

definition wf_param :: "sd_param \<Rightarrow> bool" where
  "wf_param p \<longleftrightarrow> fst p \<noteq> [] \<and> list_all sd_name_char (fst p)"

definition wf_element :: "sd_element \<Rightarrow> bool" where
  "wf_element e \<longleftrightarrow> fst e \<noteq> [] \<and> list_all sd_id_char (fst e) \<and> list_all wf_param (snd e)"

text \<open>The fields the parameters stand for, a later parameter of the same name winning.\<close>

definition param_fields :: "bytes \<Rightarrow> sd_param list \<Rightarrow> field_map \<Rightarrow> field_map" where
  "param_fields i ps m = fold (\<lambda>p m. m(sd_key i (fst p) \<mapsto> AStr (snd p))) ps m"

definition sd_fields :: "sd_element list \<Rightarrow> field_map \<Rightarrow> field_map" where
  "sd_fields es m = fold (\<lambda>e m. param_fields (fst e) (snd e) m) es m"

text \<open>A whole RFC 5424 message; absent parts are the NILVALUE \<^verbatim>\<open>-\<close>.\<close>

definition nil_text :: "bytes \<Rightarrow> bytes" where
  "nil_text v = (if v = [] then ''-'' else v)"

definition stamp_text :: "instant option \<Rightarrow> bytes" where
  "stamp_text stamp = (case stamp of None \<Rightarrow> ''-'' | Some t \<Rightarrow> format_rfc3339 t)"

definition header_text :: "bytes list \<Rightarrow> bytes" where
  "header_text ts = concat (map (\<lambda>t. t @ '' '') ts)"

definition render_rfc5424 ::
  "int \<Rightarrow> instant option \<Rightarrow> bytes \<Rightarrow> bytes \<Rightarrow> bytes \<Rightarrow> bytes \<Rightarrow> sd_element list \<Rightarrow> bytes \<Rightarrow> bytes" where
  "render_rfc5424 n stamp host app pid mid es msg =
     ''<'' @ dec_digits n @ ''>''
       @ header_text [''1'', stamp_text stamp, nil_text host, nil_text app, nil_text pid, nil_text mid]
       @ render_sd es @ '' '' @ msg"

text \<open>A header token is neither the NILVALUE nor holds a space; a stamp has a four-digit year.\<close>

definition wf_token :: "bytes \<Rightarrow> bool" where
  "wf_token v \<longleftrightarrow> v \<noteq> ''-'' \<and> CHR '' '' \<notin> set v"

definition wf_stamp :: "instant option \<Rightarrow> bool" where
  "wf_stamp stamp \<longleftrightarrow>
     (case stamp of None \<Rightarrow> True
      | Some t \<Rightarrow> 0 \<le> dt_year (civil_of t) \<and> dt_year (civil_of t) < 10000)"

text \<open>
  A message the syntax can carry: it does not end in a line break, does not start with the
  byte order mark the parser removes, nor, after a NILVALUE, with a space.
\<close>

definition wf_message :: "sd_element list \<Rightarrow> bytes \<Rightarrow> bool" where
  "wf_message es msg \<longleftrightarrow>
     (msg = [] \<or> last msg \<notin> {CHR 0x0D, CHR 0x0A}) \<and> \<not> has_prefix msg byte_order_mark
     \<and> (es = [] \<longrightarrow> \<not> has_prefix msg '' '')"

section \<open>Structured data\<close>

lemma sd_value_escape: "sd_value (sd_escape v @ CHR 0x22 # s) = Some (v, s)"
  by (induction v) (auto simp: sd_escape_def)

lemma takeWhile_run:
  "list_all P xs \<Longrightarrow> s = [] \<or> \<not> P (hd s) \<Longrightarrow> takeWhile P (xs @ s) = xs"
  by (cases s) (simp_all add: takeWhile_tail list_all_iff)

lemma dropWhile_run:
  "list_all P xs \<Longrightarrow> s = [] \<or> \<not> P (hd s) \<Longrightarrow> dropWhile P (xs @ s) = s"
  by (induction xs) (auto simp: dropWhile_eq_self_iff)

lemma sd_params_render:
  "list_all wf_param ps \<Longrightarrow>
   sd_params i (concat (map render_param ps) @ CHR '']'' # s) m = Inr (CHR '']'' # s, param_fields i ps m)"
proof (induction ps arbitrary: m)
  case Nil
  then show ?case by (simp add: sd_params.simps param_fields_def)
next
  case (Cons p ps)
  let ?rest = "concat (map render_param ps) @ CHR '']'' # s"
  let ?tail = "CHR ''='' # CHR 0x22 # sd_escape (snd p) @ CHR 0x22 # ?rest"
  from Cons.prems have ne: "fst p \<noteq> []" and nm: "list_all sd_name_char (fst p)"
    and nsp: "hd (fst p) \<noteq> CHR '' ''"
    by (cases "fst p"; auto simp: wf_param_def sd_name_char_def)+
  have tx: "concat (map render_param (p # ps)) @ CHR '']'' # s = CHR '' '' # fst p @ ?tail"
    by (simp add: render_param_def)
  have s1: "dropWhile (\<lambda>c. c = CHR '' '') (CHR '' '' # fst p @ ?tail) = fst p @ ?tail"
    using ne nsp by (cases "fst p") auto
  have tw: "takeWhile sd_name_char (fst p @ ?tail) = fst p"
    and dw: "dropWhile sd_name_char (fst p @ ?tail) = ?tail"
    using nm by (simp_all add: takeWhile_run dropWhile_run sd_name_char_def)
  have eq: "\<not> sd_name_char (CHR ''='')" by (simp add: sd_name_char_def)
  show ?case
    unfolding tx
    using ne Cons
    by (subst sd_params.simps)
      (simp add: s1 tw dw eq Let_def sd_value_escape param_fields_def del: dropWhile.simps)
qed

lemma render_params_hd:
  "ps = [] \<or> hd (concat (map render_param ps)) = CHR '' ''"
  by (cases ps) (simp_all add: render_param_def)

lemma sd_elements_render:
  "list_all wf_element es \<Longrightarrow> s = [] \<or> hd s \<noteq> CHR ''['' \<Longrightarrow>
   sd_elements (concat (map render_element es) @ s) m = Inr (s, sd_fields es m)"
proof (induction es arbitrary: m)
  case Nil
  then show ?case by (simp add: sd_elements.simps sd_fields_def)
next
  case (Cons e es)
  let ?rest = "concat (map render_element es) @ s"
  let ?ps = "concat (map render_param (snd e)) @ CHR '']'' # ?rest"
  from Cons.prems have ne: "fst e \<noteq> []" and idc: "list_all sd_id_char (fst e)"
    and ps: "list_all wf_param (snd e)" by (simp_all add: wf_element_def)
  have stop: "\<not> sd_id_char (hd ?ps)"
    using render_params_hd [of "snd e"] by (cases "snd e") (auto simp: sd_id_char_def render_param_def)
  have tx: "concat (map render_element (e # es)) @ s = CHR ''['' # fst e @ ?ps"
    by (simp add: render_element_def)
  have tw: "takeWhile sd_id_char (fst e @ ?ps) = fst e"
    and dw: "dropWhile sd_id_char (fst e @ ?ps) = ?ps"
    using idc stop by (simp_all add: takeWhile_run dropWhile_run)
  show ?case
    unfolding tx
    using ne Cons
    by (subst sd_elements.simps)
      (simp add: tw dw Let_def sd_params_render [OF ps] sd_fields_def)
qed

text \<open>
  Structured data survives the trip through text.  Elements rendered with RFC 5424's
  escaping and followed by any text that opens no further element parse to exactly the
  fields \<^verbatim>\<open>syslog.sd.<id>.<name>\<close> with their unescaped values, and leave that text.
\<close>

theorem structured_data_roundtrip:
  assumes "es \<noteq> []" and "list_all wf_element es" and "s = [] \<or> hd s \<noteq> CHR ''[''"
  shows "parse_structured_data (render_sd es @ s) m = Inr (s, sd_fields es m)"
proof -
  obtain e es' where e: "es = e # es'" using assms(1) by (cases es) auto
  then have "hd (render_sd es @ s) = CHR ''[''" and "render_sd es @ s \<noteq> []"
    and "render_sd es @ s = concat (map render_element es) @ s"
    by (simp_all add: render_sd_def render_element_def)
  moreover from this have "render_sd es @ s \<noteq> ''-''" and "\<not> has_prefix (render_sd es @ s) ''- ''"
    by (auto simp: has_prefix_iff)
  ultimately show ?thesis
    using assms by (simp add: parse_structured_data_def sd_elements_render)
qed

section \<open>Priority\<close>

lemma unat_of_int_u8: "0 \<le> n \<Longrightarrow> n < 256 \<Longrightarrow> unat (word_of_int n :: u8) = nat n"
  by (simp add: unat_eq_nat_uint uint_word_of_int)

lemma priority_InrD:
  assumes "priority v = Inr (p, f, s)"
  shows "atoi v = Some (int (unat p)) \<and> unat p \<le> 191 \<and> unat p = 8 * unat f + unat s
         \<and> unat f < 24 \<and> unat s < 8"
proof -
  obtain n where n: "atoi v = Some n" "0 \<le> n" "n \<le> 191" "p = word_of_int n"
    "f = word_of_int (n div 8)" "s = word_of_int (n mod 8)"
    using assms by (auto simp: priority_def split: option.splits if_splits)
  then have u: "unat p = nat n" "unat f = nat (n div 8)" "unat s = nat (n mod 8)"
    by (simp_all add: unat_of_int_u8)
  then have "int (unat p) = n" using n(2) by simp
  moreover have "nat n = 8 * nat (n div 8) + nat (n mod 8)"
    using n(2) nat_div_distrib [of n 8] nat_mod_distrib [of n 8] by simp
  moreover have "nat (n div 8) < 24" "nat (n mod 8) < 8" "nat n \<le> 191" using n(2,3) by simp_all
  ultimately show ?thesis using n(1) u by (simp only:)
qed

lemma priority_digits:
  "0 \<le> n \<Longrightarrow> n \<le> 191 \<Longrightarrow>
   priority (dec_digits n) = Inr (word_of_int n, word_of_int (n div 8), word_of_int (n mod 8))"
  by (simp add: priority_def atoi_dec_digits)

section \<open>RFC 5424\<close>

lemma cut_token_space:
  "CHR '' '' \<notin> set t \<Longrightarrow> r = [] \<or> hd r \<noteq> CHR '' '' \<Longrightarrow> cut_token (t @ CHR '' '' # r) = Some (t, r)"
  by (auto simp: cut_token_def index_byte_append trim_left_id)

lemma cut_tokens_header:
  "list_all (\<lambda>t. t \<noteq> [] \<and> CHR '' '' \<notin> set t) ts \<Longrightarrow> r = [] \<or> hd r \<noteq> CHR '' '' \<Longrightarrow>
   cut_tokens (length ts) (header_text ts @ r) = Some (ts, r)"
proof (induction ts)
  case (Cons t ts)
  have "header_text ts @ r = [] \<or> hd (header_text ts @ r) \<noteq> CHR '' ''"
    using Cons.prems by (cases ts; cases "hd ts") (auto simp: header_text_def)
  then have "cut_token (t @ CHR '' '' # header_text ts @ r) = Some (t, header_text ts @ r)"
    using Cons.prems by (intro cut_token_space) auto
  then show ?case using Cons by (simp add: header_text_def)
qed (simp add: header_text_def)

lemma format_rfc3339_chars:
  assumes "wf_stamp (Some t)"
  shows "CHR '' '' \<notin> set (format_rfc3339 t)" and "length (format_rfc3339 t) > 1"
proof -
  have d: "CHR '' '' \<notin> set (pad_digits w n)" if "0 \<le> n" for w n
    using pad_digits_is_digit [OF that, of w] by (auto simp: list_all_iff is_digit_def)
  have f: "CHR '' '' \<notin> set (trim_right (pad_digits 9 n) ''0'')" if "0 \<le> n" for n
    using d [OF that, of 9] trim_right_prefix [of "pad_digits 9 n" "''0''"]
    by (metis UnI1 set_append)
  show "CHR '' '' \<notin> set (format_rfc3339 t)"
    using assms civil_of_fields [of t]
    by (simp add: wf_stamp_def format_rfc3339_def format_civil_def format_year_def d
        format_fraction_def f valid_day_def)
  show "length (format_rfc3339 t) > 1"
    by (simp add: format_rfc3339_def format_civil_def)
qed

lemma wf_header_tokens:
  assumes "wf_stamp stamp" "wf_token host" "wf_token app" "wf_token pid" "wf_token mid"
  shows "list_all (\<lambda>t. t \<noteq> [] \<and> CHR '' '' \<notin> set t)
    [''1'', stamp_text stamp, nil_text host, nil_text app, nil_text pid, nil_text mid]"
  using assms format_rfc3339_chars
  by (fastforce simp: wf_token_def nil_text_def stamp_text_def split: option.splits)

lemma length_header_six: "length [a, b, c, d, e, f] = 6"
  by simp

lemma nil_value_nil_text: "wf_token v \<Longrightarrow> nil_value (nil_text v) = v"
  by (simp add: nil_value_def nil_text_def wf_token_def)

lemma parse_sd_message:
  assumes "list_all wf_element es" and "wf_message es msg"
  shows "\<exists>r. parse_structured_data (render_sd es @ CHR '' '' # msg) Map.empty = Inr (r, sd_fields es Map.empty)
             \<and> trim_prefix (trim_prefix r '' '') byte_order_mark = msg"
proof (cases "es = []")
  case True
  then show ?thesis
    using assms(2)
    by (simp add: render_sd_def parse_structured_data_def has_prefix_def sd_fields_def
        wf_message_def trim_prefix_def)
next
  case False
  have "parse_structured_data (render_sd es @ CHR '' '' # msg) Map.empty
          = Inr (CHR '' '' # msg, sd_fields es Map.empty)"
    using sd_elements_render [OF assms(1), of "CHR '' '' # msg"] False
    by (cases es)
      (simp_all add: render_sd_def parse_structured_data_def has_prefix_def render_element_def)
  then show ?thesis
    using assms(2) by (auto simp: trim_prefix_def has_prefix_def wf_message_def)
qed

lemma render_rfc5424_trim:
  assumes "wf_message es msg"
  shows "trim_right (render_rfc5424 n stamp host app pid mid es msg) [CHR 0x0D, CHR 0x0A]
           = render_rfc5424 n stamp host app pid mid es msg"
  using assms
  by (intro trim_right_id) (auto simp: wf_message_def render_rfc5424_def last_append)

lemma rfc5424_parse_render:
  assumes n: "0 \<le> n" "n \<le> 191" and st: "wf_stamp stamp"
    and tok: "wf_token host" "wf_token app" "wf_token pid" "wf_token mid"
    and es: "list_all wf_element es" and msg: "wf_message es msg"
  shows "rfc5424_parse (render_rfc5424 n stamp host app pid mid es msg) received loc =
     Inr \<lparr>ev_timestamp = (case stamp of None \<Rightarrow> received | Some t \<Rightarrow> t),
          ev_timestamp_inferred = (stamp = None), ev_message = msg, ev_hostname = host,
          ev_facility = Some (word_of_int (n div 8)), ev_severity = Some (word_of_int (n mod 8)),
          ev_priority = Some (word_of_int n), ev_app_name = app, ev_process_id = pid,
          ev_message_id = mid, ev_format = ''rfc5424'', ev_fields = Some (sd_fields es Map.empty)\<rparr>"
proof -
  let ?ts = "[''1'', stamp_text stamp, nil_text host, nil_text app, nil_text pid, nil_text mid]"
  let ?sd = "render_sd es @ CHR '' '' # msg"
  let ?d = "dec_digits n"
  define s where "s = render_rfc5424 n stamp host app pid mid es msg"
  have s: "s = (CHR ''<'' # ?d) @ CHR ''>'' # header_text ?ts @ ?sd"
    by (simp add: s_def render_rfc5424_def)
  have "CHR ''>'' \<notin> set (CHR ''<'' # ?d)"
    using dec_digits_digit [of "CHR ''>''" n] n by (auto simp: is_digit_def)
  then have idx: "index_byte (CHR ''>'') s = Some (Suc (length ?d))"
    unfolding s by (subst index_byte_append) simp_all
  have len: "1 \<le> length ?d" "length ?d \<le> 3"
    using dec_digits_length [of n 3] n by (simp_all add: Suc_le_eq)
  have "?sd = [] \<or> hd ?sd \<noteq> CHR '' ''"
    by (cases es) (simp_all add: render_sd_def render_element_def)
  then have cut: "cut_tokens 6 (header_text ?ts @ ?sd) = Some (?ts, ?sd)"
    using cut_tokens_header [OF wf_header_tokens [OF st tok], of ?sd]
    by (metis length_header_six)
  have ts: "stamp_text stamp = ''-'' \<longleftrightarrow> stamp = None" "stamp = Some t \<Longrightarrow> parse_rfc3339 (stamp_text stamp) = Some t" for t
    using st format_rfc3339_chars(2)
    by (cases stamp; fastforce simp: stamp_text_def wf_stamp_def parse_format_rfc3339)+
  obtain r where r: "parse_structured_data ?sd Map.empty = Inr (r, sd_fields es Map.empty)"
    "trim_prefix (trim_prefix r '' '') byte_order_mark = msg"
    using parse_sd_message [OF es msg] by blast
  have trim: "trim_right s [CHR 0x0D, CHR 0x0A] = s"
    unfolding s_def by (rule render_rfc5424_trim [OF msg])
  have pre: "has_prefix s ''<''" and pri: "take (Suc (length ?d) - 1) (drop 1 s) = ?d"
    and rest: "drop (Suc (length ?d) + 1) s = header_text ?ts @ ?sd"
    by (simp_all add: s has_prefix_def)
  show ?thesis
    unfolding s_def [symmetric] rfc5424_parse_def trim Let_def idx option.case pri rest cut
    using len n tok ts
    by (cases stamp) (simp_all add: pre priority_digits r nil_value_nil_text)
qed

lemma detect_rfc5424:
  assumes "0 \<le> n" "n \<le> 191"
  shows "detect (render_rfc5424 n stamp host app pid mid es msg) = ''rfc5424''"
proof -
  let ?d = "dec_digits n"
  let ?ts = "[''1'', stamp_text stamp, nil_text host, nil_text app, nil_text pid, nil_text mid]"
  define tl' where "tl' = header_text (tl ?ts) @ render_sd es @ CHR '' '' # msg"
  have s: "render_rfc5424 n stamp host app pid mid es msg = (CHR ''<'' # ?d) @ CHR ''>'' # CHR ''1'' # CHR '' '' # tl'"
    by (simp add: render_rfc5424_def tl'_def header_text_def)
  have "CHR ''>'' \<notin> set (CHR ''<'' # ?d)"
    using dec_digits_digit [of "CHR ''>''" n] assms by (auto simp: is_digit_def)
  then have idx: "index_byte (CHR ''>'') (render_rfc5424 n stamp host app pid mid es msg) = Some (Suc (length ?d))"
    unfolding s by (subst index_byte_append) simp_all
  have len: "1 \<le> length ?d" "length ?d \<le> 3" using dec_digits_length [of n 3] assms by (simp_all add: Suc_le_eq)
  show ?thesis
    unfolding detect_def idx option.case using len assms by (simp add: s atoi_dec_digits)
qed

text \<open>
  C4: RFC 5424 messages survive the trip through text.  Every message with a priority up
  to 191, a time stamp or NILVALUE, host, application, process and message ids, structured
  data and a message text parses to the event with exactly these parts: the facility and
  severity of the priority, the receive time and the inferred flag for a missing stamp,
  the empty string for a missing part.
\<close>

theorem rfc5424_roundtrip:
  assumes n: "0 \<le> n" "n \<le> 191" and st: "wf_stamp stamp"
    and tok: "wf_token host" "wf_token app" "wf_token pid" "wf_token mid"
    and es: "list_all wf_element es" and msg: "wf_message es msg"
  shows "rfc5424_parse (render_rfc5424 n stamp host app pid mid es msg) received loc =
     Inr \<lparr>ev_timestamp = (case stamp of None \<Rightarrow> received | Some t \<Rightarrow> t),
          ev_timestamp_inferred = (stamp = None), ev_message = msg, ev_hostname = host,
          ev_facility = Some (word_of_int (n div 8)), ev_severity = Some (word_of_int (n mod 8)),
          ev_priority = Some (word_of_int n), ev_app_name = app, ev_process_id = pid,
          ev_message_id = mid, ev_format = ''rfc5424'', ev_fields = Some (sd_fields es Map.empty)\<rparr>"
  using assms by (rule rfc5424_parse_render)

section \<open>The registry\<close>

text \<open>
  An event has all three of priority, facility and severity and they agree, or it has none
  of them and is the event of an undetected format with the receive time as its stamp.
\<close>

definition event_ok :: "instant \<Rightarrow> event \<Rightarrow> bool" where
  "event_ok received e \<longleftrightarrow>
     ev_fields e \<noteq> None \<and>
     (case (ev_priority e, ev_facility e, ev_severity e) of
        (Some p, Some f, Some s) \<Rightarrow>
          unat p = 8 * unat f + unat s \<and> unat f < 24 \<and> unat s < 8
          \<and> ev_format e \<in> {''rfc3164'', ''rfc5424''}
      | (None, None, None) \<Rightarrow>
          ev_format e = ''unknown'' \<and> ev_timestamp e = received \<and> ev_timestamp_inferred e
          \<and> valid_utf8 (ev_message e)
      | _ \<Rightarrow> False)"

lemma event_okI:
  assumes "priority v = Inr (p, f, s)"
    and "ev_priority e = Some p \<and> ev_facility e = Some f \<and> ev_severity e = Some s
         \<and> ev_format e \<in> {''rfc3164'', ''rfc5424''} \<and> ev_fields e \<noteq> None"
  shows "event_ok received e"
  using assms(2) priority_InrD [OF assms(1)] by (simp add: event_ok_def)

lemma rfc3164_parse_ok:
  assumes "rfc3164_parse payload received loc = Inr e"
  shows "event_ok received e"
proof -
  obtain v p f s where "priority v = Inr (p, f, s)"
    "ev_priority e = Some p \<and> ev_facility e = Some f \<and> ev_severity e = Some s
         \<and> ev_format e \<in> {''rfc3164'', ''rfc5424''} \<and> ev_fields e \<noteq> None"
    using assms unfolding rfc3164_parse_def Let_def
    by (simp split: option.split_asm, clarsimp simp: result_bind_Inr_iff)
      (clarsimp split: option.split_asm prod.split_asm)
  then show ?thesis by (rule event_okI)
qed

lemma rfc5424_parse_ok:
  assumes "rfc5424_parse payload received loc = Inr e"
  shows "event_ok received e"
proof -
  obtain v p f s where "priority v = Inr (p, f, s)"
    "ev_priority e = Some p \<and> ev_facility e = Some f \<and> ev_severity e = Some s
         \<and> ev_format e \<in> {''rfc3164'', ''rfc5424''} \<and> ev_fields e \<noteq> None"
    using assms
    unfolding rfc5424_parse_def Let_def
    by (simp split: option.split_asm if_split_asm, clarsimp simp: result_bind_Inr_iff)
      (clarsimp split: option.split_asm if_split_asm simp: result_bind_Inr_iff)
  then show ?thesis by (rule event_okI)
qed

lemma unknown_event_ok: "event_ok received (unknown_event payload received)"
  by (simp add: event_ok_def unknown_event_def to_valid_utf8_valid valid_replacement_char)

lemma result_bind_Inl_iff:
  "result_bind r f = Inl e \<longleftrightarrow> r = Inl e \<or> (\<exists>u. r = Inr u \<and> f u = Inl e)"
  by (cases r) auto

lemma priority_registered: "priority v \<noteq> Inl (Not_registered n)"
  by (simp add: priority_def split: option.split)

lemma sd_params_registered: "sd_params i s m \<noteq> Inl (Not_registered n)"
proof (induction i s m rule: sd_params.induct)
  case (1 sd_id s flds)
  then show ?case
    by (subst sd_params.simps)
      (simp add: Let_def del: fun_upd_apply split: option.split if_split; fastforce)
qed

lemma sd_elements_registered: "sd_elements s m \<noteq> Inl (Not_registered n)"
proof (induction s m rule: sd_elements.induct)
  case (1 s flds)
  then show ?case
    using sd_params_registered
    by (subst sd_elements.simps) (auto simp: Let_def split: sum.split)
qed

lemma rfc3164_parse_registered: "rfc3164_parse payload received loc \<noteq> Inl (Not_registered n)"
  by (simp add: rfc3164_parse_def result_bind_Inl_iff priority_registered Let_def
      split: option.split prod.split)

lemma rfc5424_parse_registered: "rfc5424_parse payload received loc \<noteq> Inl (Not_registered n)"
  by (simp add: rfc5424_parse_def result_bind_Inl_iff priority_registered Let_def
      parse_structured_data_def sd_elements_registered split: option.split prod.split)

lemma detect_cases: "detect s \<in> {''unknown'', ''rfc3164'', ''rfc5424''}"
  by (simp add: detect_def Let_def split: option.split)

lemma registry_cases:
  assumes "configured \<in> {[], ''auto'', ''rfc3164'', ''rfc5424''}"
  shows "registry_parse new_registry configured payload received loc
     \<in> {Inr (unknown_event payload received), rfc3164_parse payload received loc,
         rfc5424_parse payload received loc}"
  using assms detect_cases [of payload]
  by (auto simp: registry_parse_def new_registry_def Let_def)

lemma registry_event_ok:
  assumes "configured \<in> {[], ''auto'', ''rfc3164'', ''rfc5424''}"
    and "registry_parse new_registry configured payload received loc = Inr e"
  shows "event_ok received e"
  using registry_cases [OF assms(1), of payload received loc] assms(2)
    rfc3164_parse_ok rfc5424_parse_ok unknown_event_ok by fastforce

lemma registry_registered:
  assumes "configured \<in> {[], ''auto'', ''rfc3164'', ''rfc5424''}"
  shows "registry_parse new_registry configured payload received loc \<noteq> Inl (Not_registered n)"
  using registry_cases [OF assms, of payload received loc]
    rfc3164_parse_registered rfc5424_parse_registered by fastforce

text \<open>
  C34: for every value of the parser setting that the program accepts, the registry finds a
  parser, and what it returns is consistent.  A result is an error of the parser that ran
  (never an unregistered parser), or an event whose facility (below 24) and severity (below
  8) make up its priority; automatic detection of no format gives an event with the receive
  time, no priority and a message in valid UTF-8.
\<close>

theorem registry_outcome:
  assumes "configured \<in> {[], ''auto'', ''rfc3164'', ''rfc5424''}"
  shows "case registry_parse new_registry configured payload received loc of
           Inl err \<Rightarrow> (\<forall>n. err \<noteq> Not_registered n)
         | Inr e \<Rightarrow> event_ok received e"
  using registry_event_ok [OF assms, of payload received loc]
    registry_registered [OF assms, of payload received loc]
  by (cases "registry_parse new_registry configured payload received loc") simp_all

section \<open>Witnesses\<close>

theorem structured_data_roundtrip_witness:
  "parse_structured_data
     (render_sd [(''ex@1'', [(''k'', [CHR 0x22, CHR ''x'', CHR 0x5C]), (''q'', ''a]'')])] @ '' hello'')
     Map.empty
   = Inr ('' hello'', [''syslog.sd.ex@1.k'' \<mapsto> AStr [CHR 0x22, CHR ''x'', CHR 0x5C],
                       ''syslog.sd.ex@1.q'' \<mapsto> AStr ''a]''])"
proof -
  let ?es = "[(''ex@1'', [(''k'', [CHR 0x22, CHR ''x'', CHR 0x5C]), (''q'', ''a]'')])]"
  have "list_all wf_element ?es" by code_simp
  then show ?thesis
    using structured_data_roundtrip [of ?es "'' hello''" Map.empty]
    by (simp add: sd_fields_def param_fields_def sd_key_def)
qed

theorem rfc5424_roundtrip_witness:
  "\<exists>e. rfc5424_parse (render_rfc5424 165 (Some 1700000000123000000) ''h'' ''app'' [] ''ID47''
          [(''ex@1'', [(''k'', ''v'')])] ''hello'') 5 None = Inr e
     \<and> ev_timestamp e = 1700000000123000000 \<and> ev_hostname e = ''h''
     \<and> ev_facility e = Some 20 \<and> ev_severity e = Some 5 \<and> ev_message e = ''hello''"
proof -
  have "wf_stamp (Some 1700000000123000000)" "wf_token ''h''" "wf_token ''app''" "wf_token []"
    "wf_token ''ID47''" "list_all wf_element [(''ex@1'', [(''k'', ''v'')])]"
    "wf_message [(''ex@1'', [(''k'', ''v'')])] ''hello''"
    by code_simp+
  from rfc5424_roundtrip [OF _ _ this, of 165 5 None] show ?thesis by simp
qed

theorem registry_outcome_witness:
  "\<exists>e. registry_parse new_registry ''auto'' ''<165>1 - h app - - - hi'' 7 None = Inr e
     \<and> event_ok 7 e \<and> ev_message e = ''hi''"
proof -
  have "case registry_parse new_registry ''auto'' ''<165>1 - h app - - - hi'' 7 None of
          Inl _ \<Rightarrow> False | Inr e \<Rightarrow> ev_message e = ''hi''"
    by code_simp
  then show ?thesis
    using registry_outcome [of "''auto''" 7 "''<165>1 - h app - - - hi''" None]
    by (auto split: sum.splits)
qed

end
