(* ===== verification/Normalizer.thy ===== *)
theory Normalizer
  imports Parser_Correct "HOL-Library.List_Lexorder"
begin

text \<open>
  \<^verbatim>\<open>backend/internal/normalization/normalizer.go\<close>: the canonical entry built from a frame and
  its parsed event, and the version 7 UUID that identifies it.  The sixteen random bytes of
  \<^verbatim>\<open>crypto/rand\<close> are an argument, \<^term>\<open>None\<close> for its error.  Shown are the shape of the
  identifiers, that they sort by receive time, and that entries are well formed.
\<close>

unbundle bit_operations_syntax

section \<open>Definitions\<close>

definition facility_names :: "bytes list" where
  "facility_names =
     [''kernel'', ''user'', ''mail'', ''daemon'', ''auth'', ''syslog'', ''lpr'', ''news'', ''uucp'',
      ''clock'', ''authpriv'', ''ftp'', ''ntp'', ''audit'', ''alert'', ''clock2'', ''local0'',
      ''local1'', ''local2'', ''local3'', ''local4'', ''local5'', ''local6'', ''local7'']"

definition severity_names :: "bytes list" where
  "severity_names =
     [''emergency'', ''alert'', ''critical'', ''error'', ''warning'', ''notice'', ''informational'',
      ''debug'']"

definition uuid_bytes :: "(nat \<Rightarrow> u8) \<Rightarrow> u64 \<Rightarrow> u8 list" where
  "uuid_bytes random ms =
     (let b0 = map random [0..<16];
          b = b0[0 := ucast (drop_bit 40 ms), 1 := ucast (drop_bit 32 ms), 2 := ucast (drop_bit 24 ms),
                 3 := ucast (drop_bit 16 ms), 4 := ucast (drop_bit 8 ms), 5 := ucast ms]
      in b[6 := ((b ! 6) AND 0x0F) OR 0x70, 8 := ((b ! 8) AND 0x3F) OR 0x80])"

definition uuid_text :: "u8 list \<Rightarrow> bytes" where
  "uuid_text b =
     hex_encode (take 4 b) @ ''-'' @ hex_encode (take 2 (drop 4 b)) @ ''-''
     @ hex_encode (take 2 (drop 6 b)) @ ''-'' @ hex_encode (take 2 (drop 8 b)) @ ''-''
     @ hex_encode (take 6 (drop 10 b))"

definition uuid_v7 :: "(nat \<Rightarrow> u8) option \<Rightarrow> instant \<Rightarrow> bytes option" where
  "uuid_v7 random now =
     (case random of
        None \<Rightarrow> None
      | Some r \<Rightarrow> Some (uuid_text (uuid_bytes r (word_of_int (unix_milli now)))))"

definition name_of :: "bytes list \<Rightarrow> u8 option \<Rightarrow> bytes" where
  "name_of names v =
     (case v of
        None \<Rightarrow> []
      | Some n \<Rightarrow> if unat n < length names then names ! unat n else [])"

definition normalize_entry :: "(nat \<Rightarrow> u8) option \<Rightarrow> frame \<Rightarrow> event \<Rightarrow> log_entry option" where
  "normalize_entry random frm event =
     (case uuid_v7 random (fr_received_at frm) of
        None \<Rightarrow> None
      | Some i \<Rightarrow>
          Some \<lparr>le_id = i,
            le_tenant_id = (if fr_tenant_id frm = [] then ''default'' else fr_tenant_id frm),
            le_timestamp = ev_timestamp event, le_received_at = fr_received_at frm,
            le_message = to_valid_utf8 (ev_message event) replacement_char,
            le_raw_message = to_valid_utf8 (fr_payload frm) replacement_char,
            le_hostname = ev_hostname event, le_source_ip = fr_source_ip frm,
            le_source_port = fr_source_port frm, le_facility = ev_facility event,
            le_facility_name = name_of facility_names (ev_facility event),
            le_severity = ev_severity event,
            le_severity_name = name_of severity_names (ev_severity event),
            le_priority = ev_priority event, le_protocol = fr_protocol frm,
            le_format = ev_format event, le_app_name = ev_app_name event,
            le_process_id = ev_process_id event, le_message_id = ev_message_id event,
            le_source_id = fr_source_id frm, le_source = fr_source_name frm,
            le_source_type = ''syslog'',
            le_fields = (case ev_fields event of None \<Rightarrow> Map.empty | Some m \<Rightarrow> m),
            le_labels = Map.empty,
            le_parse_status = (if ev_format event = ''unknown'' then ParseStatusUnknown else ParseStatusParsed),
            le_schema_version = schema_version,
            le_timestamp_inferred = ev_timestamp_inferred event\<rparr>)"

section \<open>The identifier\<close>

lemma uuid_bytes_eq:
  "uuid_bytes r ms =
     [ucast (drop_bit 40 ms), ucast (drop_bit 32 ms), ucast (drop_bit 24 ms), ucast (drop_bit 16 ms),
      ucast (drop_bit 8 ms), ucast ms, (r 6 AND 0x0F) OR 0x70, r 7, (r 8 AND 0x3F) OR 0x80,
      r 9, r 10, r 11, r 12, r 13, r 14, r 15]"
  by (simp add: uuid_bytes_def Let_def upt_rec numeral_eq_Suc)

lemma unat_div_16: "unat (x :: u8) div 16 = unat (drop_bit 4 x)"
  unfolding unat_drop_bit_eq by (simp add: drop_bit_eq_div)

lemma version_nibble: "unat ((b AND 0x0F) OR 0x70 :: u8) div 16 = 7"
  by (simp add: unat_div_16 drop_bit_and drop_bit_or)

lemma variant_nibble: "unat ((b AND 0x3F) OR 0x80 :: u8) div 16 \<in> {8, 9, 10, 11}"
proof -
  define y where "y = drop_bit 4 b AND 3"
  have "y = take_bit 2 (drop_bit 4 b)"
    by (simp add: y_def take_bit_eq_mask mask_eq_exp_minus_1)
  then have "unat y < 2 ^ 2"
    by (simp only: unsigned_take_bit_eq take_bit_nat_less_exp)
  then have "unat y = 0 \<or> unat y = 1 \<or> unat y = 2 \<or> unat y = 3" unfolding power2_eq_square by linarith
  moreover have "y = of_nat (unat y)" by simp
  ultimately have "y = of_nat 0 \<or> y = of_nat 1 \<or> y = of_nat 2 \<or> y = of_nat 3" by (metis (no_types))
  then have "y \<in> {0, 1, 2, 3}" by simp
  moreover have "drop_bit 4 ((b AND 0x3F) OR 0x80 :: u8) = y OR 8"
    by (simp add: drop_bit_and drop_bit_or y_def)
  ultimately show ?thesis
    unfolding unat_div_16 by (elim insertE emptyE) simp_all
qed

text \<open>Groups of 8, 4, 4, 4 and 12 hexadecimal digits between dashes.\<close>

definition uuid_mask :: "bool list" where
  "uuid_mask =
     replicate 8 False @ [True] @ replicate 4 False @ [True] @ replicate 4 False @ [True]
     @ replicate 4 False @ [True] @ replicate 12 False"

definition uuid_shape :: "bytes \<Rightarrow> bool" where
  "uuid_shape u \<longleftrightarrow>
     list_all2 (\<lambda>dash c. if dash then c = CHR ''-'' else is_hex c) uuid_mask u
     \<and> u ! 14 = CHR ''7'' \<and> u ! 19 \<in> {CHR ''8'', CHR ''9'', CHR ''a'', CHR ''b''}"

lemma hex_group:
  "n = 2 * length bs \<Longrightarrow> list_all2 (\<lambda>dash c. if dash then c = CHR ''-'' else is_hex c) (replicate n False) (hex_encode bs)"
  by (simp add: list_all2_conv_all_nth) (metis hex_encode_is_hex length_hex_encode nth_mem)

lemma hex_char_values: "hex_char 7 = CHR ''7''" "hex_char 8 = CHR ''8''" "hex_char 9 = CHR ''9''"
  "hex_char 10 = CHR ''a''" "hex_char 11 = CHR ''b''"
  by code_simp+

lemma uuid_text_shape:
  assumes "length b = 16" and "unat (b ! 6) div 16 = 7" and "unat (b ! 8) div 16 \<in> {8, 9, 10, 11}"
  shows "uuid_shape (uuid_text b)"
proof -
  have "uuid_text b ! 14 = hex_encode (take 2 (drop 6 b)) ! 0"
    using assms(1) by (simp add: uuid_text_def nth_append)
  moreover have "uuid_text b ! 19 = hex_encode (take 2 (drop 8 b)) ! 0"
    using assms(1) by (simp add: uuid_text_def nth_append)
  moreover have "hex_encode (take 2 (drop k b)) ! 0 = hex_char (unat (b ! k) div 16)" if "k < 16" for k
    using that assms(1) by (simp add: hex_byte_def numeral_2_eq_2 flip: Cons_nth_drop_Suc)
  ultimately show ?thesis
    using assms hex_char_values
    unfolding uuid_shape_def uuid_mask_def uuid_text_def
    by (simp only:) (intro conjI list_all2_appendI hex_group; auto)
qed

lemma uuid_shape_bytes: "uuid_shape (uuid_text (uuid_bytes r ms))"
  using version_nibble [of "r 6"] variant_nibble [of "r 8"]
  by (intro uuid_text_shape) (simp_all add: uuid_bytes_eq)

text \<open>
  C36: identifiers are well-formed version 7 UUIDs: whatever the random bytes, 36 characters,
  dashes at positions 8, 13, 18 and 23, lower-case hexadecimal digits elsewhere, the
  version digit 7 and a variant digit 8, 9, a or b.  Only a failing random source gives none.
\<close>

theorem uuid_v7_shape:
  "case uuid_v7 random now of None \<Rightarrow> random = None | Some u \<Rightarrow> uuid_shape u"
  using uuid_shape_bytes by (simp add: uuid_v7_def split: option.split)

text \<open>Big-endian bytes compare as the numbers do, and so do their hexadecimal texts.\<close>

fun be_bytes :: "nat \<Rightarrow> nat \<Rightarrow> u8 list" where
  "be_bytes 0 m = []"
| "be_bytes (Suc k) m = of_nat (m div 256 ^ k) # be_bytes k m"

definition byte_less :: "(u8 \<times> u8) set" where
  "byte_less = {(a, b). unat a < unat b}"

definition char_less :: "(char \<times> char) set" where
  "char_less = {(a, b). byte_val a < byte_val b}"

lemma of_nat_u8_add: "256 dvd j \<Longrightarrow> (of_nat (m + j) :: u8) = of_nat m"
  by (auto elim!: dvdE simp: word_of_nat_eq_iff take_bit_eq_mod simp del: of_nat_add of_nat_mult)

lemma be_bytes_mod: "be_bytes k (m + j * 256 ^ (k + i)) = be_bytes k m"
proof (induction k arbitrary: i)
  case (Suc k)
  have "(m + j * 256 ^ (Suc k + i)) div 256 ^ k = m div 256 ^ k + 256 * (j * 256 ^ i)"
    by (simp add: power_add mult.assoc mult.left_commute [of _ "256 ^ k"] mult.commute [of _ "256 ^ k"])
  then show ?case using Suc.IH [of "Suc i"] by (simp add: of_nat_u8_add del: of_nat_add)
qed simp

lemma be_bytes_less:
  assumes "m < n" and "n < 256 ^ k"
  shows "(be_bytes k m, be_bytes k n) \<in> lexord byte_less"
  using assms
proof (induction k arbitrary: m n)
  case (Suc k)
  have small: "unat (of_nat (x div 256 ^ k) :: u8) = x div 256 ^ k" if "x < 256 ^ Suc k" for x
    using that by (simp add: unat_of_nat less_mult_imp_div_less)
  show ?case
  proof (cases "m div 256 ^ k = n div 256 ^ k")
    case True
    then have "m mod 256 ^ k < n mod 256 ^ k"
      using Suc.prems(1) by (metis div_mult_mod_eq nat_add_left_cancel_less)
    then have "(be_bytes k (m mod 256 ^ k), be_bytes k (n mod 256 ^ k)) \<in> lexord byte_less"
      by (intro Suc.IH) simp_all
    moreover have "be_bytes k x = be_bytes k (x mod 256 ^ k)" for x
      using be_bytes_mod [of k "x mod 256 ^ k" "x div 256 ^ k" 0] by (simp add: mod_div_mult_eq)
    ultimately show ?thesis using True by simp
  next
    case False
    then have "m div 256 ^ k < n div 256 ^ k"
      using Suc.prems(1) by (simp add: div_le_mono le_neq_implies_less)
    then show ?thesis using small [of m] small [of n] Suc.prems by (simp add: byte_less_def)
  qed
qed simp

lemma hex_byte_less: "(a, b) \<in> byte_less \<Longrightarrow> (hex_byte a, hex_byte b) \<in> lexord char_less"
proof -
  assume "(a, b) \<in> byte_less"
  then have less: "unat a < unat b" by (simp add: byte_less_def)
  have b16: "unat x div 16 < 16" for x :: u8
    using unat_u8_less [of x] by (intro less_mult_imp_div_less) simp
  show ?thesis
  proof (cases "unat a div 16 = unat b div 16")
    case True
    then have "unat a mod 16 < unat b mod 16"
      using less by (metis div_mult_mod_eq nat_add_left_cancel_less)
    then show ?thesis using True by (simp add: hex_byte_def char_less_def byte_val_hex_char_less)
  next
    case False
    then have "unat a div 16 < unat b div 16" using less by (simp add: div_le_mono le_neq_implies_less)
    then show ?thesis using b16 by (simp add: hex_byte_def char_less_def byte_val_hex_char_less)
  qed
qed

lemma hex_encode_less:
  "(xs, ys) \<in> lexord byte_less \<Longrightarrow> length xs = length ys \<Longrightarrow> (hex_encode xs, hex_encode ys) \<in> lexord char_less"
proof (induction xs arbitrary: ys)
  case (Cons x xs)
  obtain y ys' where y: "ys = y # ys'" using Cons.prems(2) by (cases ys) auto
  show ?case
  proof (cases "(x, y) \<in> byte_less")
    case True
    then show ?thesis by (simp add: y lexord_sufI hex_byte_less)
  next
    case False
    then show ?thesis using Cons by (simp add: y lexord_append_leftI)
  qed
qed (auto simp: lexord_def)

lemma ucast_drop_bit: "(ucast (drop_bit k (ms :: u64)) :: u8) = of_nat (unat ms div 2 ^ k)"
proof -
  have "unat ms div 2 ^ k = unat (drop_bit k ms)"
    by (simp only: unat_drop_bit_eq drop_bit_eq_div [where 'a = nat])
  then show ?thesis by simp
qed

lemma be_bytes_6:
  "be_bytes 6 m = map (\<lambda>k. of_nat (m div 2 ^ k)) [40, 32, 24, 16, 8, 0]"
proof -
  have "(6 :: nat) = Suc (Suc (Suc (Suc (Suc (Suc 0)))))" by simp
  then show ?thesis by (simp only: be_bytes.simps list.map) simp
qed

lemma uuid_bytes_be: "uuid_bytes r ms = be_bytes 6 (unat ms) @ drop 6 (uuid_bytes r ms)"
  unfolding uuid_bytes_eq be_bytes_6 using ucast_drop_bit [of 0 ms] by (simp add: ucast_drop_bit)

lemma byte_less_irrefl: "\<forall>x. (x, x) \<notin> byte_less"
  by (simp add: byte_less_def)

lemma uuid_text_less:
  assumes "length b = 16" "length c = 16" and "(take 6 b, take 6 c) \<in> lexord byte_less"
  shows "(uuid_text b, uuid_text c) \<in> lexord char_less"
proof -
  have split: "take 6 x = take 4 x @ take 2 (drop 4 x)" for x :: "u8 list"
    using take_add [of 4 2 x] by simp
  show ?thesis
  proof (cases "take 4 b = take 4 c")
    case True
    then have "(take 2 (drop 4 b), take 2 (drop 4 c)) \<in> lexord byte_less"
      using assms(3) byte_less_irrefl unfolding split by (metis lexord_append_leftD)
    then have "(hex_encode (take 2 (drop 4 b)), hex_encode (take 2 (drop 4 c))) \<in> lexord char_less"
      using assms(1,2) by (intro hex_encode_less) simp_all
    then show ?thesis
      unfolding uuid_text_def True using assms(1,2) by (intro lexord_append_leftI lexord_sufI) simp_all
  next
    case False
    then have "(take 4 b, take 4 c) \<in> lexord byte_less"
      using assms unfolding split by (intro lexord_sufE [OF assms(3) [unfolded split]]) simp_all
    then have "(hex_encode (take 4 b), hex_encode (take 4 c)) \<in> lexord char_less"
      using assms(1,2) by (intro hex_encode_less) simp_all
    then show ?thesis
      unfolding uuid_text_def using assms(1,2) by (intro lexord_sufI) simp_all
  qed
qed

text \<open>
  Identifiers sort by receive time.  Of two frames received in different milliseconds
  (between 1970 and the year 10889, where 48 bits end), the earlier one's identifier is the
  smaller string, whatever the random bytes.
\<close>

theorem uuid_v7_ordered:
  assumes "0 \<le> unix_milli t" "unix_milli t < unix_milli t'" "unix_milli t' < 2 ^ 48"
    and "uuid_v7 random t = Some u" and "uuid_v7 random' t' = Some u'"
  shows "(u, u') \<in> lexord char_less"
proof -
  define m m' where "m = nat (unix_milli t)" and "m' = nat (unix_milli t')"
  have less: "m < m'" "m' < 256 ^ 6" using assms(1-3) by (simp_all add: m_def m'_def)
  obtain r r' where u: "u = uuid_text (uuid_bytes r (word_of_int (unix_milli t)))"
    "u' = uuid_text (uuid_bytes r' (word_of_int (unix_milli t')))"
    using assms(4,5) by (auto simp: uuid_v7_def split: option.splits)
  have unat: "unat (word_of_int k :: u64) = nat k" if "0 \<le> k" "k < 2 ^ 48" for k
    using that by (simp add: unat_eq_nat_uint uint_word_of_int)
  have "take 6 (uuid_bytes x ms) = be_bytes 6 (unat ms)" for x ms
    by (subst uuid_bytes_be) (simp add: be_bytes_6)
  then show ?thesis
    unfolding u using be_bytes_less [OF less] assms(1-3)
    by (intro uuid_text_less) (simp_all add: unat m_def m'_def, simp_all add: uuid_bytes_eq)
qed

section \<open>The entry\<close>

definition entry_ok :: "log_entry \<Rightarrow> bool" where
  "entry_ok e \<longleftrightarrow>
     uuid_shape (le_id e) \<and> le_tenant_id e \<noteq> [] \<and> valid_utf8 (le_message e) \<and> valid_utf8 (le_raw_message e)
     \<and> le_schema_version e = 1
     \<and> (case (le_priority e, le_facility e, le_severity e) of
          (Some p, Some f, Some s) \<Rightarrow>
            unat p = 8 * unat f + unat s \<and> le_parse_status e = ParseStatusParsed
            \<and> unat f < length facility_names \<and> le_facility_name e = facility_names ! unat f
            \<and> unat s < length severity_names \<and> le_severity_name e = severity_names ! unat s
        | (None, None, None) \<Rightarrow>
            le_facility_name e = [] \<and> le_severity_name e = []
            \<and> le_parse_status e = ParseStatusUnknown \<and> le_timestamp e = le_received_at e
        | _ \<Rightarrow> False)"

lemma name_tables: "length facility_names = 24" "length severity_names = 8"
  by (simp_all add: facility_names_def severity_names_def)

lemma normalize_event_ok:
  assumes "normalize_entry (Some r) frm ev = Some e" and "event_ok (fr_received_at frm) ev"
    and "uuid_v7 (Some r) (fr_received_at frm) = Some i" and "uuid_shape i"
  shows "entry_ok e"
proof -
  have f: "ev_priority ev = None \<and> ev_facility ev = None \<and> ev_severity ev = None \<and> ev_format ev = ''unknown''
        \<and> ev_timestamp ev = fr_received_at frm
      \<or> (\<exists>p f s. ev_priority ev = Some p \<and> ev_facility ev = Some f \<and> ev_severity ev = Some s
         \<and> unat p = 8 * unat f + unat s \<and> unat f < 24 \<and> unat s < 8 \<and> ev_format ev \<noteq> ''unknown'')"
    using assms(2) by (auto simp: event_ok_def split: option.splits)
  note valid = to_valid_utf8_valid [OF valid_replacement_char]
  from f show ?thesis
    using assms(1,3,4)
    by (elim disjE exE conjE)
      (auto simp: normalize_entry_def entry_ok_def valid schema_version_def name_of_def name_tables
        split: if_splits)
qed

text \<open>
  C35: what is stored for a frame is well formed.  Whenever the configured parser accepts the
  payload and the random source works, normalization succeeds, and the entry has a version
  7 UUID, a tenant, valid UTF-8 in the message and the raw message, facility and severity
  that make up the priority with their names from the tables, or none of the three with the
  status unknown and the receive time.
\<close>

theorem parsed_entry_ok:
  assumes "configured \<in> {[], ''auto'', ''rfc3164'', ''rfc5424''}"
    and "registry_parse new_registry configured (fr_payload frm) (fr_received_at frm) loc = Inr ev"
  shows "\<exists>e. normalize_entry (Some r) frm ev = Some e \<and> entry_ok e"
proof -
  obtain i where i: "uuid_v7 (Some r) (fr_received_at frm) = Some i" "uuid_shape i"
    using uuid_shape_bytes by (auto simp: uuid_v7_def)
  then obtain e where e: "normalize_entry (Some r) frm ev = Some e" by (simp add: normalize_entry_def)
  moreover have "entry_ok e"
    using e registry_event_ok [OF assms] i by (rule normalize_event_ok)
  ultimately show ?thesis by blast
qed

section \<open>Witnesses\<close>

theorem uuid_v7_ordered_witness:
  "\<exists>u u'. uuid_v7 (Some (\<lambda>_. 0xFF)) 1700000000123000000 = Some u
     \<and> uuid_v7 (Some (\<lambda>_. 0)) 1700000000124000000 = Some u' \<and> (u, u') \<in> lexord char_less"
  using uuid_v7_ordered [of 1700000000123000000 1700000000124000000 "Some (\<lambda>_. 0xFF)" _ "Some (\<lambda>_. 0)"]
  by (simp add: unix_milli_def uuid_v7_def)

theorem parsed_entry_ok_witness:
  "\<exists>ev e. registry_parse new_registry ''auto'' ''<165>1 - h app - - - hi'' 7 None = Inr ev
     \<and> normalize_entry (Some (\<lambda>_. 0)) \<lparr>fr_payload = ''<165>1 - h app - - - hi'', fr_received_at = 7,
          fr_tenant_id = [], fr_source_id = ''s'', fr_source_name = ''s'', fr_protocol = ''udp'',
          fr_source_ip = ''10.0.0.1'', fr_source_port = 514\<rparr> ev = Some e \<and> entry_ok e"
proof -
  let ?frm = "\<lparr>fr_payload = ''<165>1 - h app - - - hi'', fr_received_at = 7,
          fr_tenant_id = [], fr_source_id = ''s'', fr_source_name = ''s'', fr_protocol = ''udp'',
          fr_source_ip = ''10.0.0.1'', fr_source_port = 514\<rparr>"
  have "case registry_parse new_registry ''auto'' ''<165>1 - h app - - - hi'' 7 None of
          Inl _ \<Rightarrow> False | Inr e \<Rightarrow> True"
    by code_simp
  then obtain ev where "registry_parse new_registry ''auto'' ''<165>1 - h app - - - hi'' 7 None = Inr ev"
    by (auto split: sum.splits)
  then show ?thesis using parsed_entry_ok [of "''auto''" ?frm None ev "\<lambda>_. 0"] by auto
qed

end
