(* ===== verification/Metrics.thy ===== *)
theory Metrics
  imports Go_Time
begin

text \<open>
  \<^verbatim>\<open>backend/internal/metrics/metrics.go\<close> and \<^verbatim>\<open>http.go\<close>: the counters, gauges and histograms of the
  program, and what its code does to them.  Of the Prometheus library this uses that a counter
  adds up what it is given, that a gauge holds what it was set to and moves by what it is given,
  and that a histogram takes in its observations; how a histogram sorts them into buckets is left
  to the library, and here it keeps them all.
\<close>

section \<open>Vectors\<close>

text \<open>A \<^verbatim>\<open>CounterVec\<close> or \<^verbatim>\<open>GaugeVec\<close> maps label values to numbers; absent labels count zero.\<close>

type_synonym 'l counter = "('l \<times> int) list"

fun counter_add :: "'l \<Rightarrow> int \<Rightarrow> 'l counter \<Rightarrow> 'l counter" where
  "counter_add l n [] = [(l, n)]"
| "counter_add l n ((k, v) # c) = (if k = l then (k, v + n) # c else (k, v) # counter_add l n c)"

definition counter_total :: "('l \<Rightarrow> bool) \<Rightarrow> 'l counter \<Rightarrow> int" where
  "counter_total sel c = sum_list (map snd (filter (\<lambda>e. sel (fst e)) c))"

lemma counter_total_add [simp]:
  "counter_total sel (counter_add l n c) = counter_total sel c + (if sel l then n else 0)"
  by (induction l n c rule: counter_add.induct) (simp_all add: counter_total_def)

lemma counter_total_nil [simp]: "counter_total sel [] = 0"
  by (simp add: counter_total_def)

text \<open>A \<^verbatim>\<open>HistogramVec\<close>: its observations, the latest first.\<close>

type_synonym 'l histogram = "('l \<times> duration) list"

definition histogram_observe :: "'l \<Rightarrow> duration \<Rightarrow> 'l histogram \<Rightarrow> 'l histogram" where
  "histogram_observe l d h = (l, d) # h"

definition histogram_count :: "('l \<Rightarrow> bool) \<Rightarrow> 'l histogram \<Rightarrow> int" where
  "histogram_count sel h = int (length (filter (\<lambda>e. sel (fst e)) h))"

lemma histogram_count_simps [simp]:
  "histogram_count sel [] = 0"
  "histogram_count sel (histogram_observe l d h) = histogram_count sel h + (if sel l then 1 else 0)"
  by (simp_all add: histogram_count_def histogram_observe_def)

section \<open>The metrics of the pipeline\<close>

record metrics =
  mt_received :: "bytes counter"
  mt_accepted :: "bytes counter"
  mt_parsed :: "bytes counter"
  mt_parse_errors :: "(bytes \<times> bytes) counter"
  mt_stored :: "bytes counter"
  mt_dropped :: "(bytes \<times> bytes) counter"
  mt_retried :: "bytes counter"
  mt_bytes_received :: "bytes counter"
  mt_bytes_stored :: int
  mt_queue_events :: int
  mt_queue_bytes :: int
  mt_active_connections :: "bytes counter"
  mt_storage_duration :: "(bytes \<times> bytes) histogram"

definition new_metrics :: metrics where
  "new_metrics = \<lparr>mt_received = [], mt_accepted = [], mt_parsed = [], mt_parse_errors = [], mt_stored = [],
     mt_dropped = [], mt_retried = [], mt_bytes_received = [], mt_bytes_stored = 0,
     mt_queue_events = 0, mt_queue_bytes = 0, mt_active_connections = [], mt_storage_duration = []\<rparr>"

abbreviation stored_total :: "metrics \<Rightarrow> int" where
  "stored_total m \<equiv> counter_total (\<lambda>_. True) (mt_stored m)"

abbreviation retried_total :: "metrics \<Rightarrow> int" where
  "retried_total m \<equiv> counter_total (\<lambda>_. True) (mt_retried m)"

definition drop_event :: "bytes \<Rightarrow> bytes \<Rightarrow> int \<Rightarrow> metrics \<Rightarrow> metrics" where
  "drop_event stage reason n m = m\<lparr>mt_dropped := counter_add (stage, reason) n (mt_dropped m)\<rparr>"

definition receive_event :: "bytes \<Rightarrow> int \<Rightarrow> metrics \<Rightarrow> metrics" where
  "receive_event protocol n m =
     m\<lparr>mt_received := counter_add protocol 1 (mt_received m),
       mt_bytes_received := counter_add protocol n (mt_bytes_received m)\<rparr>"

text \<open>One attempt to append: its duration under its outcome, and what it stored or that it is tried again.\<close>

definition time_append :: "bytes \<Rightarrow> bytes \<Rightarrow> duration \<Rightarrow> metrics \<Rightarrow> metrics" where
  "time_append backend outcome d m =
     m\<lparr>mt_storage_duration := histogram_observe (backend, outcome) d (mt_storage_duration m)\<rparr>"

definition store_event :: "bytes \<Rightarrow> int \<Rightarrow> int \<Rightarrow> metrics \<Rightarrow> metrics" where
  "store_event backend accepted n m =
     m\<lparr>mt_stored := counter_add backend accepted (mt_stored m), mt_bytes_stored := mt_bytes_stored m + n\<rparr>"

definition retry_event :: "bytes \<Rightarrow> metrics \<Rightarrow> metrics" where
  "retry_event backend m = m\<lparr>mt_retried := counter_add backend 1 (mt_retried m)\<rparr>"

lemma time_append_simps [simp]:
  "mt_stored (time_append b out d m) = mt_stored m" "mt_retried (time_append b out d m) = mt_retried m"
  "mt_dropped (time_append b out d m) = mt_dropped m" "mt_accepted (time_append b out d m) = mt_accepted m"
  "mt_received (time_append b out d m) = mt_received m" "mt_bytes_stored (time_append b out d m) = mt_bytes_stored m"
  "mt_storage_duration (time_append b out d m) = histogram_observe (b, out) d (mt_storage_duration m)"
  by (simp_all add: time_append_def)

lemma store_event_simps [simp]:
  "mt_stored (store_event b a n m) = counter_add b a (mt_stored m)" "mt_retried (store_event b a n m) = mt_retried m"
  "mt_dropped (store_event b a n m) = mt_dropped m" "mt_accepted (store_event b a n m) = mt_accepted m"
  "mt_received (store_event b a n m) = mt_received m" "mt_storage_duration (store_event b a n m) = mt_storage_duration m"
  by (simp_all add: store_event_def)

lemma retry_event_simps [simp]:
  "mt_stored (retry_event b m) = mt_stored m" "mt_retried (retry_event b m) = counter_add b 1 (mt_retried m)"
  "mt_dropped (retry_event b m) = mt_dropped m" "mt_accepted (retry_event b m) = mt_accepted m"
  "mt_received (retry_event b m) = mt_received m" "mt_storage_duration (retry_event b m) = mt_storage_duration m"
  by (simp_all add: retry_event_def)

section \<open>The metrics of the API\<close>

record http_metrics =
  hm_requests :: "(bytes \<times> bytes \<times> bytes) counter"
  hm_duration :: "(bytes \<times> bytes) histogram"

definition new_http :: http_metrics where
  "new_http = \<lparr>hm_requests = [], hm_duration = []\<rparr>"

definition observe :: "bytes \<Rightarrow> bytes \<Rightarrow> int \<Rightarrow> duration \<Rightarrow> http_metrics \<Rightarrow> http_metrics" where
  "observe verb route0 status d m =
     (let route = (if route0 = [] then ''unmatched'' else route0) in
      m\<lparr>hm_requests := counter_add (verb, route, itoa status) 1 (hm_requests m),
        hm_duration := histogram_observe (verb, route) d (hm_duration m)\<rparr>)"

end
