(* ===== verification/Pipeline.thy ===== *)
theory Pipeline
  imports Manager Normalizer Metrics
begin

text \<open>
  \<^verbatim>\<open>backend/internal/ingestion/pipeline.go\<close>: admission, the parse workers, the channel between
  them and the batch worker, batching, storage with retries, and the two ways to stop.  The
  goroutines are interleaved: an event says which of them takes its next step, and
  \<open>pipeline_step\<close> gives the state after it, or none if the step is not enabled.  What the
  program does not control (wake-ups, random numbers, the storage backend) is part of the
  events.

  \<open>Pipeline_Correct\<close> proves what the steps keep and what the two ways to stop leave behind.
\<close>

section \<open>The pipeline\<close>

datatype worker = W_idle | W_item frame | W_send log_entry | W_done

fun worker_idle :: "worker \<Rightarrow> bool" where
  "worker_idle W_idle \<longleftrightarrow> True"
| "worker_idle _ \<longleftrightarrow> False"

fun worker_done :: "worker \<Rightarrow> bool" where
  "worker_done W_done \<longleftrightarrow> True"
| "worker_done _ \<longleftrightarrow> False"

lemma worker_idle_iff [simp]: "worker_idle w \<longleftrightarrow> w = W_idle"
  by (cases w) simp_all

lemma worker_done_iff: "worker_done w \<longleftrightarrow> w = W_done"
  by (cases w) simp_all

lemma workers_done [simp]: "list_all worker_done ws \<longleftrightarrow> list_all (\<lambda>w. w = W_done) ws"
  by (simp add: worker_done_iff list_all_iff)

datatype batcher = Batch_running | Batch_draining | Batch_done

text \<open>
  The state.  \<open>pl_waiting\<close> holds the frames of the \<^verbatim>\<open>Submit\<close> calls that are inside
  \<^verbatim>\<open>enqueue\<close>, \<open>pl_parsed\<close> the buffered channel, \<open>pl_cancelled\<close> is the end of the workers' context.
\<close>

record pipeline =
  pl_cfg :: ingestion_config
  pl_locations :: "bytes \<rightharpoonup> location"
  pl_parser_names :: "bytes \<rightharpoonup> bytes"
  pl_queue :: frame_queue
  pl_waiting :: "frame list"
  pl_accepting :: bool
  pl_cancelled :: bool
  pl_workers :: "worker list"
  pl_parsed :: "log_entry list"
  pl_parsed_closed :: bool
  pl_batch :: "log_entry list"
  pl_batch_bytes :: int
  pl_batcher :: batcher
  pl_metrics :: metrics
  pl_backend_name :: bytes

definition parsed_capacity :: nat where
  "parsed_capacity = 64"

fun load_locations ::
  "(bytes \<Rightarrow> location option) \<Rightarrow> source_config list \<Rightarrow> (bytes \<rightharpoonup> location) \<Rightarrow> (bytes \<rightharpoonup> location) option" where
  "load_locations load_location [] m = Some m"
| "load_locations load_location (s # ss) m =
     (case load_location (sc_timezone s) of
        None \<Rightarrow> None
      | Some loc \<Rightarrow> load_locations load_location ss (m(sc_id s \<mapsto> loc)))"

definition new_pipeline :: "(bytes \<Rightarrow> location option) \<Rightarrow> ingestion_config \<Rightarrow> bytes \<Rightarrow> pipeline option" where
  "new_pipeline load_location cfg backend_name =
     map_option (\<lambda>locs.
       \<lparr>pl_cfg = cfg, pl_locations = locs,
        pl_parser_names = fold (\<lambda>s m. m(sc_id s \<mapsto> sc_parser s)) (ic_sources cfg) Map.empty,
        pl_queue = new_frame_queue (qc_max_events (ic_queue cfg)) (qc_max_bytes (ic_queue cfg)),
        pl_waiting = [], pl_accepting = False, pl_cancelled = False, pl_workers = [], pl_parsed = [],
        pl_parsed_closed = False, pl_batch = [], pl_batch_bytes = 0, pl_batcher = Batch_running,
        pl_metrics = new_metrics, pl_backend_name = backend_name\<rparr>)
       (load_locations load_location (ic_sources cfg) Map.empty)"

definition start_pipeline :: "nat \<Rightarrow> pipeline \<Rightarrow> pipeline" where
  "start_pipeline workers p =
     p\<lparr>pl_accepting := True, pl_workers := replicate (max 1 workers) W_idle\<rparr>"

definition update_queue_metrics :: "pipeline \<Rightarrow> pipeline" where
  "update_queue_metrics p =
     p\<lparr>pl_metrics := (pl_metrics p)\<lparr>mt_queue_events := fst (usage (pl_queue p)),
                                  mt_queue_bytes := snd (usage (pl_queue p))\<rparr>\<rparr>"

definition on_metrics :: "(metrics \<Rightarrow> metrics) \<Rightarrow> pipeline \<Rightarrow> pipeline" where
  "on_metrics f p = p\<lparr>pl_metrics := f (pl_metrics p)\<rparr>"

subsection \<open>Admission\<close>

text \<open>
  \<^verbatim>\<open>Submit\<close> in two parts: up to the call of \<^verbatim>\<open>enqueue\<close> (whether it goes on to it), and from
  there on, \<^term>\<open>None\<close> while the enqueue is waiting.
\<close>

definition submit_begin :: "pipeline \<Rightarrow> frame \<Rightarrow> pipeline \<times> bool" where
  "submit_begin p0 frm =
     (let p = on_metrics (receive_event (fr_protocol frm) (frame_size frm)) p0 in
      if \<not> pl_accepting p then (on_metrics (drop_event ''admission'' ''draining'' 1) p, False)
      else (p, True))"

definition submit_finish :: "pipeline \<Rightarrow> frame \<Rightarrow> wake list \<Rightarrow> (pipeline \<times> (queue_error + unit)) option" where
  "submit_finish p frm ws =
     (case enqueue (pl_queue p) frm ws of
        (q, Waits) \<Rightarrow> None
      | (q, Returns (Inl e)) \<Rightarrow>
          Some (on_metrics (drop_event ''admission''
                  (if e = ErrQueueClosed then ''closed'' else ''full'') 1) (p\<lparr>pl_queue := q\<rparr>), Inl e)
      | (q, Returns (Inr _)) \<Rightarrow>
          Some (update_queue_metrics (on_metrics (\<lambda>m. m\<lparr>mt_accepted :=
                  counter_add (fr_protocol frm) 1 (mt_accepted m)\<rparr>) (p\<lparr>pl_queue := q\<rparr>)), Inr ()))"

definition submit :: "pipeline \<Rightarrow> frame \<Rightarrow> wake list \<Rightarrow> (pipeline \<times> (queue_error + unit)) option" where
  "submit p frm ws =
     (case submit_begin p frm of
        (p', True) \<Rightarrow> submit_finish p' frm ws
      | (p', False) \<Rightarrow> Some (p', Inl ErrQueueClosed))"

definition reject :: "pipeline \<Rightarrow> bytes \<Rightarrow> bytes \<Rightarrow> int \<Rightarrow> pipeline" where
  "reject p protocol reason n =
     on_metrics (drop_event ''admission'' reason 1) (on_metrics (receive_event protocol n) p)"

text \<open>The two parts of \<^verbatim>\<open>Stop\<close>: at its start, and when its deadline passes first.\<close>

definition stop_pipeline :: "pipeline \<Rightarrow> pipeline" where
  "stop_pipeline p = p\<lparr>pl_accepting := False, pl_queue := close_queue (pl_queue p)\<rparr>"

definition cancel_pipeline :: "pipeline \<Rightarrow> pipeline" where
  "cancel_pipeline p = p\<lparr>pl_cancelled := True\<rparr>"

subsection \<open>Workers\<close>

definition set_worker :: "nat \<Rightarrow> worker \<Rightarrow> pipeline \<Rightarrow> pipeline" where
  "set_worker i w p = p\<lparr>pl_workers := (pl_workers p)[i := w]\<rparr>"

text \<open>\<^verbatim>\<open>dequeue\<close> by worker \<open>i\<close>; waiting, it sees the end of its context only if there is one.\<close>

definition worker_dequeue :: "nat \<Rightarrow> pipeline \<Rightarrow> pipeline option" where
  "worker_dequeue i p =
     (case dequeue_loop (pl_queue p) (if pl_cancelled p then [Wake_ctx] else []) of
        (q, Waits) \<Rightarrow> None
      | (q, Returns (Inl e)) \<Rightarrow> Some (set_worker i W_done (p\<lparr>pl_queue := q\<rparr>))
      | (q, Returns (Inr item)) \<Rightarrow>
          Some (update_queue_metrics (set_worker i (W_item (qf_frame item)) (p\<lparr>pl_queue := q\<rparr>))))"

definition parser_name :: "pipeline \<Rightarrow> frame \<Rightarrow> bytes" where
  "parser_name p frm =
     (case pl_parser_names p (fr_source_id frm) of
        None \<Rightarrow> ''auto''
      | Some n \<Rightarrow> if n = [] then ''auto'' else n)"

definition worker_parse :: "nat \<Rightarrow> (nat \<Rightarrow> u8) option \<Rightarrow> frame \<Rightarrow> pipeline \<Rightarrow> pipeline" where
  "worker_parse i random frm p =
     (case registry_parse new_registry (parser_name p frm) (fr_payload frm) (fr_received_at frm)
             (pl_locations p (fr_source_id frm)) of
        Inl _ \<Rightarrow>
          set_worker i W_idle (on_metrics (\<lambda>m. drop_event ''parser'' ''invalid'' 1
            (m\<lparr>mt_parse_errors := counter_add (parser_name p frm, ''invalid'') 1 (mt_parse_errors m)\<rparr>)) p)
      | Inr event \<Rightarrow>
          (case normalize_entry random frm event of
             None \<Rightarrow> set_worker i W_idle (on_metrics (drop_event ''normalization'' ''internal'' 1) p)
           | Some entry \<Rightarrow>
               set_worker i (W_send entry) (on_metrics (\<lambda>m.
                 m\<lparr>mt_parsed := counter_add (le_format entry) 1 (mt_parsed m)\<rparr>) p)))"

definition worker_send :: "nat \<Rightarrow> log_entry \<Rightarrow> pipeline \<Rightarrow> pipeline option" where
  "worker_send i entry p =
     (if length (pl_parsed p) < parsed_capacity
      then Some (set_worker i W_idle (p\<lparr>pl_parsed := pl_parsed p @ [entry]\<rparr>))
      else None)"

definition worker_abort :: "nat \<Rightarrow> pipeline \<Rightarrow> pipeline option" where
  "worker_abort i p =
     (if pl_cancelled p
      then Some (set_worker i W_done (on_metrics (drop_event ''normalization'' ''shutdown'' 1) p))
      else None)"

text \<open>The goroutine that waits for the workers and closes the channel, once.\<close>

definition close_parsed :: "pipeline \<Rightarrow> pipeline option" where
  "close_parsed p =
     (if list_all worker_done (pl_workers p) \<and> \<not> pl_parsed_closed p
      then Some (p\<lparr>pl_parsed_closed := True\<rparr>) else None)"

subsection \<open>Storage with retries\<close>

text \<open>
  What \<^verbatim>\<open>appendWithRetry\<close> meets at each attempt: the result of the backend's \<^verbatim>\<open>Append\<close>, the time it took,
  whether the context is done afterwards, whether the wait ended by its timer, and the
  random number, which \<^verbatim>\<open>rand.Int64N\<close> reduces to its range.
\<close>

datatype append_result = Append_ok (ar_accepted: int) (ar_bytes: int) | Append_err

record retry_env =
  re_append :: "int \<Rightarrow> log_entry list \<Rightarrow> append_result"
  re_elapsed :: "int \<Rightarrow> duration"
  re_ctx_done :: "int \<Rightarrow> bool"
  re_slept :: "int \<Rightarrow> bool"
  re_random :: "int \<Rightarrow> int"

definition backoff_wait :: "duration \<Rightarrow> int \<Rightarrow> duration" where
  "backoff_wait backoff r = wrap64 (backoff + r mod max 1 (backoff div 2))"

text \<open>The loop from an attempt on; the waits are listed for the sake of the theorems.\<close>

function append_loop ::
  "bytes \<Rightarrow> retry_config \<Rightarrow> retry_env \<Rightarrow> log_entry list \<Rightarrow> int \<Rightarrow> duration \<Rightarrow> metrics \<Rightarrow> metrics \<times> duration list" where
  "append_loop name cfg env batch attempt backoff m =
     (if rc_max_attempts cfg < attempt then (m, [])
      else
        (case re_append env attempt batch of
           Append_ok accepted n \<Rightarrow> (store_event name accepted n (time_append name ''success'' (re_elapsed env attempt) m), [])
         | Append_err \<Rightarrow>
             (let m1 = time_append name ''error'' (re_elapsed env attempt) m in
              if attempt = rc_max_attempts cfg \<or> re_ctx_done env attempt
              then (drop_event ''storage'' ''retry_exhausted'' (int (length batch)) m1, [])
              else
                (let backoff' = (if re_slept env attempt
                                 then min (wrap64 (backoff * 2)) (rc_max_backoff cfg) else backoff);
                     (m', waits) = append_loop name cfg env batch (attempt + 1) backoff' (retry_event name m1)
                 in (m', backoff_wait backoff (re_random env attempt) # waits)))))"
  by pat_completeness auto
termination
  by (relation "measure (\<lambda>(name, cfg, env, batch, attempt, backoff, m). nat (rc_max_attempts cfg + 1 - attempt))") auto

declare append_loop.simps [simp del]

definition append_with_retry :: "retry_env \<Rightarrow> log_entry list \<Rightarrow> pipeline \<Rightarrow> pipeline" where
  "append_with_retry env batch p =
     on_metrics (\<lambda>m. fst (append_loop (pl_backend_name p) (ic_retry (pl_cfg p)) env batch 1
                          (rc_initial_backoff (ic_retry (pl_cfg p))) m)) p"

subsection \<open>Batching\<close>

definition entry_size :: "log_entry \<Rightarrow> int" where
  "entry_size e = int (length (le_raw_message e) + length (le_message e))"

text \<open>\<^verbatim>\<open>flush\<close>.\<close>

definition flush :: "retry_env \<Rightarrow> pipeline \<Rightarrow> pipeline" where
  "flush env p =
     (if pl_batch p = [] then p
      else (append_with_retry env (pl_batch p) p)\<lparr>pl_batch := [], pl_batch_bytes := 0\<rparr>)"

text \<open>An entry arrives at the batch worker: flush before it, append it, flush after it.\<close>

definition add_entry :: "retry_env \<Rightarrow> retry_env \<Rightarrow> log_entry \<Rightarrow> pipeline \<Rightarrow> pipeline" where
  "add_entry env1 env2 entry p =
     (let b = ic_batch (pl_cfg p); n = entry_size entry;
          p1 = (if pl_batch p \<noteq> []
                   \<and> (bc_max_events b \<le> int (length (pl_batch p)) \<or> bc_max_bytes b < pl_batch_bytes p + n)
                then flush env1 p else p);
          p2 = p1\<lparr>pl_batch := pl_batch p1 @ [entry], pl_batch_bytes := pl_batch_bytes p1 + n\<rparr>
      in if bc_max_events b \<le> int (length (pl_batch p2)) \<or> bc_max_bytes b \<le> pl_batch_bytes p2
         then flush env2 p2 else p2)"

definition batch_receive :: "retry_env \<Rightarrow> retry_env \<Rightarrow> pipeline \<Rightarrow> pipeline option" where
  "batch_receive env1 env2 p =
     (case (pl_batcher p, pl_parsed p) of
        (Batch_running, entry # rest) \<Rightarrow> Some (add_entry env1 env2 entry (p\<lparr>pl_parsed := rest\<rparr>))
      | (Batch_running, []) \<Rightarrow>
          if pl_parsed_closed p then Some ((flush env1 p)\<lparr>pl_batcher := Batch_done\<rparr>) else None
      | (Batch_draining, entry # rest) \<Rightarrow>
          Some (p\<lparr>pl_parsed := rest, pl_batch := pl_batch p @ [entry]\<rparr>)
      | (Batch_draining, []) \<Rightarrow>
          if pl_parsed_closed p then Some ((flush env1 p)\<lparr>pl_batcher := Batch_done\<rparr>) else None
      | (Batch_done, _) \<Rightarrow> None)"

definition batch_timer :: "retry_env \<Rightarrow> pipeline \<Rightarrow> pipeline option" where
  "batch_timer env p = (if pl_batcher p = Batch_running then Some (flush env p) else None)"

definition batch_cancel :: "pipeline \<Rightarrow> pipeline option" where
  "batch_cancel p =
     (if pl_batcher p = Batch_running \<and> pl_cancelled p then Some (p\<lparr>pl_batcher := Batch_draining\<rparr>) else None)"

subsection \<open>Steps\<close>

datatype pipeline_event =
    Ev_submit frame
  | Ev_enqueue nat "wake list"
  | Ev_reject bytes bytes int
  | Ev_stop
  | Ev_cancel
  | Ev_dequeue nat
  | Ev_parse nat "(nat \<Rightarrow> u8) option"
  | Ev_send nat
  | Ev_abort nat
  | Ev_close_parsed
  | Ev_receive retry_env retry_env
  | Ev_timer retry_env
  | Ev_batch_cancel

fun pipeline_step :: "pipeline_event \<Rightarrow> pipeline \<Rightarrow> pipeline option" where
  "pipeline_step (Ev_submit frm) p =
     (case submit_begin p frm of
        (p', go) \<Rightarrow> Some (if go then p'\<lparr>pl_waiting := pl_waiting p' @ [frm]\<rparr> else p'))"
| "pipeline_step (Ev_enqueue i ws) p =
     (if i < length (pl_waiting p)
      then map_option (\<lambda>(p', _). p'\<lparr>pl_waiting := take i (pl_waiting p) @ drop (Suc i) (pl_waiting p)\<rparr>)
             (submit_finish p (pl_waiting p ! i) ws)
      else None)"
| "pipeline_step (Ev_reject protocol reason n) p = Some (reject p protocol reason n)"
| "pipeline_step Ev_stop p = Some (stop_pipeline p)"
| "pipeline_step Ev_cancel p = Some (cancel_pipeline p)"
| "pipeline_step (Ev_dequeue i) p =
     (if i < length (pl_workers p) \<and> worker_idle (pl_workers p ! i) then worker_dequeue i p else None)"
| "pipeline_step (Ev_parse i random) p =
     (if i < length (pl_workers p)
      then (case pl_workers p ! i of W_item frm \<Rightarrow> Some (worker_parse i random frm p) | _ \<Rightarrow> None) else None)"
| "pipeline_step (Ev_send i) p =
     (if i < length (pl_workers p)
      then (case pl_workers p ! i of W_send entry \<Rightarrow> worker_send i entry p | _ \<Rightarrow> None) else None)"
| "pipeline_step (Ev_abort i) p =
     (if i < length (pl_workers p)
      then (case pl_workers p ! i of W_send entry \<Rightarrow> worker_abort i p | _ \<Rightarrow> None) else None)"
| "pipeline_step Ev_close_parsed p = close_parsed p"
| "pipeline_step (Ev_receive env1 env2) p = batch_receive env1 env2 p"
| "pipeline_step (Ev_timer env) p = batch_timer env p"
| "pipeline_step Ev_batch_cancel p = batch_cancel p"

fun pipeline_run :: "pipeline_event list \<Rightarrow> pipeline \<Rightarrow> pipeline option" where
  "pipeline_run [] p = Some p"
| "pipeline_run (e # es) p = Option.bind (pipeline_step e p) (pipeline_run es)"

end
