(* ===== verification/Batching.thy ===== *)
theory Batching
  imports Pipeline
begin

text \<open>
  The batch worker of \<^verbatim>\<open>pipeline.go\<close> in detail: how the entries that arrive are cut into
  batches, and how \<^verbatim>\<open>appendWithRetry\<close> spaces its attempts.
\<close>

section \<open>Batches\<close>

definition batch_total :: "log_entry list \<Rightarrow> int" where
  "batch_total es = sum_list (map entry_size es)"

lemma batch_total_simps [simp]:
  "batch_total [] = 0" "batch_total (es @ fs) = batch_total es + batch_total fs" "batch_total [e] = entry_size e"
  by (simp_all add: batch_total_def)

text \<open>The promise for a batch: within both limits, or a single entry.\<close>

definition batch_bounded :: "batch_config \<Rightarrow> log_entry list \<Rightarrow> bool" where
  "batch_bounded b es \<longleftrightarrow>
     es \<noteq> [] \<and> int (length es) \<le> bc_max_events b \<and> (batch_total es \<le> bc_max_bytes b \<or> length es = 1)"

text \<open>The batch being collected is below both limits, and its size is known.\<close>

definition collecting :: "pipeline \<Rightarrow> bool" where
  "collecting p \<longleftrightarrow>
     pl_batch_bytes p = batch_total (pl_batch p)
     \<and> (pl_batch p \<noteq> [] \<longrightarrow>
          int (length (pl_batch p)) < bc_max_events (ic_batch (pl_cfg p))
          \<and> batch_total (pl_batch p) < bc_max_bytes (ic_batch (pl_cfg p)))"

text \<open>Hand batches to storage, one after the other.\<close>

fun deliver :: "(retry_env \<times> log_entry list) list \<Rightarrow> pipeline \<Rightarrow> pipeline" where
  "deliver [] p = p"
| "deliver ((env, es) # rest) p = deliver rest (append_with_retry env es p)"

text \<open>Entries arrive, each with what storage does if it causes a flush before or after it.\<close>

fun arrivals :: "(retry_env \<times> retry_env \<times> log_entry) list \<Rightarrow> pipeline \<Rightarrow> pipeline" where
  "arrivals [] p = p"
| "arrivals ((env1, env2, x) # rest) p = arrivals rest (add_entry env1 env2 x p)"

abbreviation with_batch :: "log_entry list \<Rightarrow> pipeline \<Rightarrow> pipeline" where
  "with_batch es p \<equiv> p\<lparr>pl_batch := es, pl_batch_bytes := batch_total es\<rparr>"

lemma append_with_retry_simps [simp]:
  "pl_cfg (append_with_retry env es p) = pl_cfg p" "pl_batch (append_with_retry env es p) = pl_batch p"
  "append_with_retry env es (with_batch fs p) = with_batch fs (append_with_retry env es p)"
  by (simp_all add: append_with_retry_def on_metrics_def)

lemma deliver_simps [simp]:
  "pl_cfg (deliver bs p) = pl_cfg p"
  "deliver bs (with_batch es p) = with_batch es (deliver bs p)"
  by (induction bs p rule: deliver.induct) simp_all

lemma deliver_append [simp]: "deliver (bs @ cs) p = deliver cs (deliver bs p)"
  by (induction bs p rule: deliver.induct) simp_all

lemma flush_deliver:
  "collecting p \<Longrightarrow> flush env p = with_batch [] (if pl_batch p = [] then p else deliver [(env, pl_batch p)] p)"
  by (simp add: flush_def collecting_def)

lemma collecting_with_batch:
  "collecting (with_batch es p) \<longleftrightarrow>
     (es \<noteq> [] \<longrightarrow> int (length es) < bc_max_events (ic_batch (pl_cfg p)) \<and> batch_total es < bc_max_bytes (ic_batch (pl_cfg p)))"
  by (simp add: collecting_def)

text \<open>One arrival, with at most one flush before the entry and one after it.\<close>

lemma add_entry_batches:
  assumes "collecting p" and "0 < bc_max_events (ic_batch (pl_cfg p))"
  shows "\<exists>bs rest. add_entry env1 env2 x p = with_batch rest (deliver bs p)
     \<and> concat (map snd bs) @ rest = pl_batch p @ [x] \<and> list_all (\<lambda>c. batch_bounded (ic_batch (pl_cfg p)) (snd c)) bs
     \<and> collecting (with_batch rest (deliver bs p))"
proof -
  let ?b = "ic_batch (pl_cfg p)" and ?bs = "pl_batch p"
  define pre where "pre \<longleftrightarrow> ?bs \<noteq> [] \<and>
     (bc_max_events ?b \<le> int (length ?bs) \<or> bc_max_bytes ?b < pl_batch_bytes p + entry_size x)"
  define before where "before = (if pre then [(env1, ?bs)] else [])"
  define new where "new = (if pre then [x] else ?bs @ [x])"
  define post where "post \<longleftrightarrow> bc_max_events ?b \<le> int (length new) \<or> bc_max_bytes ?b \<le> batch_total new"
  have c: "pl_batch_bytes p = batch_total ?bs"
    "?bs \<noteq> [] \<Longrightarrow> int (length ?bs) < bc_max_events ?b \<and> batch_total ?bs < bc_max_bytes ?b"
    using assms(1) by (simp_all add: collecting_def)
  have bounded: "batch_bounded ?b new" "list_all (\<lambda>c. batch_bounded ?b (snd c)) before"
    using assms(2) c by (auto simp: batch_bounded_def new_def before_def pre_def)
  have cat: "concat (map snd before) @ new = ?bs @ [x]" by (simp add: before_def new_def)
  have first: "(if pre then flush env1 p else p)\<lparr>pl_batch := pl_batch (if pre then flush env1 p else p) @ [x],
      pl_batch_bytes := pl_batch_bytes (if pre then flush env1 p else p) + entry_size x\<rparr>
     = with_batch new (deliver before p)"
    using c(1) by (simp add: flush_deliver [OF assms(1)] before_def new_def pre_def)
  have "add_entry env1 env2 x p =
      (if post then flush env2 (with_batch new (deliver before p)) else with_batch new (deliver before p))"
    unfolding add_entry_def Let_def pre_def [symmetric] first by (simp add: post_def)
  also have "\<dots> = (if post then with_batch [] (deliver (before @ [(env2, new)]) p) else with_batch new (deliver before p))"
    using bounded(1) by (simp add: flush_def batch_bounded_def)
  finally have eq: "add_entry env1 env2 x p = \<dots>" .
  show ?thesis
  proof (cases post)
    case True
    then show ?thesis
      using eq cat bounded
      by (intro exI [of _ "before @ [(env2, new)]"] exI [of _ "[]"]) (simp add: collecting_def)
  next
    case False
    then show ?thesis
      using eq cat bounded
      by (intro exI [of _ before] exI [of _ new]) (simp add: collecting_with_batch post_def)
  qed
qed


section \<open>Retries\<close>

lemma backoff_wait_bounds:
  assumes "0 < b" and "b < 2 ^ 61"
  shows "b \<le> backoff_wait b r" and "backoff_wait b r \<le> b + b div 2"
proof -
  have r: "0 \<le> r mod max 1 (b div 2)" "r mod max 1 (b div 2) < max 1 (b div 2)" by simp_all
  have le: "r mod max 1 (b div 2) \<le> b div 2"
  proof (cases "b div 2 = 0")
    case False
    then show ?thesis using r(2) assms(1) by linarith
  qed simp
  have "b + r mod max 1 (b div 2) < 2 ^ 63" using le assms by simp
  then have "backoff_wait b r = b + r mod max 1 (b div 2)"
    using assms(1) r(1) by (simp add: backoff_wait_def wrap64_small)
  then show "b \<le> backoff_wait b r" "backoff_wait b r \<le> b + b div 2" using r(1) le by simp_all
qed

text \<open>The backoff before retry \<open>k\<close>: doubled each time up to the maximum.\<close>

definition nominal_backoff :: "int \<Rightarrow> duration \<Rightarrow> nat \<Rightarrow> duration" where
  "nominal_backoff hi b k = (if k = 0 then b else min (b * 2 ^ k) hi)"

lemma nominal_backoff_Suc:
  "0 < b \<Longrightarrow> b \<le> hi \<Longrightarrow> nominal_backoff hi (min (b * 2) hi) k = nominal_backoff hi b (Suc k)"
proof (cases "b * 2 \<le> hi")
  case False
  assume "0 < b" "b \<le> hi"
  have one: "(1 :: int) \<le> 2 ^ k" by simp
  then have "hi * 1 \<le> hi * 2 ^ k" "b * 2 * 1 \<le> b * 2 * 2 ^ k"
    using \<open>0 < b\<close> \<open>b \<le> hi\<close> by (intro mult_left_mono; simp)+
  then show ?thesis using False by (simp add: nominal_backoff_def min_def)
qed (simp add: nominal_backoff_def mult.assoc)

abbreviation timed_total :: "metrics \<Rightarrow> int" where
  "timed_total m \<equiv> histogram_count (\<lambda>_. True) (mt_storage_duration m)"

lemma append_loop_waits:
  assumes "0 < b" and "b \<le> rc_max_backoff cfg" and "rc_max_backoff cfg < 2 ^ 61" and "\<And>a. re_slept env a"
    and "append_loop name cfg env es attempt b m = (m', waits)"
  shows "int (length waits) \<le> max 0 (rc_max_attempts cfg - attempt)
     \<and> retried_total m' = retried_total m + int (length waits)
     \<and> timed_total m' = timed_total m + int (length waits) + (if attempt \<le> rc_max_attempts cfg then 1 else 0)
     \<and> (\<forall>k < length waits. nominal_backoff (rc_max_backoff cfg) b k \<le> waits ! k
          \<and> waits ! k \<le> nominal_backoff (rc_max_backoff cfg) b k + nominal_backoff (rc_max_backoff cfg) b k div 2)"
  using assms
proof (induction name cfg env es attempt b m arbitrary: m' waits rule: append_loop.induct)
  case (1 name cfg env es attempt b m)
  let ?hi = "rc_max_backoff cfg" and ?b = "min (b * 2) (rc_max_backoff cfg)"
  let ?stop = "attempt = rc_max_attempts cfg \<or> re_ctx_done env attempt"
  note loop = append_loop.simps [of name cfg env es attempt b m]
  consider (over) "rc_max_attempts cfg < attempt" | (ok) a n where "\<not> rc_max_attempts cfg < attempt" "re_append env attempt es = Append_ok a n"
    | (stop) "\<not> rc_max_attempts cfg < attempt" "re_append env attempt es = Append_err" ?stop
    | (retry) "\<not> rc_max_attempts cfg < attempt" "re_append env attempt es = Append_err" "\<not> ?stop"
    by (cases "re_append env attempt es") blast+
  then show ?case
  proof cases
    case retry
    have w: "wrap64 (b * 2) = b * 2" using "1.prems"(1-3) by (intro wrap64_small) simp_all
    obtain ws where rec: "append_loop name cfg env es (attempt + 1) ?b (retry_event name (time_append name ''error'' (re_elapsed env attempt) m)) = (m', ws)"
      and waits: "waits = backoff_wait b (re_random env attempt) # ws"
      using "1.prems"(4,5) loop retry w by (auto simp: Let_def split: prod.splits)
    have "?b = (if re_slept env attempt then min (wrap64 (b * 2)) ?hi else b)" using "1.prems"(4) w by simp
    from "1.IH" [OF retry(1,2) refl retry(3) this _ _ "1.prems"(3,4) rec] "1.prems"(1,2)
    have IH: "int (length ws) \<le> max 0 (rc_max_attempts cfg - (attempt + 1))"
      "retried_total m' = retried_total m + 1 + int (length ws)" "timed_total m' = timed_total m + 1 + int (length ws) + 1"
      "\<And>k. k < length ws \<Longrightarrow> nominal_backoff ?hi ?b k \<le> ws ! k
          \<and> ws ! k \<le> nominal_backoff ?hi ?b k + nominal_backoff ?hi ?b k div 2"
      using retry by simp_all
    have "nominal_backoff ?hi b k \<le> waits ! k \<and> waits ! k \<le> nominal_backoff ?hi b k + nominal_backoff ?hi b k div 2"
      if "k < length waits" for k
    proof (cases k)
      case 0
      then show ?thesis
        using backoff_wait_bounds [OF "1.prems"(1)] "1.prems"(2,3) by (simp add: waits nominal_backoff_def)
    next
      case (Suc j)
      then show ?thesis
        using IH(4) [of j] that nominal_backoff_Suc [OF "1.prems"(1,2), of j] by (simp add: waits)
    qed
    then show ?thesis using IH(1-3) retry by (simp add: waits)
  qed (use "1.prems"(5) loop in \<open>auto simp: drop_event_def Let_def\<close>)
qed

text \<open>
  C39: retries are bounded and spaced.  For a configuration with ordered positive backoffs,
  \<^verbatim>\<open>appendWithRetry\<close> waits at most \<^verbatim>\<open>max_attempts - 1\<close> times, counts each wait as a retry, times
  each attempt once, and the wait before retry \<open>k\<close> is the initial backoff doubled \<open>k\<close> times, capped at the maximum,
  plus a random part of at most half of that; no wait ends early unless the context does.
\<close>

theorem retry_schedule:
  assumes "0 < rc_initial_backoff cfg" and "rc_initial_backoff cfg \<le> rc_max_backoff cfg"
    and "rc_max_backoff cfg < 2 ^ 61" and "\<And>a. re_slept env a" and "1 \<le> rc_max_attempts cfg"
    and "append_loop name cfg env es 1 (rc_initial_backoff cfg) m = (m', waits)"
  shows "int (length waits) < rc_max_attempts cfg
     \<and> retried_total m' = retried_total m + int (length waits)
     \<and> timed_total m' = timed_total m + int (length waits) + 1
     \<and> (\<forall>k < length waits. \<exists>b. b = min (rc_initial_backoff cfg * 2 ^ k) (rc_max_backoff cfg)
          \<and> b \<le> waits ! k \<and> waits ! k \<le> b + b div 2)"
proof -
  have "nominal_backoff (rc_max_backoff cfg) (rc_initial_backoff cfg) k
      = min (rc_initial_backoff cfg * 2 ^ k) (rc_max_backoff cfg)" for k
    using assms(2) by (cases k) (simp_all add: nominal_backoff_def)
  then show ?thesis using append_loop_waits [OF assms(1-4,6)] assms(5) by auto
qed

section \<open>Witnesses\<close>

definition quiet_env :: retry_env where
  "quiet_env = \<lparr>re_append = (\<lambda>_ _. Append_err), re_elapsed = (\<lambda>_. 0), re_ctx_done = (\<lambda>_. False), re_slept = (\<lambda>_. True),
     re_random = (\<lambda>a. a)\<rparr>"

definition small_batches :: ingestion_config where
  "small_batches = (cf_ingestion default_config)\<lparr>ic_batch := \<lparr>bc_max_events = 2, bc_max_bytes = 7, bc_max_age = 1,
     bc_max_age_text = []\<rparr>\<rparr>"


theorem retry_schedule_witness:
  "\<exists>m' waits. append_loop ''vl'' \<lparr>rc_max_attempts = 3, rc_initial_backoff = 100, rc_max_backoff = 150,
        rc_initial_backoff_text = [], rc_max_backoff_text = []\<rparr> quiet_env [] 1 100 new_metrics = (m', waits)
     \<and> waits = [101, 152] \<and> retried_total m' = 2"
proof -
  let ?cfg = "\<lparr>rc_max_attempts = 3, rc_initial_backoff = 100, rc_max_backoff = 150,
        rc_initial_backoff_text = [], rc_max_backoff_text = []\<rparr>"
  obtain m' waits where l: "append_loop ''vl'' ?cfg quiet_env [] 1 100 new_metrics = (m', waits)" by fastforce
  have "snd (append_loop ''vl'' ?cfg quiet_env [] 1 100 new_metrics) = [101, 152]" by code_simp
  then show ?thesis
    using retry_schedule [of ?cfg quiet_env "''vl''" "[]" new_metrics m' waits] l
    by (simp add: quiet_env_def new_metrics_def)
qed

end
