(* ===== verification/Pipeline_Correct.thy ===== *)
theory Pipeline_Correct
  imports Pipeline
begin

text \<open>
  What holds of \<open>Pipeline\<close> under every interleaving: every received message is accounted for
  in the counters at all times, a stop within its deadline leaves nothing behind, and a stop
  after its deadline can lose queued messages; batches and retries are bounded.
\<close>

section \<open>Accounting\<close>

text \<open>What the events promise: no foreign queue states, and a backend that accepts whole batches.\<close>

definition append_contract :: "retry_env \<Rightarrow> bool" where
  "append_contract env \<longleftrightarrow>
     (\<forall>k b. case re_append env k b of Append_ok a n \<Rightarrow> a = int (length b) | Append_err \<Rightarrow> True)"

fun event_allowed :: "pipeline_event \<Rightarrow> bool" where
  "event_allowed (Ev_enqueue i ws) \<longleftrightarrow> (\<forall>w \<in> set ws. w = Wake_ctx \<or> w = Wake_timer)"
| "event_allowed (Ev_receive env1 env2) \<longleftrightarrow> append_contract env1 \<and> append_contract env2"
| "event_allowed (Ev_timer env) \<longleftrightarrow> append_contract env"
| "event_allowed _ \<longleftrightarrow> True"

text \<open>States a started pipeline can reach.\<close>

inductive reaches :: "pipeline \<Rightarrow> pipeline \<Rightarrow> bool" where
  reaches_refl: "reaches p p"
| reaches_step: "reaches p q \<Longrightarrow> event_allowed e \<Longrightarrow> pipeline_step e q = Some r \<Longrightarrow> reaches p r"

fun worker_load :: "worker \<Rightarrow> int" where
  "worker_load (W_item frm) = 1"
| "worker_load (W_send entry) = 1"
| "worker_load _ = 0"

text \<open>Messages inside the pipeline.\<close>

definition in_flight :: "pipeline \<Rightarrow> int" where
  "in_flight p =
     int (length (queued (pl_queue p))) + sum_list (map worker_load (pl_workers p))
     + int (length (pl_parsed p)) + int (length (pl_batch p))"

definition received_total :: "pipeline \<Rightarrow> int" where
  "received_total p = counter_total (\<lambda>_. True) (mt_received (pl_metrics p))"

definition accepted_total :: "pipeline \<Rightarrow> int" where
  "accepted_total p = counter_total (\<lambda>_. True) (mt_accepted (pl_metrics p))"

definition dropped_total :: "(bytes \<Rightarrow> bool) \<Rightarrow> pipeline \<Rightarrow> int" where
  "dropped_total stage p = counter_total (\<lambda>l. stage (fst l)) (mt_dropped (pl_metrics p))"

text \<open>An append stores the whole batch or drops the whole batch.\<close>

definition settled :: "int \<Rightarrow> metrics \<Rightarrow> metrics \<Rightarrow> bool" where
  "settled n m m' \<longleftrightarrow>
     (\<exists>d. (d = 0 \<or> d = n) \<and> stored_total m' = stored_total m + n - d
        \<and> (\<forall>sel. counter_total sel (mt_dropped m')
              = counter_total sel (mt_dropped m) + (if sel (''storage'', ''retry_exhausted'') then d else 0))
        \<and> mt_accepted m' = mt_accepted m \<and> mt_received m' = mt_received m)"

lemma append_loop_settled:
  assumes "append_contract env" and "attempt \<le> rc_max_attempts cfg"
  shows "settled (int (length batch)) m (fst (append_loop name cfg env batch attempt backoff m))"
  using assms
proof (induction name cfg env batch attempt backoff m rule: append_loop.induct)
  case (1 name cfg env batch attempt backoff m)
  show ?case
  proof (cases "re_append env attempt batch")
    case (Append_ok a n)
    then have "a = int (length batch)"
      using "1.prems"(1) by (auto simp: append_contract_def split: append_result.splits dest: spec [of _ attempt])
    then show ?thesis
      using "1.prems"(2) Append_ok
      by (subst append_loop.simps) (auto simp: settled_def intro: exI [of _ 0])
  next
    case Append_err
    show ?thesis
    proof (cases "attempt = rc_max_attempts cfg \<or> re_ctx_done env attempt")
      case True
      then show ?thesis
        using "1.prems"(2) Append_err
        by (subst append_loop.simps)
          (auto simp: settled_def drop_event_def Let_def intro: exI [of _ "int (length batch)"])
    next
      case False
      let ?b = "if re_slept env attempt then min (wrap64 (backoff * 2)) (rc_max_backoff cfg) else backoff"
      have "\<not> rc_max_attempts cfg < attempt" "attempt + 1 \<le> rc_max_attempts cfg"
        using False "1.prems"(2) by auto
      from "1.IH" [OF this(1) Append_err refl False refl "1.prems"(1) this(2)]
      have "settled (int (length batch)) m
          (fst (append_loop name cfg env batch (attempt + 1) ?b (retry_event name (time_append name ''error'' (re_elapsed env attempt) m))))"
        by (simp add: settled_def)
      then show ?thesis
        using "1.prems"(2) Append_err False
        by (subst append_loop.simps) (simp add: Let_def split_def)
    qed
  qed
qed

text \<open>
  The interface of a storage backend: a successful append has taken the whole batch.  The
  retries then leave no batch half stored.
\<close>

locale append_backend =
  fixes append :: "int \<Rightarrow> log_entry list \<Rightarrow> append_result"
  assumes takes_whole: "append k b = Append_ok a n \<Longrightarrow> a = int (length b)"
begin

lemma contract: "re_append env = append \<Longrightarrow> append_contract env"
  using takes_whole by (auto simp: append_contract_def split: append_result.splits)

lemma retry_settles:
  assumes "re_append env = append" and "0 < rc_max_attempts cfg"
  shows "settled (int (length batch)) m (fst (append_loop name cfg env batch 1 backoff m))"
  using contract [OF assms(1)] assms(2) by (intro append_loop_settled) simp_all

end

text \<open>The books, with \<open>k\<close> messages in the hands of the batch worker.\<close>

definition books :: "int \<Rightarrow> pipeline \<Rightarrow> bool" where
  "books k p \<longleftrightarrow>
     received_total p = accepted_total p + dropped_total (\<lambda>s. s = ''admission'') p + int (length (pl_waiting p))
     \<and> accepted_total p = in_flight p + k + stored_total (pl_metrics p) + dropped_total (\<lambda>s. s \<noteq> ''admission'') p"

lemmas books_defs = books_def received_total_def accepted_total_def dropped_total_def in_flight_def

definition pipeline_inv :: "pipeline \<Rightarrow> bool" where
  "pipeline_inv p \<longleftrightarrow> books 0 p \<and> queue_inv (pl_queue p) \<and> 0 < rc_max_attempts (ic_retry (pl_cfg p))"

lemma flush_books:
  assumes "append_contract env" and "0 < rc_max_attempts (ic_retry (pl_cfg p))" and "books k p"
  shows "books k (flush env p)"
proof (cases "pl_batch p = []")
  case False
  let ?m = "pl_metrics p" and ?r = "ic_retry (pl_cfg p)"
  let ?m' = "fst (append_loop (pl_backend_name p) ?r env (pl_batch p) 1 (rc_initial_backoff ?r) ?m)"
  have "settled (int (length (pl_batch p))) ?m ?m'"
    using assms(1,2) by (intro append_loop_settled) simp_all
  then obtain d where d: "stored_total ?m' = stored_total ?m + int (length (pl_batch p)) - d"
    "\<And>sel. counter_total sel (mt_dropped ?m')
        = counter_total sel (mt_dropped ?m) + (if sel (''storage'', ''retry_exhausted'') then d else 0)"
    "mt_accepted ?m' = mt_accepted ?m" "mt_received ?m' = mt_received ?m"
    by (auto simp: settled_def)
  show ?thesis
    using assms(3) False d(1,3,4)
    by (simp add: books_defs flush_def append_with_retry_def on_metrics_def d(2))
qed (use assms(3) in \<open>simp add: flush_def\<close>)

lemma flush_simps [simp]:
  "pl_queue (flush env p) = pl_queue p" "pl_cfg (flush env p) = pl_cfg p" "pl_waiting (flush env p) = pl_waiting p"
  "pl_workers (flush env p) = pl_workers p" "pl_parsed (flush env p) = pl_parsed p"
  "pl_parsed_closed (flush env p) = pl_parsed_closed p" "pl_cancelled (flush env p) = pl_cancelled p"
  "pl_batch (flush env p) = []" "pl_batcher (flush env p) = pl_batcher p" "pl_accepting (flush env p) = pl_accepting p"
  by (simp_all add: flush_def append_with_retry_def on_metrics_def)

lemma add_entry_simps [simp]:
  "pl_queue (add_entry env1 env2 x p) = pl_queue p" "pl_cfg (add_entry env1 env2 x p) = pl_cfg p"
  "pl_workers (add_entry env1 env2 x p) = pl_workers p" "pl_parsed (add_entry env1 env2 x p) = pl_parsed p"
  "pl_parsed_closed (add_entry env1 env2 x p) = pl_parsed_closed p"
  "pl_cancelled (add_entry env1 env2 x p) = pl_cancelled p" "pl_batcher (add_entry env1 env2 x p) = pl_batcher p"
  by (simp_all add: add_entry_def Let_def)

lemma books_batch: "books (k + 1) p \<Longrightarrow> books k (p\<lparr>pl_batch := pl_batch p @ [x], pl_batch_bytes := n\<rparr>)"
  by (simp add: books_defs)

lemma add_entry_books:
  assumes "append_contract env1" "append_contract env2" and "0 < rc_max_attempts (ic_retry (pl_cfg p))"
    and "books (k + 1) p"
  shows "books k (add_entry env1 env2 x p)"
proof -
  define p1 where "p1 = (if pl_batch p \<noteq> []
     \<and> (bc_max_events (ic_batch (pl_cfg p)) \<le> int (length (pl_batch p))
        \<or> bc_max_bytes (ic_batch (pl_cfg p)) < pl_batch_bytes p + entry_size x) then flush env1 p else p)"
  define p2 where "p2 = p1\<lparr>pl_batch := pl_batch p1 @ [x], pl_batch_bytes := pl_batch_bytes p1 + entry_size x\<rparr>"
  have "books (k + 1) p1" using assms by (simp add: p1_def flush_books)
  then have "books k p2" unfolding p2_def by (rule books_batch)
  moreover have "pl_cfg p2 = pl_cfg p" by (simp add: p2_def p1_def)
  moreover have "add_entry env1 env2 x p = flush env2 p2 \<or> add_entry env1 env2 x p = p2"
    by (simp add: add_entry_def Let_def p1_def p2_def)
  ultimately show ?thesis using flush_books [OF assms(2), of p2 k] assms(3) by auto
qed

lemma batch_receive_inv:
  assumes "pipeline_inv p" and "append_contract env1" "append_contract env2"
    and "batch_receive env1 env2 p = Some p'"
  shows "pipeline_inv p'"
proof -
  have inv: "books 0 p" "queue_inv (pl_queue p)" "0 < rc_max_attempts (ic_retry (pl_cfg p))"
    using assms(1) by (simp_all add: pipeline_inv_def)
  show ?thesis
  proof (cases "pl_parsed p")
    case Nil
    then have "p' = (flush env1 p)\<lparr>pl_batcher := Batch_done\<rparr>"
      using assms(4) by (cases "pl_batcher p") (simp_all add: batch_receive_def split: if_splits)
    moreover have "books 0 ((flush env1 p)\<lparr>pl_batcher := Batch_done\<rparr>)"
      using flush_books [OF assms(2) inv(3,1)] by (simp add: books_defs)
    ultimately show ?thesis using inv by (simp add: pipeline_inv_def)
  next
    case (Cons x rest)
    let ?p = "p\<lparr>pl_parsed := rest\<rparr>"
    have "books (0 + 1) ?p" using inv(1) Cons by (simp add: books_defs)
    then have "books 0 (add_entry env1 env2 x ?p)" using assms(2,3) inv(3) by (intro add_entry_books) simp_all
    moreover have "books 0 (p\<lparr>pl_parsed := rest, pl_batch := pl_batch p @ [x]\<rparr>)"
      using inv(1) Cons by (simp add: books_defs)
    ultimately show ?thesis
      using assms(4) Cons inv by (cases "pl_batcher p") (auto simp: batch_receive_def pipeline_inv_def)
  qed
qed

lemma sum_loads_update:
  "i < length ws \<Longrightarrow>
   sum_list (map worker_load (ws[i := w])) = sum_list (map worker_load ws) - worker_load (ws ! i) + worker_load w"
proof (induction ws arbitrary: i)
  case (Cons x xs)
  then show ?case by (cases i) simp_all
qed simp

lemma enqueue_alone:
  assumes "queue_inv q" and "\<forall>w \<in> set ws. w = Wake_ctx \<or> w = Wake_timer" and "enqueue q frm ws = (q', r)"
  shows "case r of Returns (Inr _) \<Rightarrow> queue_inv q' \<and> queued q' = queued q @ [frm] | _ \<Rightarrow> q' = q"
proof (cases "q_max_bytes q < frame_size frm")
  case True
  then show ?thesis using assms(3) by (auto simp: enqueue_def)
next
  case False
  then have loop: "enqueue_loop q frm ws = (q', r)" using assms(3) by (simp add: enqueue_def)
  have "\<And>q0. Wake_changed q0 \<notin> set ws" using assms(2) by blast
  then have "case r of Returns (Inr _) \<Rightarrow> enqueue_step q frm = Returns (Inr q') | _ \<Rightarrow> q' = q"
    using enqueue_loop_observed [OF loop] by auto
  then show ?thesis
    using enqueue_step_Returns(1,2) [OF assms(1), of frm q'] False
    by (cases r rule: attempt_cases) simp_all
qed

lemma submit_begin_inv:
  assumes "pipeline_inv p" and "submit_begin p frm = (p', go)"
  shows "pipeline_inv (if go then p'\<lparr>pl_waiting := pl_waiting p' @ [frm]\<rparr> else p')"
  using assms
  by (auto simp: submit_begin_def Let_def pipeline_inv_def books_defs on_metrics_def receive_event_def
      drop_event_def split: if_splits)

lemma submit_finish_inv:
  assumes "pipeline_inv p" and "i < length (pl_waiting p)" and "\<forall>w \<in> set ws. w = Wake_ctx \<or> w = Wake_timer"
    and "submit_finish p (pl_waiting p ! i) ws = Some (p', r)"
  shows "pipeline_inv (p'\<lparr>pl_waiting := take i (pl_waiting p) @ drop (Suc i) (pl_waiting p)\<rparr>)"
proof -
  obtain q a where e: "enqueue (pl_queue p) (pl_waiting p ! i) ws = (q, a)" by fastforce
  have inv: "queue_inv (pl_queue p)" using assms(1) by (simp add: pipeline_inv_def)
  note alone = enqueue_alone [OF inv assms(3) e]
  show ?thesis
  proof (cases a rule: attempt_cases)
    case (error x)
    then show ?thesis
      using assms alone e
      by (auto simp: submit_finish_def pipeline_inv_def books_defs on_metrics_def drop_event_def)
  next
    case (result v)
    then have p': "p' = update_queue_metrics (on_metrics (\<lambda>m. m\<lparr>mt_accepted :=
        counter_add (fr_protocol (pl_waiting p ! i)) 1 (mt_accepted m)\<rparr>) (p\<lparr>pl_queue := q\<rparr>))"
      using assms(4) e by (simp add: submit_finish_def)
    show ?thesis
      using assms(1,2) alone result
      by (simp add: p' pipeline_inv_def books_defs on_metrics_def update_queue_metrics_def)
  next
    case wait
    then show ?thesis using assms(4) e by (simp add: submit_finish_def)
  qed
qed

lemma dequeue_loop_outcome:
  assumes "queue_inv q" and "ws \<in> {[], [Wake_ctx]}" and "dequeue_loop q ws = (q', r)"
  shows "case r of
      Returns (Inr item) \<Rightarrow> queue_inv q' \<and> queued q = qf_frame item # queued q' \<and> q_closed q' = q_closed q
    | Returns (Inl e) \<Rightarrow> q' = q \<and> queued q = [] \<and> (q_closed q \<or> ws = [Wake_ctx])
    | Waits \<Rightarrow> q' = q"
proof (cases "dequeue_step q" rule: attempt_cases)
  case (error e)
  then have "queued q = []" "q_closed q" using dequeue_step_cases(2) [OF assms(1)] by simp_all
  moreover have "q' = q" "r = Returns (Inl e)"
    using assms(3) error dequeue_loop.simps [of q ws] by simp_all
  ultimately show ?thesis by simp
next
  case (result v)
  then obtain item q1 where v: "dequeue_step q = Returns (Inr (item, q1))" by (cases v) simp
  then have "q' = q1" "r = Returns (Inr item)" using assms(3) dequeue_loop.simps [of q ws] by simp_all
  then show ?thesis using dequeue_step_Returns(1,2,4) [OF assms(1) v] by simp
next
  case wait
  then have "queued q = []" using dequeue_step_cases(1) [OF assms(1)] by simp
  moreover have "q' = q" "r = (if ws = [] then Waits else Returns (Inl Ctx_done))"
    using assms(2,3) wait dequeue_loop.simps [of q ws] by (auto split: list.splits)
  ultimately show ?thesis using assms(2) by (auto split: if_splits)
qed

lemma worker_dequeue_inv:
  assumes "pipeline_inv p" and "i < length (pl_workers p)" "pl_workers p ! i = W_idle"
    and "worker_dequeue i p = Some p'"
  shows "pipeline_inv p'"
proof -
  let ?ws = "if pl_cancelled p then [Wake_ctx] else []"
  obtain q r where d: "dequeue_loop (pl_queue p) ?ws = (q, r)" by fastforce
  have inv: "queue_inv (pl_queue p)" using assms(1) by (simp add: pipeline_inv_def)
  have out: "case r of
      Returns (Inr item) \<Rightarrow> queue_inv q \<and> queued (pl_queue p) = qf_frame item # queued q \<and> q_closed q = q_closed (pl_queue p)
    | Returns (Inl e) \<Rightarrow> q = pl_queue p \<and> queued (pl_queue p) = [] \<and> (q_closed (pl_queue p) \<or> ?ws = [Wake_ctx])
    | Waits \<Rightarrow> q = pl_queue p"
    using inv _ d by (rule dequeue_loop_outcome) simp
  show ?thesis
  proof (cases r rule: attempt_cases)
    case (error e)
    then show ?thesis
      using assms out d
      by (auto simp: worker_dequeue_def set_worker_def pipeline_inv_def books_defs sum_loads_update)
  next
    case (result item)
    then have "p' = update_queue_metrics (set_worker i (W_item (qf_frame item)) (p\<lparr>pl_queue := q\<rparr>))"
      using assms(4) d by (simp add: worker_dequeue_def)
    then show ?thesis
      using assms(1-3) out result
      by (simp add: set_worker_def pipeline_inv_def books_defs sum_loads_update update_queue_metrics_def)
  next
    case wait
    then show ?thesis using assms(4) d by (simp add: worker_dequeue_def)
  qed
qed

lemmas pipeline_inv_defs = pipeline_inv_def books_defs on_metrics_def

lemma worker_parse_inv:
  assumes "pipeline_inv p" and "i < length (pl_workers p)" "pl_workers p ! i = W_item frm"
  shows "pipeline_inv (worker_parse i random frm p)"
proof (cases "registry_parse new_registry (parser_name p frm) (fr_payload frm) (fr_received_at frm)
             (pl_locations p (fr_source_id frm))")
  case (Inl e)
  then show ?thesis
    using assms by (simp add: worker_parse_def pipeline_inv_defs set_worker_def sum_loads_update drop_event_def)
next
  case (Inr ev)
  then show ?thesis
    using assms by (cases "normalize_entry random frm ev")
      (simp_all add: worker_parse_def pipeline_inv_defs set_worker_def sum_loads_update drop_event_def)
qed

lemma worker_send_inv:
  assumes "pipeline_inv p" and "i < length (pl_workers p)" "pl_workers p ! i = W_send entry"
    and "worker_send i entry p = Some p'"
  shows "pipeline_inv p'"
proof -
  have "p' = set_worker i W_idle (p\<lparr>pl_parsed := pl_parsed p @ [entry]\<rparr>)"
    using assms(4) by (simp add: worker_send_def split: if_splits)
  then show ?thesis
    using assms(1-3) by (simp add: pipeline_inv_defs set_worker_def sum_loads_update)
qed

lemma worker_abort_inv:
  assumes "pipeline_inv p" and "i < length (pl_workers p)" "pl_workers p ! i = W_send entry"
    and "worker_abort i p = Some p'"
  shows "pipeline_inv p'"
proof -
  have "p' = set_worker i W_done (on_metrics (drop_event ''normalization'' ''shutdown'' 1) p)"
    using assms(4) by (simp add: worker_abort_def split: if_splits)
  then show ?thesis
    using assms(1-3) by (simp add: pipeline_inv_defs set_worker_def sum_loads_update drop_event_def)
qed

lemma flush_inv: "pipeline_inv p \<Longrightarrow> append_contract env \<Longrightarrow> pipeline_inv (flush env p)"
  by (simp add: pipeline_inv_def flush_books)

lemma control_inv:
  assumes "pipeline_inv p"
  shows "pipeline_inv (reject p protocol reason n)" and "pipeline_inv (stop_pipeline p)"
    and "pipeline_inv (cancel_pipeline p)" and "pipeline_inv (p\<lparr>pl_parsed_closed := c\<rparr>)"
    and "pipeline_inv (p\<lparr>pl_batcher := b\<rparr>)"
  using assms
  by (simp_all add: pipeline_inv_defs reject_def receive_event_def drop_event_def stop_pipeline_def cancel_pipeline_def)

text \<open>Every step keeps the books.\<close>

lemma step_inv:
  assumes "pipeline_inv p" and "event_allowed e" and "pipeline_step e p = Some p'"
  shows "pipeline_inv p'"
proof (cases e)
  case (Ev_submit frm)
  obtain q go where "submit_begin p frm = (q, go)" by fastforce
  with submit_begin_inv [OF assms(1) this] assms(3) Ev_submit show ?thesis by simp
next
  case (Ev_enqueue i ws)
  then obtain q r where "i < length (pl_waiting p)" "submit_finish p (pl_waiting p ! i) ws = Some (q, r)"
    "p' = q\<lparr>pl_waiting := take i (pl_waiting p) @ drop (Suc i) (pl_waiting p)\<rparr>"
    using assms(3) by (auto split: if_splits)
  with submit_finish_inv [OF assms(1)] assms(2) Ev_enqueue show ?thesis by simp
next
  case (Ev_dequeue i)
  then show ?thesis using assms(3) worker_dequeue_inv [OF assms(1)] by (simp split: if_splits)
next
  case (Ev_parse i random)
  then show ?thesis
    using assms(3) worker_parse_inv [OF assms(1)] by (auto split: if_splits worker.splits)
next
  case (Ev_send i)
  then show ?thesis
    using assms(3) worker_send_inv [OF assms(1)] by (simp split: if_splits worker.splits)
next
  case (Ev_abort i)
  then show ?thesis
    using assms(3) worker_abort_inv [OF assms(1)] by (simp split: if_splits worker.splits)
next
  case (Ev_receive env1 env2)
  then show ?thesis using batch_receive_inv [OF assms(1)] assms(2,3) by fastforce
next
  case (Ev_timer env)
  then show ?thesis
    using assms flush_inv by (auto simp: batch_timer_def split: if_splits)
qed (use assms control_inv [OF assms(1)] in \<open>auto simp: close_parsed_def batch_cancel_def split: if_splits\<close>)

text \<open>A pipeline fresh from \<^verbatim>\<open>NewPipeline\<close> and \<^verbatim>\<open>Start\<close>.\<close>

definition started :: "ingestion_config \<Rightarrow> pipeline \<Rightarrow> bool" where
  "started cfg p \<longleftrightarrow>
     0 \<le> qc_max_events (ic_queue cfg) \<and> 0 \<le> qc_max_bytes (ic_queue cfg) \<and> qc_max_bytes (ic_queue cfg) < 2 ^ 62
     \<and> 0 < rc_max_attempts (ic_retry cfg)
     \<and> (\<exists>load_location name p0 n. new_pipeline load_location cfg name = Some p0 \<and> p = start_pipeline n p0)"

lemma started_inv: "started cfg p \<Longrightarrow> pipeline_inv p"
  by (auto simp: started_def new_pipeline_def start_pipeline_def pipeline_inv_defs new_metrics_def
      queue_inv_new sum_list_replicate) (simp_all add: new_frame_queue_def queued_def)

lemma reaches_inv: "reaches p q \<Longrightarrow> pipeline_inv p \<Longrightarrow> pipeline_inv q"
  by (induction rule: reaches.induct) (auto intro: step_inv)

section \<open>Stopping\<close>

text \<open>
  What ties the goroutines together: a worker ends only when the queue is closed and empty or
  its context is done, the channel is closed after the last worker, and the batch worker ends
  with nothing in its hands.
\<close>

definition flow_inv :: "pipeline \<Rightarrow> bool" where
  "flow_inv p \<longleftrightarrow>
     pl_workers p \<noteq> []
     \<and> (W_done \<in> set (pl_workers p) \<longrightarrow>
          pl_cancelled p \<or> q_closed (pl_queue p) \<and> queued (pl_queue p) = [])
     \<and> (pl_parsed_closed p \<longrightarrow> list_all (\<lambda>w. w = W_done) (pl_workers p))
     \<and> (pl_batcher p = Batch_done \<longrightarrow> pl_parsed_closed p \<and> pl_parsed p = [] \<and> pl_batch p = [])"

lemma done_update: "W_done \<in> set (ws[i := w]) \<Longrightarrow> W_done \<in> set ws \<or> w = W_done"
  using set_update_subset_insert [of ws i w] by auto

lemma open_channel:
  assumes "flow_inv p" and "i < length (pl_workers p)" and "pl_workers p ! i \<noteq> W_done"
  shows "\<not> pl_parsed_closed p" and "pl_batcher p \<noteq> Batch_done"
  using assms by (auto simp: flow_inv_def list_all_length)

text \<open>A step of worker \<open>i\<close> that leaves the rest of the machinery alone.\<close>

lemma flow_worker:
  assumes "flow_inv p" and "i < length (pl_workers p)" "pl_workers p ! i \<noteq> W_done"
    and "pl_workers p' = (pl_workers p)[i := w]"
    and "pl_parsed_closed p' = pl_parsed_closed p" "pl_batcher p' = pl_batcher p"
      "pl_cancelled p' = pl_cancelled p"
    and "q_closed (pl_queue p') = q_closed (pl_queue p)"
      "queued (pl_queue p) = [] \<Longrightarrow> queued (pl_queue p') = []"
    and "w = W_done \<Longrightarrow> pl_cancelled p \<or> q_closed (pl_queue p) \<and> queued (pl_queue p) = []"
  shows "flow_inv p'"
  using assms open_channel [OF assms(1-3)] by (auto simp: flow_inv_def dest!: done_update)

lemma on_metrics_simps [simp]:
  "pl_workers (on_metrics f p) = pl_workers p" "pl_parsed_closed (on_metrics f p) = pl_parsed_closed p"
  "pl_batcher (on_metrics f p) = pl_batcher p" "pl_cancelled (on_metrics f p) = pl_cancelled p"
  "pl_queue (on_metrics f p) = pl_queue p" "pl_parsed (on_metrics f p) = pl_parsed p"
  "pl_batch (on_metrics f p) = pl_batch p" "pl_waiting (on_metrics f p) = pl_waiting p"
  "pl_accepting (on_metrics f p) = pl_accepting p" "pl_cfg (on_metrics f p) = pl_cfg p"
  by (simp_all add: on_metrics_def)

lemma flow_inv_cong:
  assumes "flow_inv p" and "pl_workers p' = pl_workers p" "pl_parsed_closed p' = pl_parsed_closed p"
    "pl_batcher p' = pl_batcher p" "pl_cancelled p' = pl_cancelled p" "pl_parsed p' = pl_parsed p"
    "pl_batch p' = pl_batch p"
    and "q_closed (pl_queue p) \<Longrightarrow> q_closed (pl_queue p') \<and> queued (pl_queue p') = queued (pl_queue p)"
  shows "flow_inv p'"
  using assms by (auto simp: flow_inv_def)

lemma enqueue_closed:
  assumes "q_closed q" and "enqueue q frm ws = (q', r)" and "\<forall>w \<in> set ws. w = Wake_ctx \<or> w = Wake_timer"
  shows "q' = q"
  using assms enqueue_loop.simps [of q frm ws] by (auto simp: enqueue_def enqueue_step_def split: if_splits)

lemma submit_finish_flow:
  assumes "flow_inv p" and "queue_inv (pl_queue p)" and "\<forall>w \<in> set ws. w = Wake_ctx \<or> w = Wake_timer"
    and "submit_finish p frm ws = Some (p', r)"
  shows "flow_inv (p'\<lparr>pl_waiting := fs\<rparr>)"
proof -
  obtain q a where e: "enqueue (pl_queue p) frm ws = (q, a)" by fastforce
  have "q_closed (pl_queue p) \<Longrightarrow> q = pl_queue p"
    using enqueue_closed [OF _ e assms(3)] by simp
  note c = this
  show ?thesis
    using assms(4) e c
    by (cases a rule: attempt_cases)
      (auto simp: submit_finish_def update_queue_metrics_def intro!: flow_inv_cong [OF assms(1)])
qed

lemma worker_dequeue_flow:
  assumes "flow_inv p" and "queue_inv (pl_queue p)" and "i < length (pl_workers p)" "pl_workers p ! i = W_idle"
    and "worker_dequeue i p = Some p'"
  shows "flow_inv p'"
proof -
  let ?ws = "if pl_cancelled p then [Wake_ctx] else []"
  obtain q r where d: "dequeue_loop (pl_queue p) ?ws = (q, r)" by fastforce
  have "?ws \<in> {[], [Wake_ctx]}" by simp
  note out = dequeue_loop_outcome [OF assms(2) this d]
  have live: "pl_workers p ! i \<noteq> W_done" using assms(4) by simp
  show ?thesis
  proof (cases r rule: attempt_cases)
    case (error e)
    then have "p' = set_worker i W_done (p\<lparr>pl_queue := q\<rparr>)" using assms(5) d by (simp add: worker_dequeue_def)
    moreover have "q = pl_queue p" "pl_cancelled p \<or> q_closed (pl_queue p) \<and> queued (pl_queue p) = []"
      using out error by (auto split: if_splits)
    ultimately show ?thesis
      by (intro flow_worker [OF assms(1,3) live, where w = W_done]) (simp_all add: set_worker_def)
  next
    case (result item)
    then have "p' = update_queue_metrics (set_worker i (W_item (qf_frame item)) (p\<lparr>pl_queue := q\<rparr>))"
      using assms(5) d by (simp add: worker_dequeue_def)
    moreover have "queued (pl_queue p) = qf_frame item # queued q" "q_closed q = q_closed (pl_queue p)"
      using out result by simp_all
    ultimately show ?thesis
      by (intro flow_worker [OF assms(1,3) live, where w = "W_item (qf_frame item)"])
        (simp_all add: set_worker_def update_queue_metrics_def)
  next
    case wait
    then show ?thesis using assms(5) d by (simp add: worker_dequeue_def)
  qed
qed

text \<open>What parsing does to a worker.\<close>

lemma worker_parse_shape:
  obtains w f where "worker_parse i random frm p = set_worker i w (on_metrics f p)" "w \<noteq> W_done"
    "w = W_idle \<or> (\<exists>entry. w = W_send entry)"
proof (cases "registry_parse new_registry (parser_name p frm) (fr_payload frm) (fr_received_at frm)
             (pl_locations p (fr_source_id frm))")
  case (Inl e)
  then show thesis by (intro that [of W_idle]) (simp_all add: worker_parse_def)
next
  case (Inr ev)
  then show thesis
    by (cases "normalize_entry random frm ev")
      (rule that [of W_idle] that [of "W_send (the (normalize_entry random frm ev))"],
        simp_all add: worker_parse_def)+
qed

lemma batch_receive_flow:
  assumes "flow_inv p" and "batch_receive env1 env2 p = Some p'"
  shows "flow_inv p'"
proof (cases "pl_parsed p")
  case Nil
  then have "p' = (flush env1 p)\<lparr>pl_batcher := Batch_done\<rparr>" "pl_parsed_closed p"
    using assms(2) by (cases "pl_batcher p"; simp add: batch_receive_def split: if_splits)+
  then show ?thesis using assms(1) Nil by (auto simp: flow_inv_def)
next
  case (Cons x rest)
  then have "pl_batcher p \<noteq> Batch_done" using assms(1) by (auto simp: flow_inv_def)
  then show ?thesis
    using assms Cons by (cases "pl_batcher p") (auto simp: batch_receive_def flow_inv_def)
qed

lemma step_flow:
  assumes "flow_inv p" and "pipeline_inv p" and "event_allowed e" and "pipeline_step e p = Some p'"
  shows "flow_inv p'"
proof (cases e)
  case (Ev_submit frm)
  then show ?thesis
    using assms(4) by (auto simp: submit_begin_def Let_def intro!: flow_inv_cong [OF assms(1)] split: if_splits)
next
  case (Ev_enqueue i ws)
  then obtain q r where "submit_finish p (pl_waiting p ! i) ws = Some (q, r)"
    "p' = q\<lparr>pl_waiting := take i (pl_waiting p) @ drop (Suc i) (pl_waiting p)\<rparr>"
    using assms(4) by (auto split: if_splits)
  with submit_finish_flow [OF assms(1)] assms(2,3) Ev_enqueue show ?thesis by (simp add: pipeline_inv_def)
next
  case (Ev_reject protocol reason n)
  then show ?thesis using assms(4) by (auto simp: reject_def intro!: flow_inv_cong [OF assms(1)])
next
  case Ev_stop
  then show ?thesis using assms(4) by (auto simp: stop_pipeline_def intro!: flow_inv_cong [OF assms(1)])
next
  case Ev_cancel
  then show ?thesis using assms(1,4) by (auto simp: cancel_pipeline_def flow_inv_def)
next
  case (Ev_dequeue i)
  then show ?thesis
    using assms(2,4) worker_dequeue_flow [OF assms(1)] by (simp add: pipeline_inv_def split: if_splits)
next
  case (Ev_parse i random)
  then obtain frm where i: "i < length (pl_workers p)" "pl_workers p ! i = W_item frm"
    "p' = worker_parse i random frm p"
    using assms(4) by (auto split: if_splits worker.splits)
  obtain w f where "worker_parse i random frm p = set_worker i w (on_metrics f p)" "w \<noteq> W_done"
    by (rule worker_parse_shape)
  then show ?thesis
    using i by (intro flow_worker [OF assms(1) i(1), where w = w]) (simp_all add: set_worker_def)
next
  case (Ev_send i)
  then obtain entry where i: "i < length (pl_workers p)" "pl_workers p ! i = W_send entry"
    "worker_send i entry p = Some p'"
    using assms(4) by (auto split: if_splits worker.splits)
  then show ?thesis
    by (intro flow_worker [OF assms(1) i(1), where w = W_idle])
      (auto simp: worker_send_def set_worker_def split: if_splits)
next
  case (Ev_abort i)
  then obtain entry where i: "i < length (pl_workers p)" "pl_workers p ! i = W_send entry"
    "worker_abort i p = Some p'"
    using assms(4) by (auto split: if_splits worker.splits)
  then show ?thesis
    by (intro flow_worker [OF assms(1) i(1), where w = W_done])
      (auto simp: worker_abort_def set_worker_def split: if_splits)
next
  case Ev_close_parsed
  then show ?thesis using assms(1,4) by (auto simp: close_parsed_def flow_inv_def split: if_splits)
next
  case (Ev_receive env1 env2)
  then show ?thesis using assms(4) batch_receive_flow [OF assms(1)] by simp
next
  case (Ev_timer env)
  then show ?thesis using assms(1,4) by (auto simp: batch_timer_def flow_inv_def split: if_splits)
next
  case Ev_batch_cancel
  then show ?thesis using assms(1,4) by (auto simp: batch_cancel_def flow_inv_def split: if_splits)
qed

lemma started_flow: "started cfg p \<Longrightarrow> flow_inv p"
  by (auto simp: started_def new_pipeline_def start_pipeline_def flow_inv_def)

lemma reaches_flow: "reaches p q \<Longrightarrow> pipeline_inv p \<Longrightarrow> flow_inv p \<Longrightarrow> flow_inv q"
  by (induction rule: reaches.induct) (auto intro: step_flow reaches_inv)

subsection \<open>A stop ends\<close>

text \<open>The steps of the pipeline's own goroutines, the timer apart.\<close>

fun internal :: "pipeline_event \<Rightarrow> bool" where
  "internal (Ev_dequeue i) \<longleftrightarrow> True"
| "internal (Ev_parse i random) \<longleftrightarrow> True"
| "internal (Ev_send i) \<longleftrightarrow> True"
| "internal (Ev_abort i) \<longleftrightarrow> True"
| "internal Ev_close_parsed \<longleftrightarrow> True"
| "internal (Ev_receive env1 env2) \<longleftrightarrow> True"
| "internal Ev_batch_cancel \<longleftrightarrow> True"
| "internal _ \<longleftrightarrow> False"

fun worker_work :: "worker \<Rightarrow> nat" where
  "worker_work W_idle = 1"
| "worker_work (W_item frm) = 5"
| "worker_work (W_send entry) = 4"
| "worker_work W_done = 0"

text \<open>The work left.\<close>

definition work_left :: "pipeline \<Rightarrow> nat" where
  "work_left p =
     6 * length (queued (pl_queue p)) + sum_list (map worker_work (pl_workers p)) + 2 * length (pl_parsed p)
     + (if pl_parsed_closed p then 0 else 1)
     + (case pl_batcher p of Batch_running \<Rightarrow> 2 | Batch_draining \<Rightarrow> 1 | Batch_done \<Rightarrow> 0)"

lemma sum_work_update:
  "i < length ws \<Longrightarrow>
   sum_list (map worker_work (ws[i := w])) + worker_work (ws ! i) = sum_list (map worker_work ws) + worker_work w"
proof (induction ws arbitrary: i)
  case (Cons x xs)
  then show ?case by (cases i) simp_all
qed simp

lemma worker_dequeue_work:
  assumes "queue_inv (pl_queue p)" and "i < length (pl_workers p)" "pl_workers p ! i = W_idle"
    and "worker_dequeue i p = Some p'"
  shows "work_left p' < work_left p"
proof -
  let ?ws = "if pl_cancelled p then [Wake_ctx] else []"
  obtain q r where d: "dequeue_loop (pl_queue p) ?ws = (q, r)" by fastforce
  have "?ws \<in> {[], [Wake_ctx]}" by simp
  note out = dequeue_loop_outcome [OF assms(1) this d]
  show ?thesis
  proof (cases r rule: attempt_cases)
    case (error e)
    then show ?thesis
      using assms(4) d out sum_work_update [OF assms(2), of W_done] assms(3)
      by (auto simp: worker_dequeue_def work_left_def set_worker_def)
  next
    case (result item)
    then have "p' = update_queue_metrics (set_worker i (W_item (qf_frame item)) (p\<lparr>pl_queue := q\<rparr>))"
      using assms(4) d by (simp add: worker_dequeue_def)
    then show ?thesis
      using out result sum_work_update [OF assms(2), of "W_item (qf_frame item)"] assms(3)
      by (simp add: work_left_def set_worker_def update_queue_metrics_def)
  next
    case wait
    then show ?thesis using assms(4) d by (simp add: worker_dequeue_def)
  qed
qed

text \<open>Every internal step does some of the work.\<close>

lemma internal_work:
  assumes "queue_inv (pl_queue p)" and "internal e" and "pipeline_step e p = Some p'"
  shows "work_left p' < work_left p"
proof (cases e)
  case (Ev_dequeue i)
  then show ?thesis using assms(3) worker_dequeue_work [OF assms(1)] by (simp split: if_splits)
next
  case (Ev_parse i random)
  then obtain frm where i: "i < length (pl_workers p)" "pl_workers p ! i = W_item frm"
    "p' = worker_parse i random frm p"
    using assms(3) by (auto split: if_splits worker.splits)
  obtain w f where "worker_parse i random frm p = set_worker i w (on_metrics f p)"
    "w = W_idle \<or> (\<exists>entry. w = W_send entry)"
    by (rule worker_parse_shape)
  then show ?thesis
    using i(2,3) sum_work_update [OF i(1), of w] by (auto simp: work_left_def set_worker_def)
next
  case (Ev_send i)
  then obtain entry where i: "i < length (pl_workers p)" "pl_workers p ! i = W_send entry"
    "worker_send i entry p = Some p'"
    using assms(3) by (auto split: if_splits worker.splits)
  then show ?thesis
    using sum_work_update [OF i(1), of W_idle]
    by (auto simp: worker_send_def work_left_def set_worker_def split: if_splits)
next
  case (Ev_abort i)
  then obtain entry where i: "i < length (pl_workers p)" "pl_workers p ! i = W_send entry"
    "worker_abort i p = Some p'"
    using assms(3) by (auto split: if_splits worker.splits)
  then show ?thesis
    using sum_work_update [OF i(1), of W_done]
    by (auto simp: worker_abort_def work_left_def set_worker_def split: if_splits)
next
  case Ev_close_parsed
  then show ?thesis using assms(3) by (auto simp: close_parsed_def work_left_def split: if_splits)
next
  case (Ev_receive env1 env2)
  then show ?thesis
    using assms(3) by (auto simp: batch_receive_def work_left_def split: batcher.splits list.splits if_splits)
next
  case Ev_batch_cancel
  then show ?thesis using assms(3) by (auto simp: batch_cancel_def work_left_def split: if_splits)
qed (use assms(2) in simp_all)

lemma receive_enabled:
  assumes "pl_batcher p \<noteq> Batch_done" and "pl_parsed p \<noteq> [] \<or> pl_parsed_closed p"
  shows "\<exists>p'. pipeline_step (Ev_receive env env) p = Some p'"
  using assms by (cases "pl_batcher p"; cases "pl_parsed p") (simp_all add: batch_receive_def)

lemma dequeue_enabled:
  assumes "queue_inv (pl_queue p)" and "q_closed (pl_queue p)"
  shows "worker_dequeue i p \<noteq> None"
proof -
  let ?ws = "if pl_cancelled p then [Wake_ctx] else []"
  have "dequeue_step (pl_queue p) \<noteq> Waits" using dequeue_step_cases(1) [OF assms(1)] assms(2) by simp
  then show ?thesis
    using dequeue_loop.simps [of "pl_queue p" ?ws]
    by (cases "dequeue_step (pl_queue p)" rule: attempt_cases) (simp_all add: worker_dequeue_def split_def)
qed

text \<open>A closed pipeline that has not ended has a step to take.\<close>

lemma stop_progress:
  assumes "queue_inv (pl_queue p)" and "q_closed (pl_queue p)" and "pl_batcher p \<noteq> Batch_done"
    and "append_contract env"
  shows "\<exists>e p'. internal e \<and> event_allowed e \<and> pipeline_step e p = Some p'"
proof (cases "list_all (\<lambda>w. w = W_done) (pl_workers p)")
  case True
  then show ?thesis
  proof (cases "pl_parsed_closed p")
    case True
    then obtain p' where "pipeline_step (Ev_receive env env) p = Some p'"
      using receive_enabled [OF assms(3)] by blast
    then show ?thesis using assms(4) by (intro exI [of _ "Ev_receive env env"]) simp
  qed (auto simp: close_parsed_def intro!: exI [of _ Ev_close_parsed])
next
  case False
  then obtain i where i: "i < length (pl_workers p)" "pl_workers p ! i \<noteq> W_done"
    by (auto simp: list_all_length)
  show ?thesis
  proof (cases "pl_workers p ! i")
    case W_idle
    then show ?thesis using i dequeue_enabled [OF assms(1,2)] by (intro exI [of _ "Ev_dequeue i"]) auto
  next
    case (W_item frm)
    then show ?thesis using i by (intro exI [of _ "Ev_parse i None"]) simp
  next
    case (W_send entry)
    show ?thesis
    proof (cases "length (pl_parsed p) < parsed_capacity")
      case True
      then show ?thesis using i W_send by (intro exI [of _ "Ev_send i"]) (simp add: worker_send_def)
    next
      case False
      then have "pl_parsed p \<noteq> []" by (auto simp: parsed_capacity_def)
      then obtain p' where "pipeline_step (Ev_receive env env) p = Some p'"
        using receive_enabled [OF assms(3)] by blast
      then show ?thesis using assms(4) by (intro exI [of _ "Ev_receive env env"]) simp
    qed
  qed (use i in simp)
qed

lemma internal_keeps_closed:
  assumes "queue_inv (pl_queue p)" and "internal e" and "pipeline_step e p = Some p'"
  shows "q_closed (pl_queue p') = q_closed (pl_queue p)"
proof (cases e)
  case (Ev_dequeue i)
  let ?ws = "if pl_cancelled p then [Wake_ctx] else []"
  obtain q r where d: "dequeue_loop (pl_queue p) ?ws = (q, r)" by fastforce
  have "?ws \<in> {[], [Wake_ctx]}" by simp
  note out = dequeue_loop_outcome [OF assms(1) this d]
  show ?thesis
    using out d assms(3) Ev_dequeue
    by (cases r rule: attempt_cases)
      (auto simp: worker_dequeue_def set_worker_def update_queue_metrics_def split: if_splits)
next
  case (Ev_parse i random)
  then obtain frm where "p' = worker_parse i random frm p"
    using assms(3) by (auto split: if_splits worker.splits)
  then obtain w f where "p' = set_worker i w (on_metrics f p)" using worker_parse_shape by metis
  then show ?thesis by (simp add: set_worker_def)
qed (use assms(2,3) in \<open>auto simp: worker_send_def worker_abort_def set_worker_def close_parsed_def batch_receive_def
       batch_cancel_def split: if_splits worker.splits batcher.splits list.splits\<close>)

lemma internal_keeps_cancelled:
  assumes "queue_inv (pl_queue p)" and "internal e" and "pipeline_step e p = Some p'"
  shows "pl_cancelled p' = pl_cancelled p"
proof (cases e)
  case (Ev_dequeue i)
  then show ?thesis
    using assms(3)
    by (auto simp: worker_dequeue_def set_worker_def update_queue_metrics_def split: if_splits prod.splits attempt.splits sum.splits)
next
  case (Ev_parse i random)
  then obtain frm where "p' = worker_parse i random frm p"
    using assms(3) by (auto split: if_splits worker.splits)
  then obtain w f where "p' = set_worker i w (on_metrics f p)" using worker_parse_shape by metis
  then show ?thesis by (simp add: set_worker_def)
qed (use assms(2,3) in \<open>auto simp: worker_send_def worker_abort_def set_worker_def close_parsed_def batch_receive_def
       batch_cancel_def split: if_splits worker.splits batcher.splits list.splits\<close>)

lemma run_keeps_cancelled:
  assumes "pipeline_inv p" and "list_all internal es" and "list_all event_allowed es" and "pipeline_run es p = Some p'"
  shows "pl_cancelled p' = pl_cancelled p"
  using assms
proof (induction es arbitrary: p)
  case (Cons e es)
  then obtain q where q: "pipeline_step e p = Some q" "pipeline_run es q = Some p'"
    by (auto simp: bind_eq_Some_conv)
  have "pipeline_inv q" using step_inv [of p e q] Cons.prems(1,3) q(1) by simp
  then show ?case
    using Cons.IH [of q] Cons.prems q internal_keeps_cancelled [of p e q] by (simp add: pipeline_inv_def)
qed simp

lemma run_work:
  assumes "pipeline_inv p" and "list_all internal es" and "list_all event_allowed es" and "pipeline_run es p = Some p'"
  shows "length es + work_left p' \<le> work_left p"
  using assms
proof (induction es arbitrary: p)
  case (Cons e es)
  then obtain q where q: "pipeline_step e p = Some q" "pipeline_run es q = Some p'"
    by (auto simp: bind_eq_Some_conv)
  have "work_left q < work_left p"
    using Cons.prems(1,2) q(1) by (intro internal_work) (simp_all add: pipeline_inv_def)
  moreover have "pipeline_inv q" using step_inv [of p e q] Cons.prems(1,3) q(1) by simp
  ultimately show ?case using Cons.IH [of q] Cons.prems(2,3) q(2) by simp
qed simp

lemma stop_runs:
  assumes "pipeline_inv p" and "q_closed (pl_queue p)" and "append_contract env"
  shows "\<exists>es p'. list_all internal es \<and> list_all event_allowed es \<and> pipeline_run es p = Some p' \<and> pl_batcher p' = Batch_done"
  using assms(1,2)
proof (induction "work_left p" arbitrary: p rule: less_induct)
  case less
  have inv: "queue_inv (pl_queue p)" using less.prems(1) by (simp add: pipeline_inv_def)
  show ?case
  proof (cases "pl_batcher p = Batch_done")
    case True
    then show ?thesis by (intro exI [of _ "[]"]) simp
  next
    case False
    obtain e q where e: "internal e" "event_allowed e" "pipeline_step e p = Some q"
      using stop_progress [OF inv less.prems(2) False assms(3)] by blast
    then have "\<exists>es p'. list_all internal es \<and> list_all event_allowed es \<and> pipeline_run es q = Some p' \<and> pl_batcher p' = Batch_done"
      using less step_inv internal_work [OF inv e(1,3)] internal_keeps_closed [OF inv e(1,3)] by blast
    then obtain es p' where "list_all internal es" "list_all event_allowed es" "pipeline_run es q = Some p'" "pl_batcher p' = Batch_done"
      by blast
    then show ?thesis using e by (intro exI [of _ "e # es"]) simp
  qed
qed

lemma all_done_load: "list_all (\<lambda>w. w = W_done) ws \<Longrightarrow> sum_list (map worker_load ws) = 0"
  by (induction ws) simp_all

lemma done_in_flight:
  assumes "flow_inv p" and "pl_batcher p = Batch_done"
  shows "in_flight p = int (length (queued (pl_queue p)))"
    and "\<not> pl_cancelled p \<Longrightarrow> queued (pl_queue p) = []"
proof -
  have all: "list_all (\<lambda>w. w = W_done) (pl_workers p)" "pl_parsed p = []" "pl_batch p = []" "pl_workers p \<noteq> []"
    using assms by (auto simp: flow_inv_def)
  then show "in_flight p = int (length (queued (pl_queue p)))"
    by (simp add: in_flight_def all_done_load)
  have "W_done \<in> set (pl_workers p)" using all(1,4) by (cases "pl_workers p") auto
  then show "\<not> pl_cancelled p \<Longrightarrow> queued (pl_queue p) = []" using assms(1) by (simp add: flow_inv_def)
qed

section \<open>The properties\<close>

text \<open>
  C2: no message disappears.  In every state a started pipeline reaches, under every
  interleaving of submitters, workers, batch worker, stop and cancellation, each received
  message is counted as accepted, counted as dropped at admission, or waiting in an enqueue;
  and each accepted message is in the pipeline, stored, or counted as dropped at a later stage.
\<close>

theorem accounting:
  assumes "started cfg p" and "reaches p q"
  shows "received_total q
           = accepted_total q + dropped_total (\<lambda>s. s = ''admission'') q + int (length (pl_waiting q))
     \<and> accepted_total q
           = in_flight q + stored_total (pl_metrics q) + dropped_total (\<lambda>s. s \<noteq> ''admission'') q"
  using reaches_inv [OF assms(2) started_inv [OF assms(1)]]
  by (simp_all add: pipeline_inv_def books_def)

text \<open>
  C8: when the batch worker has ended, nothing is left in the pipeline but what is still in the
  queue, and without a cancellation the queue is empty: every accepted message has been
  stored or counted as dropped.
\<close>

theorem graceful_stop:
  assumes "started cfg p" and "reaches p q" and "pl_batcher q = Batch_done"
  shows "in_flight q = int (length (queued (pl_queue q)))
     \<and> (\<not> pl_cancelled q \<longrightarrow>
          accepted_total q = stored_total (pl_metrics q) + dropped_total (\<lambda>s. s \<noteq> ''admission'') q)"
proof -
  have inv: "pipeline_inv q" "flow_inv q"
    using reaches_inv [OF assms(2)] reaches_flow [OF assms(2)] started_inv started_flow assms(1) by simp_all
  show ?thesis
    using done_in_flight [OF inv(2) assms(3)] inv(1) by (simp add: pipeline_inv_def books_def)
qed

text \<open>
  C9: a stop comes to its end.  From every reachable state with a closed queue, the steps of the
  pipeline's own goroutines can lead to the end of the batch worker (no deadlock, also with a
  full channel), and there is no sequence of such steps longer than the work left, so they
  cannot go on for ever without reaching it.
\<close>

theorem stop_ends:
  assumes "started cfg p" and "reaches p q" and "q_closed (pl_queue q)"
  shows "(\<exists>es q'. list_all internal es \<and> list_all event_allowed es \<and> pipeline_run es q = Some q' \<and> pl_batcher q' = Batch_done)
     \<and> (\<forall>es q'. list_all internal es \<and> list_all event_allowed es \<and> pipeline_run es q = Some q'
           \<longrightarrow> length es \<le> work_left q)"
proof -
  have inv: "pipeline_inv q" using reaches_inv [OF assms(2) started_inv [OF assms(1)]] .
  have "append_contract \<lparr>re_append = (\<lambda>_ _. Append_err), re_elapsed = (\<lambda>_. 0), re_ctx_done = (\<lambda>_. False), re_slept = (\<lambda>_. True),
          re_random = (\<lambda>_. 0)\<rparr>"
    by (simp add: append_contract_def)
  from stop_runs [OF inv assms(3) this] show ?thesis using run_work [OF inv] by fastforce
qed

text \<open>The default configuration with one worker.\<close>

definition sample_pipeline :: pipeline where
  "sample_pipeline = start_pipeline 0 (the (new_pipeline (\<lambda>_. None) (cf_ingestion default_config) ''victorialogs''))"

definition sample_env :: retry_env where
  "sample_env = \<lparr>re_append = (\<lambda>_ b. Append_ok (int (length b)) 7), re_elapsed = (\<lambda>_. 0), re_ctx_done = (\<lambda>_. False),
     re_slept = (\<lambda>_. True), re_random = (\<lambda>_. 0)\<rparr>"

definition sample_events :: "pipeline_event list" where
  "sample_events = [Ev_submit (sample_frame ''a''), Ev_enqueue 0 [], Ev_submit (sample_frame ''b''), Ev_enqueue 0 [],
     Ev_dequeue 0, Ev_parse 0 (Some (\<lambda>_. 0)), Ev_stop]"

definition late_events :: "pipeline_event list" where
  "late_events = sample_events @ [Ev_cancel, Ev_abort 0, Ev_close_parsed, Ev_batch_cancel, Ev_receive sample_env sample_env]"

text \<open>
  A stop whose deadline passes can lose accepted messages without a trace in the
  counters.  With one worker and two messages accepted, the worker is about to hand on the
  first when its context ends; it counts that one and returns, and everything ends with the
  second still in the queue: neither stored nor dropped.
\<close>

theorem late_stop_loses:
  "case pipeline_run late_events sample_pipeline of
     None \<Rightarrow> False
   | Some q \<Rightarrow> pl_batcher q = Batch_done \<and> accepted_total q = 2 \<and> stored_total (pl_metrics q) = 0
       \<and> dropped_total (\<lambda>_. True) q = 1 \<and> in_flight q = 1"
  by code_simp


lemma pipeline_run_append: "pipeline_run (es @ fs) p = Option.bind (pipeline_run es p) (pipeline_run fs)"
proof (induction es arbitrary: p)
  case (Cons e es)
  then show ?case by (cases "pipeline_step e p") simp_all
qed simp

lemma run_reaches: "list_all event_allowed es \<Longrightarrow> pipeline_run es p = Some q \<Longrightarrow> reaches p q"
proof (induction es arbitrary: q rule: rev_induct)
  case (snoc e es)
  then obtain r where "pipeline_run es p = Some r" "pipeline_step e r = Some q"
    by (auto simp: pipeline_run_append bind_eq_Some_conv)
  then show ?case using snoc by (auto intro: reaches_step)
qed (auto intro: reaches_refl)

lemma sample_allowed: "append_contract sample_env" "list_all event_allowed sample_events"
  by (simp_all add: append_contract_def sample_env_def sample_events_def)

lemma sample_started: "started (cf_ingestion default_config) sample_pipeline"
  by (auto simp: started_def sample_pipeline_def default_config_def new_pipeline_def)

theorem accounting_witness:
  "\<exists>q. pipeline_run sample_events sample_pipeline = Some q \<and> accepted_total q = 2
     \<and> 2 = in_flight q + stored_total (pl_metrics q) + dropped_total (\<lambda>s. s \<noteq> ''admission'') q"
proof -
  have "case pipeline_run sample_events sample_pipeline of None \<Rightarrow> False | Some q \<Rightarrow> accepted_total q = 2"
    by code_simp
  then obtain q where q: "pipeline_run sample_events sample_pipeline = Some q" "accepted_total q = 2"
    by (auto split: option.splits)
  with accounting [OF sample_started run_reaches [OF sample_allowed(2) q(1)]] show ?thesis by simp
qed

theorem graceful_stop_witness:
  "\<exists>q. pipeline_run (sample_events @ [Ev_send 0, Ev_dequeue 0, Ev_parse 0 None, Ev_dequeue 0, Ev_close_parsed,
        Ev_receive sample_env sample_env, Ev_receive sample_env sample_env]) sample_pipeline = Some q
     \<and> accepted_total q = 2 \<and> stored_total (pl_metrics q) + dropped_total (\<lambda>s. s \<noteq> ''admission'') q = 2"
proof -
  let ?es = "sample_events @ [Ev_send 0, Ev_dequeue 0, Ev_parse 0 None, Ev_dequeue 0, Ev_close_parsed,
        Ev_receive sample_env sample_env, Ev_receive sample_env sample_env]"
  have "case pipeline_run ?es sample_pipeline of None \<Rightarrow> False
      | Some q \<Rightarrow> accepted_total q = 2 \<and> pl_batcher q = Batch_done \<and> \<not> pl_cancelled q"
    by code_simp
  then obtain q where q: "pipeline_run ?es sample_pipeline = Some q" "accepted_total q = 2"
    "pl_batcher q = Batch_done" "\<not> pl_cancelled q"
    by (auto split: option.splits)
  have "list_all event_allowed ?es" using sample_allowed by simp
  from graceful_stop [OF sample_started run_reaches [OF this q(1)] q(3)] q show ?thesis by simp
qed

theorem stop_ends_witness:
  "\<exists>q. pipeline_run sample_events sample_pipeline = Some q
     \<and> (\<exists>es q'. list_all internal es \<and> pipeline_run es q = Some q' \<and> pl_batcher q' = Batch_done)"
proof -
  have "case pipeline_run sample_events sample_pipeline of None \<Rightarrow> False | Some q \<Rightarrow> q_closed (pl_queue q)"
    by code_simp
  then obtain q where q: "pipeline_run sample_events sample_pipeline = Some q" "q_closed (pl_queue q)"
    by (auto split: option.splits)
  with stop_ends [OF sample_started run_reaches [OF sample_allowed(2) q(1)] q(2)] show ?thesis by auto
qed

section \<open>The pipeline behind the listeners\<close>

text \<open>The two operations the listeners call, for submissions whose timer ends a wait for room.\<close>

definition pipeline_port :: "pipeline pipeline_ops" where
  "pipeline_port = \<lparr>po_submit = (\<lambda>p frm. the (submit p frm [Wake_timer])), po_reject = reject\<rparr>"

lemma enqueue_timer_returns: "enqueue q frm [Wake_timer] \<noteq> (q', Waits)"
  using enqueue_loop.simps [of q frm "[Wake_timer]"]
  by (cases "enqueue_step q frm" rule: attempt_cases) (simp_all add: enqueue_def)

lemma submit_keeps_inv:
  assumes "pipeline_inv p"
  shows "pipeline_inv (fst (the (submit p frm [Wake_timer])))"
proof -
  obtain p1 go where b: "submit_begin p frm = (p1, go)" by fastforce
  note inv1 = submit_begin_inv [OF assms b]
  show ?thesis
  proof (cases go)
    case True
    define p2 where "p2 = p1\<lparr>pl_waiting := pl_waiting p1 @ [frm]\<rparr>"
    have inv2: "pipeline_inv p2" using inv1 True by (simp add: p2_def)
    obtain q a where e: "enqueue (pl_queue p1) frm [Wake_timer] = (q, a)" by fastforce
    then obtain p3 out where f: "submit_finish p1 frm [Wake_timer] = Some (p3, out)"
      using enqueue_timer_returns [of "pl_queue p1" frm q]
      by (cases a rule: attempt_cases) (auto simp: submit_finish_def)
    have "submit_finish p2 frm [Wake_timer] = Some (p3\<lparr>pl_waiting := pl_waiting p2\<rparr>, out)"
      using f e by (cases a rule: attempt_cases)
        (auto simp: submit_finish_def p2_def on_metrics_def update_queue_metrics_def)
    moreover have "pl_waiting p2 ! length (pl_waiting p1) = frm" "length (pl_waiting p1) < length (pl_waiting p2)"
      by (simp_all add: p2_def)
    ultimately have "pipeline_inv (p3\<lparr>pl_waiting := pl_waiting p1\<rparr>)"
      using submit_finish_inv [OF inv2, of "length (pl_waiting p1)" "[Wake_timer]"] by (simp add: p2_def)
    moreover have "pl_waiting p3 = pl_waiting p1"
      using f e by (cases a rule: attempt_cases) (auto simp: submit_finish_def on_metrics_def update_queue_metrics_def)
    then have "p3\<lparr>pl_waiting := pl_waiting p1\<rparr> = p3" by (cases p3) simp
    ultimately show ?thesis using b f True by (simp add: submit_def)
  qed (use b inv1 in \<open>simp add: submit_def\<close>)
qed

interpretation port: frame_sink pipeline_port pipeline_inv "\<lambda>_. True"
  by unfold_locales (simp_all add: pipeline_port_def submit_keeps_inv control_inv)

end
