(* ===== verification/Batch_Timer.thy ===== *)
theory Batch_Timer
  imports Pipeline_Correct
begin

text \<open>
  The clock of the batch worker in \<^verbatim>\<open>backend/internal/ingestion/pipeline.go\<close>: its timer, \<^verbatim>\<open>resetTimer\<close>, and
  the loop of \<^verbatim>\<open>batchWorker\<close> with the times at which things happen.  Shown is that an entry that has
  been in the batch for the maximal age finds the tick of the timer waiting for the worker.
\<close>

section \<open>Definitions\<close>

text \<open>A timer: when it is due, if it is running, and whether a tick is in its channel.\<close>

record go_timer =
  bt_due :: "instant option"
  bt_tick :: bool

definition new_timer :: "instant \<Rightarrow> duration \<Rightarrow> go_timer" where
  "new_timer now d = \<lparr>bt_due = Some (now + d), bt_tick = False\<rparr>"

definition timer_advance :: "instant \<Rightarrow> go_timer \<Rightarrow> go_timer" where
  "timer_advance now tm =
     (case bt_due tm of
        None \<Rightarrow> tm
      | Some d \<Rightarrow> if d \<le> now then \<lparr>bt_due = None, bt_tick = True\<rparr> else tm)"

text \<open>
  The module asks for Go 1.27, and since Go 1.23 \<^verbatim>\<open>Stop\<close> and \<^verbatim>\<open>Reset\<close> discard a tick that has not
  been received; \<^verbatim>\<open>Stop\<close> says whether there was a run or a tick to stop.
\<close>

definition timer_stop :: "go_timer \<Rightarrow> go_timer \<times> bool" where
  "timer_stop tm = (\<lparr>bt_due = None, bt_tick = False\<rparr>, bt_due tm \<noteq> None \<or> bt_tick tm)"

definition timer_reset :: "instant \<Rightarrow> duration \<Rightarrow> go_timer \<Rightarrow> go_timer" where
  "timer_reset now d tm = tm\<lparr>bt_due := Some (now + d), bt_tick := False\<rparr>"

definition reset_timer :: "instant \<Rightarrow> duration \<Rightarrow> go_timer \<Rightarrow> go_timer" where
  "reset_timer now d tm =
     (case timer_stop tm of
        (tm1, running) \<Rightarrow> timer_reset now d (if \<not> running then tm1\<lparr>bt_tick := False\<rparr> else tm1))"

text \<open>The worker with its clock; \<open>td_joined\<close> are the times at which the entries of the batch joined it.\<close>

record timed_worker =
  td_pipe :: pipeline
  td_timer :: go_timer
  td_now :: instant
  td_joined :: "instant list"

definition max_age :: "timed_worker \<Rightarrow> duration" where
  "max_age s = bc_max_age (ic_batch (pl_cfg (td_pipe s)))"

definition start_timed :: "instant \<Rightarrow> pipeline \<Rightarrow> timed_worker" where
  "start_timed now p =
     \<lparr>td_pipe = p, td_timer = new_timer now (bc_max_age (ic_batch (pl_cfg p))), td_now = now, td_joined = []\<rparr>"

text \<open>The two conditions under which the arrival of an entry flushes, before and after it joins.\<close>

definition flush_before :: "log_entry \<Rightarrow> pipeline \<Rightarrow> bool" where
  "flush_before entry p \<longleftrightarrow>
     pl_batch p \<noteq> [] \<and> (bc_max_events (ic_batch (pl_cfg p)) \<le> int (length (pl_batch p))
       \<or> bc_max_bytes (ic_batch (pl_cfg p)) < pl_batch_bytes p + entry_size entry)"

definition flush_after :: "pipeline \<Rightarrow> bool" where
  "flush_after p \<longleftrightarrow>
     bc_max_events (ic_batch (pl_cfg p)) \<le> int (length (pl_batch p)) \<or> bc_max_bytes (ic_batch (pl_cfg p)) \<le> pl_batch_bytes p"

text \<open>
  What happens: time passes while the worker waits; it receives an entry, with the times at which
  its flushes return; or it receives the tick, with the time at which the flush returns.
\<close>

datatype timed_event =
    T_pass instant
  | T_receive instant instant retry_env retry_env log_entry
  | T_tick instant retry_env

fun timed_step :: "timed_event \<Rightarrow> timed_worker \<Rightarrow> timed_worker option" where
  "timed_step (T_pass t) s =
     (if td_now s \<le> t then Some (s\<lparr>td_now := t, td_timer := timer_advance t (td_timer s)\<rparr>) else None)"
| "timed_step (T_receive t1 t2 env1 env2 entry) s =
     (if td_now s \<le> t1 \<and> t1 \<le> t2 then
        (let p = td_pipe s; age = max_age s;
             (p1, tm1, now1, joined1) =
               (if flush_before entry p
                then (flush env1 p, reset_timer t1 age (timer_advance t1 (td_timer s)), t1, [])
                else (p, td_timer s, td_now s, td_joined s));
             p2 = p1\<lparr>pl_batch := pl_batch p1 @ [entry], pl_batch_bytes := pl_batch_bytes p1 + entry_size entry\<rparr>
         in if flush_after p2
            then Some \<lparr>td_pipe = flush env2 p2, td_timer = reset_timer t2 age (timer_advance t2 tm1), td_now = t2,
                       td_joined = []\<rparr>
            else Some \<lparr>td_pipe = p2, td_timer = tm1, td_now = now1, td_joined = joined1 @ [now1]\<rparr>)
      else None)"
| "timed_step (T_tick t env) s =
     (if bt_tick (td_timer s) \<and> td_now s \<le> t
      then Some (s\<lparr>td_pipe := flush env (td_pipe s), td_now := t, td_joined := [],
                   td_timer := timer_reset t (max_age s) ((td_timer s)\<lparr>bt_tick := False\<rparr>)\<rparr>)
      else None)"

fun timed_run :: "timed_event list \<Rightarrow> timed_worker \<Rightarrow> timed_worker option" where
  "timed_run [] s = Some s"
| "timed_run (e # es) s = Option.bind (timed_step e s) (timed_run es)"

section \<open>The clock refines the pipeline's steps\<close>

abbreviation join_batch :: "log_entry \<Rightarrow> pipeline \<Rightarrow> pipeline" where
  "join_batch entry p \<equiv> p\<lparr>pl_batch := pl_batch p @ [entry], pl_batch_bytes := pl_batch_bytes p + entry_size entry\<rparr>"

lemma add_entry_flushes:
  "add_entry env1 env2 entry p =
     (let p1 = (if flush_before entry p then flush env1 p else p)
      in if flush_after (join_batch entry p1) then flush env2 (join_batch entry p1) else join_batch entry p1)"
  by (cases "flush_before entry p") (simp_all add: add_entry_def Let_def flush_before_def flush_after_def)

lemma timed_receive_pipe:
  assumes "timed_step (T_receive t1 t2 env1 env2 entry) s = Some s'"
  shows "td_pipe s' = add_entry env1 env2 entry (td_pipe s)"
  using assms unfolding add_entry_flushes
  by (cases "flush_before entry (td_pipe s)") (auto simp: Let_def simp del: flush_simps split: if_splits)

lemma timed_tick_pipe: "timed_step (T_tick t env) s = Some s' \<Longrightarrow> td_pipe s' = flush env (td_pipe s)"
  by (auto split: if_splits)

section \<open>The age of entries\<close>

text \<open>
  A timer with a tick in its channel does not run, and one without is due in time for every
  entry of the batch.
\<close>

definition timer_ok :: "instant \<Rightarrow> duration \<Rightarrow> instant list \<Rightarrow> go_timer \<Rightarrow> bool" where
  "timer_ok now age joined tm \<longleftrightarrow>
     (case bt_due tm of
        None \<Rightarrow> bt_tick tm
      | Some d \<Rightarrow> \<not> bt_tick tm \<and> now < d \<and> d \<le> now + age \<and> list_all (\<lambda>a. d \<le> a + age) joined)"

definition timed_inv :: "duration \<Rightarrow> timed_worker \<Rightarrow> bool" where
  "timed_inv age s \<longleftrightarrow>
     max_age s = age \<and> length (td_joined s) = length (pl_batch (td_pipe s))
     \<and> timer_ok (td_now s) age (td_joined s) (td_timer s)"

lemma timer_ok_advance:
  "timer_ok now age joined tm \<Longrightarrow> now \<le> t \<Longrightarrow> timer_ok t age joined (timer_advance t tm)"
  by (auto simp: timer_ok_def timer_advance_def split: option.splits)

lemma timer_ok_reset: "timer_ok now age joined tm \<Longrightarrow> 0 < age \<Longrightarrow> timer_ok t age [] (reset_timer t age tm)"
  by (auto simp: timer_ok_def reset_timer_def timer_stop_def timer_reset_def split: option.splits)

lemma timer_ok_join: "timer_ok now age joined tm \<Longrightarrow> timer_ok now age (joined @ [now]) tm"
  by (auto simp: timer_ok_def split: option.splits)

lemma timed_step_inv:
  assumes "timed_inv age s" and "0 < age" and "timed_step e s = Some s'"
  shows "timed_inv age s'"
proof (cases e)
  case (T_pass t)
  then show ?thesis using assms by (auto simp: timed_inv_def max_age_def timer_ok_advance split: if_splits)
next
  case (T_tick t env)
  then show ?thesis
    using assms by (auto simp: timed_inv_def max_age_def timer_ok_def timer_reset_def split: if_splits option.splits)
next
  case (T_receive t1 t2 env1 env2 entry)
  let ?p = "td_pipe s"
  define p1 tm1 now1 joined1 where
    "p1 = (if flush_before entry ?p then flush env1 ?p else ?p)"
    and "tm1 = (if flush_before entry ?p then reset_timer t1 age (timer_advance t1 (td_timer s)) else td_timer s)"
    and "now1 = (if flush_before entry ?p then t1 else td_now s)"
    and "joined1 = (if flush_before entry ?p then [] else td_joined s)"
  note defs = p1_def tm1_def now1_def joined1_def
  have t: "td_now s \<le> t1" "t1 \<le> t2" using assms(3) T_receive by (simp_all split: if_splits)
  have age: "max_age s = age" and len: "length (td_joined s) = length (pl_batch ?p)"
    and tm: "timer_ok (td_now s) age (td_joined s) (td_timer s)" using assms(1) by (simp_all add: timed_inv_def)
  have tm1: "timer_ok now1 age joined1 tm1" "now1 \<le> t2"
    using tm t timer_ok_reset [OF timer_ok_advance [OF tm t(1)] assms(2)] by (simp_all add: defs)
  have s': "s' = (if flush_after (join_batch entry p1)
      then \<lparr>td_pipe = flush env2 (join_batch entry p1), td_timer = reset_timer t2 age (timer_advance t2 tm1), td_now = t2, td_joined = []\<rparr>
      else \<lparr>td_pipe = join_batch entry p1, td_timer = tm1, td_now = now1, td_joined = joined1 @ [now1]\<rparr>)"
    using assms(3) t T_receive age by (cases "flush_before entry ?p") (simp_all add: defs Let_def split: if_splits)
  have "length joined1 = length (pl_batch p1)" "pl_cfg p1 = pl_cfg ?p" using len by (simp_all add: defs)
  then show ?thesis
    using age timer_ok_join [OF tm1(1)] timer_ok_reset [OF timer_ok_advance [OF tm1] assms(2)]
    by (simp add: s' timed_inv_def max_age_def)
qed

lemma timed_run_inv: "timed_run es s = Some s' \<Longrightarrow> timed_inv age s \<Longrightarrow> 0 < age \<Longrightarrow> timed_inv age s'"
  by (induction es arbitrary: s) (auto simp: bind_eq_Some_conv intro: timed_step_inv)

text \<open>
  C22: no entry grows too old unnoticed.  Whatever the batch worker receives and however long its
  flushes take, its timer is running or has ticked; and as soon as an entry has been in the batch
  for the maximal age, the tick is in the channel, and taking it flushes the whole batch.
\<close>

theorem batch_age:
  assumes "timed_run es (start_timed now p) = Some s" and "pl_batch p = []" and "0 < bc_max_age (ic_batch (pl_cfg p))"
    and "a \<in> set (td_joined s)" and "a + bc_max_age (ic_batch (pl_cfg p)) \<le> td_now s"
  shows "length (td_joined s) = length (pl_batch (td_pipe s)) \<and> bt_tick (td_timer s)
     \<and> (\<exists>s'. timed_step (T_tick (td_now s) env) s = Some s' \<and> td_pipe s' = flush env (td_pipe s) \<and> pl_batch (td_pipe s') = [])"
proof -
  let ?age = "bc_max_age (ic_batch (pl_cfg p))"
  have "timed_inv ?age (start_timed now p)"
    using assms(2,3) by (simp add: timed_inv_def start_timed_def max_age_def new_timer_def timer_ok_def)
  then have inv: "timed_inv ?age s" using timed_run_inv [OF assms(1)] assms(3) by blast
  then have "bt_tick (td_timer s)"
    using assms(4,5) by (auto simp: timed_inv_def timer_ok_def list_all_iff split: option.splits)
  then show ?thesis using inv by (simp add: timed_inv_def)
qed

section \<open>Witness\<close>

theorem batch_age_witness:
  "\<exists>s. timed_run [T_receive 1 1 sample_env sample_env (sample_entry ''a''), T_pass 2000000000]
        (start_timed 0 (sample_pipeline\<lparr>pl_cfg := (pl_cfg sample_pipeline)\<lparr>ic_batch := \<lparr>bc_max_events = 10, bc_max_bytes = 100,
           bc_max_age = 1000000000, bc_max_age_text = []\<rparr>\<rparr>\<rparr>)) = Some s
     \<and> td_joined s = [0] \<and> bt_tick (td_timer s)"
proof -
  let ?p = "sample_pipeline\<lparr>pl_cfg := (pl_cfg sample_pipeline)\<lparr>ic_batch := \<lparr>bc_max_events = 10, bc_max_bytes = 100,
           bc_max_age = 1000000000, bc_max_age_text = []\<rparr>\<rparr>\<rparr>"
  let ?es = "[T_receive 1 1 sample_env sample_env (sample_entry ''a''), T_pass 2000000000]"
  have "case timed_run ?es (start_timed 0 ?p) of None \<Rightarrow> False | Some s \<Rightarrow> td_joined s = [0] \<and> td_now s = 2000000000"
    by code_simp
  then obtain s where s: "timed_run ?es (start_timed 0 ?p) = Some s" "td_joined s = [0]" "td_now s = 2000000000"
    by (auto split: option.splits)
  have "pl_batch ?p = []" by code_simp
  with batch_age [OF s(1), of 0] s show ?thesis by simp
qed

end
