(* ===== verification/Delivery.thy ===== *)
theory Delivery
  imports Batch_Timer "HOL-Library.Multiset"
begin

text \<open>
  What becomes of the messages themselves, beyond their number: which frames a run of
  \<^verbatim>\<open>backend/internal/ingestion/pipeline.go\<close> accepts, which entries its storage acknowledges, and
  how the two belong together.
\<close>

section \<open>Definitions\<close>

text \<open>Whether \<^verbatim>\<open>appendWithRetry\<close> gets an acknowledgement, from an attempt on.\<close>

function acknowledged :: "retry_config \<Rightarrow> retry_env \<Rightarrow> log_entry list \<Rightarrow> int \<Rightarrow> bool" where
  "acknowledged cfg env batch attempt =
     (if rc_max_attempts cfg < attempt then False
      else
        (case re_append env attempt batch of
           Append_ok accepted n \<Rightarrow> True
         | Append_err \<Rightarrow>
             \<not> (attempt = rc_max_attempts cfg \<or> re_ctx_done env attempt) \<and> acknowledged cfg env batch (attempt + 1)))"
  by pat_completeness auto
termination
  by (relation "measure (\<lambda>(cfg, env, batch, attempt). nat (rc_max_attempts cfg + 1 - attempt))") auto

declare acknowledged.simps [simp del]

text \<open>The entries that a flush, the arrival of an entry, and an event store.\<close>

definition flush_stores :: "retry_env \<Rightarrow> pipeline \<Rightarrow> log_entry list" where
  "flush_stores env p = (if acknowledged (ic_retry (pl_cfg p)) env (pl_batch p) 1 then pl_batch p else [])"

definition add_stores :: "retry_env \<Rightarrow> retry_env \<Rightarrow> log_entry \<Rightarrow> pipeline \<Rightarrow> log_entry list" where
  "add_stores env1 env2 entry p =
     (let p1 = (if flush_before entry p then flush env1 p else p); p2 = join_batch entry p1
      in (if flush_before entry p then flush_stores env1 p else []) @ (if flush_after p2 then flush_stores env2 p2 else []))"

fun event_stores :: "pipeline_event \<Rightarrow> pipeline \<Rightarrow> log_entry list" where
  "event_stores (Ev_receive env1 env2) p =
     (case (pl_batcher p, pl_parsed p) of
        (Batch_running, entry # rest) \<Rightarrow> add_stores env1 env2 entry (p\<lparr>pl_parsed := rest\<rparr>)
      | (Batch_draining, entry # rest) \<Rightarrow> []
      | (b, ps) \<Rightarrow> flush_stores env1 p)"
| "event_stores (Ev_timer env) p = flush_stores env p"
| "event_stores e p = []"

text \<open>The frames that an event accepts.\<close>

fun event_accepts :: "pipeline_event \<Rightarrow> pipeline \<Rightarrow> frame list" where
  "event_accepts (Ev_enqueue i ws) p =
     (case submit_finish p (pl_waiting p ! i) ws of
        Some (p', Inr _) \<Rightarrow> [pl_waiting p ! i]
      | _ \<Rightarrow> [])"
| "event_accepts e p = []"

text \<open>A run, with the frames accepted and the entries stored along it, in order.\<close>

fun pipeline_trace :: "pipeline_event list \<Rightarrow> pipeline \<Rightarrow> (pipeline \<times> frame list \<times> log_entry list) option" where
  "pipeline_trace [] p = Some (p, [], [])"
| "pipeline_trace (e # es) p =
     Option.bind (pipeline_step e p) (\<lambda>p'.
       map_option (\<lambda>(q, accepted, stored). (q, event_accepts e p @ accepted, event_stores e p @ stored)) (pipeline_trace es p'))"

text \<open>What a worker makes of a frame, with some random bytes.\<close>

definition reading :: "pipeline \<Rightarrow> frame \<Rightarrow> (nat \<Rightarrow> u8) option \<Rightarrow> log_entry option" where
  "reading p frm random =
     (case registry_parse new_registry (parser_name p frm) (fr_payload frm) (fr_received_at frm)
             (pl_locations p (fr_source_id frm)) of
        Inl _ \<Rightarrow> None
      | Inr event \<Rightarrow> normalize_entry random frm event)"

definition reads_as :: "pipeline \<Rightarrow> frame \<Rightarrow> log_entry \<Rightarrow> bool" where
  "reads_as p frm entry \<longleftrightarrow> (\<exists>random. reading p frm random = Some entry)"

section \<open>The ledger\<close>

text \<open>
  The specification: a ledger of the frames accepted, the entries stored, the frames and entries
  still inside and the number of those dropped.  A frame is accepted, read as an entry or dropped;
  entries are stored or dropped.  Nothing is invented, copied or changed.
\<close>

inductive ledger ::
  "(frame \<Rightarrow> log_entry \<Rightarrow> bool) \<Rightarrow> frame multiset \<Rightarrow> log_entry multiset \<Rightarrow> frame multiset \<Rightarrow> log_entry multiset \<Rightarrow> int \<Rightarrow> bool"
  for r :: "frame \<Rightarrow> log_entry \<Rightarrow> bool" where
  ledger_open: "ledger r {#} {#} {#} {#} 0"
| ledger_accept: "ledger r A S F E n \<Longrightarrow> ledger r (A + {#f#}) S (F + {#f#}) E n"
| ledger_read: "ledger r A S (F + {#f#}) E n \<Longrightarrow> r f e \<Longrightarrow> ledger r A S F (E + {#e#}) n"
| ledger_refuse: "ledger r A S (F + {#f#}) E n \<Longrightarrow> ledger r A S F E (n + 1)"
| ledger_store: "ledger r A S F (E + B) n \<Longrightarrow> ledger r A (S + B) F E n"
| ledger_lose: "ledger r A S F (E + B) n \<Longrightarrow> ledger r A S F E (n + int (size B))"

text \<open>
  In a ledger, every entry belongs to a frame of its own: \<open>D\<close> pairs the stored ones with their
  frames, \<open>M\<close> those inside, and \<open>L\<close> are the frames that were dropped.
\<close>

definition balanced ::
  "(frame \<Rightarrow> log_entry \<Rightarrow> bool) \<Rightarrow> frame multiset \<Rightarrow> log_entry multiset \<Rightarrow> frame multiset \<Rightarrow> log_entry multiset \<Rightarrow> int
   \<Rightarrow> (frame \<times> log_entry) multiset \<Rightarrow> (frame \<times> log_entry) multiset \<Rightarrow> frame multiset \<Rightarrow> bool" where
  "balanced r A S F E n D M L \<longleftrightarrow>
     image_mset snd D = S \<and> image_mset snd M = E \<and> (\<forall>x \<in># D + M. r (fst x) (snd x))
     \<and> A = F + image_mset fst M + image_mset fst D + L \<and> n = int (size L)"

lemma balanced_split:
  assumes "balanced r A S F (E + B) n D M L"
  obtains M1 M2 where "M = M1 + M2" "image_mset snd M1 = E" "image_mset snd M2 = B"
  using assms image_mset_eq_plusD [of snd M E B] by (auto simp: balanced_def)

lemma ledger_balanced: "ledger r A S F E n \<Longrightarrow> \<exists>D M L. balanced r A S F E n D M L"
proof (induction rule: ledger.induct)
  case ledger_open
  then show ?case by (intro exI [of _ "{#}"]) (simp add: balanced_def)
next
  case (ledger_accept A S F E n f)
  then obtain D M L where "balanced r A S F E n D M L" by blast
  then have "balanced r (A + {#f#}) S (F + {#f#}) E n D M L" by (simp add: balanced_def)
  then show ?case by blast
next
  case (ledger_read A S F f E n e)
  then obtain D M L where "balanced r A S (F + {#f#}) E n D M L" by blast
  then have "balanced r A S F (E + {#e#}) n D (M + {#(f, e)#}) L"
    using ledger_read.hyps(2) by (simp add: balanced_def)
  then show ?case by blast
next
  case (ledger_refuse A S F f E n)
  then obtain D M L where "balanced r A S (F + {#f#}) E n D M L" by blast
  then have "balanced r A S F E (n + 1) D M (L + {#f#})" by (simp add: balanced_def)
  then show ?case by blast
next
  case (ledger_store A S F E B n)
  then obtain D M L where b: "balanced r A S F (E + B) n D M L" by blast
  then obtain M1 M2 where m: "M = M1 + M2" "image_mset snd M1 = E" "image_mset snd M2 = B" by (rule balanced_split)
  then have "balanced r A (S + B) F E n (D + M2) M1 L" using b by (auto simp: balanced_def ac_simps)
  then show ?case by blast
next
  case (ledger_lose A S F E B n)
  then obtain D M L where b: "balanced r A S F (E + B) n D M L" by blast
  then obtain M1 M2 where m: "M = M1 + M2" "image_mset snd M1 = E" "image_mset snd M2 = B" by (rule balanced_split)
  then have "balanced r A S F E (n + int (size B)) D M1 (L + image_mset fst M2)"
    using b by (auto simp: balanced_def ac_simps)
  then show ?case by blast
qed

section \<open>The pipeline keeps a ledger\<close>

fun worker_frames :: "worker \<Rightarrow> frame multiset" where
  "worker_frames (W_item frm) = {#frm#}"
| "worker_frames _ = {#}"

fun worker_entries :: "worker \<Rightarrow> log_entry multiset" where
  "worker_entries (W_send entry) = {#entry#}"
| "worker_entries _ = {#}"

text \<open>The frames and the entries inside the pipeline.\<close>

definition frames_in :: "pipeline \<Rightarrow> frame multiset" where
  "frames_in p = mset (queued (pl_queue p)) + sum_list (map worker_frames (pl_workers p))"

definition entries_in :: "pipeline \<Rightarrow> log_entry multiset" where
  "entries_in p = sum_list (map worker_entries (pl_workers p)) + mset (pl_parsed p) + mset (pl_batch p)"

abbreviation dropped_inside :: "pipeline \<Rightarrow> int" where
  "dropped_inside p \<equiv> dropped_total (\<lambda>s. s \<noteq> ''admission'') p"

text \<open>The ledger of a pipeline, with \<open>X\<close> in the hands of the batch worker.\<close>

definition pipe_ledger ::
  "(frame \<Rightarrow> log_entry \<Rightarrow> bool) \<Rightarrow> frame multiset \<Rightarrow> log_entry multiset \<Rightarrow> log_entry multiset \<Rightarrow> pipeline \<Rightarrow> bool" where
  "pipe_ledger r A S X p = ledger r A S (frames_in p) (entries_in p + X) (dropped_inside p)"

lemmas inside_defs = frames_in_def entries_in_def dropped_total_def

lemma sum_update_mset:
  fixes f :: "worker \<Rightarrow> 'a multiset"
  assumes "i < length ws"
  shows "sum_list (map f (ws[i := w])) + f (ws ! i) = sum_list (map f ws) + f w"
  using assms
proof (induction ws arbitrary: i)
  case (Cons a ws)
  then show ?case by (cases i) (simp_all add: ac_simps)
qed simp

lemma pipe_ledger_cong:
  "frames_in p' = frames_in p \<Longrightarrow> entries_in p' = entries_in p \<Longrightarrow> dropped_inside p' = dropped_inside p
   \<Longrightarrow> pipe_ledger r A S X p' = pipe_ledger r A S X p"
  by (simp add: pipe_ledger_def)

subsection \<open>Storage\<close>

lemma append_loop_dropped:
  assumes "attempt \<le> rc_max_attempts cfg"
  shows "mt_dropped (fst (append_loop name cfg env batch attempt backoff m)) =
     (if acknowledged cfg env batch attempt then mt_dropped m
      else counter_add (''storage'', ''retry_exhausted'') (int (length batch)) (mt_dropped m))"
  using assms
proof (induction name cfg env batch attempt backoff m rule: append_loop.induct)
  case (1 name cfg env batch attempt backoff m)
  note loop = append_loop.simps [of name cfg env batch attempt backoff m]
    and ack = acknowledged.simps [of cfg env batch attempt]
  show ?case
  proof (cases "re_append env attempt batch")
    case (Append_ok a n)
    then show ?thesis using "1.prems" by (simp add: loop ack)
  next
    case err: Append_err
    show ?thesis
    proof (cases "attempt = rc_max_attempts cfg \<or> re_ctx_done env attempt")
      case True
      then show ?thesis using err "1.prems" by (simp add: loop ack drop_event_def)
    next
      case False
      then have "attempt + 1 \<le> rc_max_attempts cfg" using "1.prems" by simp
      from "1.IH" [OF _ err refl False refl this] False err "1.prems" show ?thesis
        by (simp add: loop ack Let_def split_def)
    qed
  qed
qed

lemma flush_ledger:
  assumes "0 < rc_max_attempts (ic_retry (pl_cfg p))" and "pipe_ledger r A S X p"
  shows "pipe_ledger r A (S + mset (flush_stores env p)) X (flush env p)"
proof (cases "pl_batch p = []")
  case True
  then show ?thesis using assms(2) by (simp add: flush_def flush_stores_def)
next
  case False
  let ?ack = "acknowledged (ic_retry (pl_cfg p)) env (pl_batch p) 1" and ?B = "mset (pl_batch p)"
  have "frames_in (flush env p) = frames_in p" "entries_in p + X = entries_in (flush env p) + X + ?B"
    by (simp_all add: inside_defs ac_simps)
  note inside = this
  have l: "ledger r A S (frames_in p) (entries_in (flush env p) + X + ?B) (dropped_inside p)"
    using assms(2) unfolding pipe_ledger_def inside(2) .
  have "dropped_inside (flush env p) = dropped_inside p + (if ?ack then 0 else int (size ?B))"
    using assms(1) False append_loop_dropped [of 1 "ic_retry (pl_cfg p)" "pl_backend_name p"]
    by (simp add: dropped_total_def flush_def append_with_retry_def on_metrics_def)
  then show ?thesis
    using ledger_store [OF l] ledger_lose [OF l] by (simp add: pipe_ledger_def flush_stores_def inside(1))
qed

lemma join_ledger: "pipe_ledger r A S (X + {#entry#}) p \<Longrightarrow> pipe_ledger r A S X (join_batch entry p)"
  by (simp add: pipe_ledger_def inside_defs ac_simps)

lemma add_entry_ledger:
  assumes "0 < rc_max_attempts (ic_retry (pl_cfg p))" and "pipe_ledger r A S {#entry#} p"
  shows "pipe_ledger r A (S + mset (add_stores env1 env2 entry p)) {#} (add_entry env1 env2 entry p)"
proof -
  define p1 where "p1 = (if flush_before entry p then flush env1 p else p)"
  define S1 where "S1 = S + mset (if flush_before entry p then flush_stores env1 p else [])"
  have "pipe_ledger r A S1 {#entry#} p1" using assms flush_ledger by (simp add: p1_def S1_def)
  then have l: "pipe_ledger r A S1 {#} (join_batch entry p1)" by (intro join_ledger) simp
  have "0 < rc_max_attempts (ic_retry (pl_cfg (join_batch entry p1)))" using assms(1) by (simp add: p1_def)
  from l flush_ledger [OF this l, of env2] show ?thesis
    by (simp add: add_entry_flushes add_stores_def p1_def [symmetric] Let_def S1_def ac_simps)
qed

lemma batch_receive_ledger:
  assumes "0 < rc_max_attempts (ic_retry (pl_cfg p))" and "batch_receive env1 env2 p = Some p'" and "pipe_ledger r A S {#} p"
  shows "pipe_ledger r A (S + mset (event_stores (Ev_receive env1 env2) p)) {#} p'"
proof (cases "pl_parsed p")
  case Nil
  have "pipe_ledger r A S' {#} (q\<lparr>pl_batcher := b\<rparr>) = pipe_ledger r A S' {#} q" for S' q b
    by (rule pipe_ledger_cong) (simp_all add: inside_defs)
  then show ?thesis
    using Nil assms flush_ledger [OF assms(1,3), of env1] by (auto simp: batch_receive_def split: batcher.splits if_splits)
next
  case (Cons entry rest)
  let ?p = "p\<lparr>pl_parsed := rest\<rparr>"
  have l: "pipe_ledger r A S {#entry#} ?p" using assms(3) Cons by (simp add: pipe_ledger_def inside_defs ac_simps)
  have "pipe_ledger r A S {#} (p\<lparr>pl_parsed := rest, pl_batch := pl_batch p @ [entry]\<rparr>)"
    using l by (simp add: pipe_ledger_def inside_defs ac_simps)
  then show ?thesis
    using Cons assms(1,2) add_entry_ledger [OF _ l, of env1 env2]
    by (auto simp: batch_receive_def split: batcher.splits)
qed

subsection \<open>Admission and workers\<close>

lemma set_worker_inside:
  assumes "i < length (pl_workers p)"
  shows "frames_in (set_worker i w p) + worker_frames (pl_workers p ! i) = frames_in p + worker_frames w"
    and "entries_in (set_worker i w p) + worker_entries (pl_workers p ! i) = entries_in p + worker_entries w"
  using sum_update_mset [OF assms, of worker_frames w] sum_update_mset [OF assms, of worker_entries w]
  by (simp_all add: inside_defs set_worker_def ac_simps)

lemma metrics_inside [simp]:
  "frames_in (on_metrics f p) = frames_in p" "entries_in (on_metrics f p) = entries_in p"
  "frames_in (update_queue_metrics p) = frames_in p" "entries_in (update_queue_metrics p) = entries_in p"
  "dropped_total sel (update_queue_metrics p) = dropped_total sel p" "dropped_total sel (set_worker i w p) = dropped_total sel p"
  by (simp_all add: inside_defs update_queue_metrics_def set_worker_def)

lemma dropped_on_metrics: "dropped_total sel (on_metrics f p) = counter_total (\<lambda>l. sel (fst l)) (mt_dropped (f (pl_metrics p)))"
  by (simp add: dropped_total_def on_metrics_def)

lemma submit_finish_ledger:
  assumes "queue_inv (pl_queue p)" and "\<forall>w \<in> set ws. w = Wake_ctx \<or> w = Wake_timer"
    and "submit_finish p frm ws = Some (p', out)" and "pipe_ledger r A S {#} p"
  shows "pipe_ledger r (A + mset (case out of Inr _ \<Rightarrow> [frm] | Inl _ \<Rightarrow> [])) S {#} (p'\<lparr>pl_waiting := fs\<rparr>)"
proof -
  obtain q res where e: "enqueue (pl_queue p) frm ws = (q, res)" by fastforce
  note q = enqueue_alone [OF assms(1,2) e]
  have waiting: "pipe_ledger r A' S {#} (p'\<lparr>pl_waiting := fs\<rparr>) = pipe_ledger r A' S {#} p'" for A'
    by (rule pipe_ledger_cong) (simp_all add: inside_defs)
  show ?thesis
  proof (cases out)
    case (Inl err)
    then have "pipe_ledger r A S {#} p' = pipe_ledger r A S {#} p"
      using assms(3) e q
      by (intro pipe_ledger_cong)
        (auto simp: submit_finish_def inside_defs on_metrics_def drop_event_def split: attempt.splits sum.splits)
    then show ?thesis using Inl assms(4) by (simp add: waiting)
  next
    case (Inr u)
    then have "frames_in p' = frames_in p + {#frm#}" "entries_in p' = entries_in p" "dropped_inside p' = dropped_inside p"
      using assms(3) e q
      by (auto simp: submit_finish_def inside_defs on_metrics_def update_queue_metrics_def split: attempt.splits sum.splits)
    then have "pipe_ledger r (A + {#frm#}) S {#} p'"
      using assms(4) ledger_accept [of r A S "frames_in p"] by (simp add: pipe_ledger_def)
    then show ?thesis using Inr by (simp add: waiting)
  qed
qed

lemma worker_dequeue_ledger:
  assumes "queue_inv (pl_queue p)" and "i < length (pl_workers p)" "pl_workers p ! i = W_idle"
    and "worker_dequeue i p = Some p'"
  shows "pipe_ledger r A S X p' = pipe_ledger r A S X p"
proof -
  obtain q res where d: "dequeue_loop (pl_queue p) (if pl_cancelled p then [Wake_ctx] else []) = (q, res)" by fastforce
  have "(if pl_cancelled p then [Wake_ctx] else []) \<in> {[], [Wake_ctx]}" by simp
  note q = dequeue_loop_outcome [OF assms(1) this d]
  let ?p = "p\<lparr>pl_queue := q\<rparr>"
  have "i < length (pl_workers ?p)" "pl_workers ?p ! i = W_idle" using assms(2,3) by simp_all
  note inside = set_worker_inside [OF this(1), unfolded this(2)]
  have other: "entries_in ?p = entries_in p" "dropped_inside ?p = dropped_inside p" by (simp_all add: inside_defs)
  from assms(4) d q consider
    (item) frm where "p' = update_queue_metrics (set_worker i (W_item frm) ?p)" "queued (pl_queue p) = frm # queued q"
  | (ends) "p' = set_worker i W_done ?p" "q = pl_queue p"
    by (auto simp: worker_dequeue_def split: attempt.splits sum.splits)
  then show ?thesis
  proof cases
    case item
    then have "frames_in p' = frames_in p" using inside(1) [of "W_item frm"] by (simp add: frames_in_def update_queue_metrics_def)
    then show ?thesis using item(1) inside(2) [of "W_item frm"] other by (intro pipe_ledger_cong) simp_all
  next
    case ends
    then show ?thesis using inside [of W_done] by (intro pipe_ledger_cong) simp_all
  qed
qed

lemma read_ledger:
  assumes "i < length (pl_workers p)" "pl_workers p ! i = W_item frm" and "r frm entry" and "pipe_ledger r A S {#} p"
    and "mt_dropped (f (pl_metrics p)) = mt_dropped (pl_metrics p)"
  shows "pipe_ledger r A S {#} (set_worker i (W_send entry) (on_metrics f p))"
proof -
  let ?p' = "set_worker i (W_send entry) (on_metrics f p)"
  have "frames_in p = frames_in ?p' + {#frm#}" "entries_in ?p' = entries_in p + {#entry#}"
    using set_worker_inside [of i "on_metrics f p" "W_send entry"] assms(1,2) by simp_all
  moreover have "dropped_inside ?p' = dropped_inside p" by (simp add: dropped_on_metrics assms(5)) (simp add: dropped_total_def)
  ultimately show ?thesis using assms(3,4) ledger_read [of r A S "frames_in ?p'" frm] by (simp add: pipe_ledger_def)
qed

lemma refuse_ledger:
  assumes "i < length (pl_workers p)" "pl_workers p ! i = W_item frm" and "pipe_ledger r A S {#} p"
    and "mt_dropped (f (pl_metrics p)) = counter_add (stage, reason) 1 (mt_dropped (pl_metrics p))" "stage \<noteq> ''admission''"
  shows "pipe_ledger r A S {#} (set_worker i W_idle (on_metrics f p))"
proof -
  let ?p' = "set_worker i W_idle (on_metrics f p)"
  have "frames_in p = frames_in ?p' + {#frm#}" "entries_in ?p' = entries_in p"
    using set_worker_inside [of i "on_metrics f p" W_idle] assms(1,2) by simp_all
  moreover have "dropped_inside ?p' = dropped_inside p + 1"
    using assms(5) by (simp add: dropped_on_metrics assms(4)) (simp add: dropped_total_def)
  ultimately show ?thesis using assms(3) ledger_refuse [of r A S "frames_in ?p'" frm] by (simp add: pipe_ledger_def)
qed

lemma worker_parse_ledger:
  assumes "i < length (pl_workers p)" "pl_workers p ! i = W_item frm"
    and "\<And>entry. reading p frm random = Some entry \<Longrightarrow> r frm entry" and "pipe_ledger r A S {#} p"
  shows "pipe_ledger r A S {#} (worker_parse i random frm p)"
proof -
  let ?parse = "registry_parse new_registry (parser_name p frm) (fr_payload frm) (fr_received_at frm) (pl_locations p (fr_source_id frm))"
  show ?thesis
  proof (cases "reading p frm random")
    case None
    then show ?thesis
      by (cases ?parse)
        (auto simp: worker_parse_def reading_def drop_event_def intro!: refuse_ledger [OF assms(1,2,4)])
  next
    case (Some entry)
    with assms(3) [OF this] show ?thesis
      by (cases ?parse) (auto simp: worker_parse_def reading_def intro!: read_ledger [OF assms(1,2) _ assms(4)])
  qed
qed

lemma worker_send_ledger:
  assumes "i < length (pl_workers p)" "pl_workers p ! i = W_send entry" and "worker_send i entry p = Some p'"
  shows "pipe_ledger r A S X p' = pipe_ledger r A S X p"
  using assms set_worker_inside [of i "p\<lparr>pl_parsed := pl_parsed p @ [entry]\<rparr>" W_idle]
  by (intro pipe_ledger_cong) (auto simp: worker_send_def inside_defs set_worker_def split: if_splits)

lemma worker_abort_ledger:
  assumes "i < length (pl_workers p)" "pl_workers p ! i = W_send entry" and "worker_abort i p = Some p'" and "pipe_ledger r A S {#} p"
  shows "pipe_ledger r A S {#} p'"
proof -
  have p': "p' = set_worker i W_done (on_metrics (drop_event ''normalization'' ''shutdown'' 1) p)"
    using assms(3) by (auto simp: worker_abort_def split: if_splits)
  have "frames_in p' = frames_in p" "entries_in p = entries_in p' + {#entry#}"
    using set_worker_inside [of i "on_metrics (drop_event ''normalization'' ''shutdown'' 1) p" W_done] assms(1,2) by (simp_all add: p')
  moreover have "dropped_inside p' = dropped_inside p + 1"
    by (simp add: p' dropped_on_metrics drop_event_def) (simp add: dropped_total_def)
  ultimately show ?thesis
    using assms(4) ledger_lose [of r A S "frames_in p'" "entries_in p'" "{#entry#}"] by (simp add: pipe_ledger_def)
qed

subsection \<open>Runs\<close>

text \<open>Every step is an entry in the ledger.\<close>

lemma step_ledger:
  assumes "pipeline_inv p" and "event_allowed e" and "pipeline_step e p = Some p'"
    and "\<And>frm random entry. reading p frm random = Some entry \<Longrightarrow> r frm entry" and "pipe_ledger r A S {#} p"
  shows "pipe_ledger r (A + mset (event_accepts e p)) (S + mset (event_stores e p)) {#} p'"
proof -
  have q: "queue_inv (pl_queue p)" and attempts: "0 < rc_max_attempts (ic_retry (pl_cfg p))"
    using assms(1) by (simp_all add: pipeline_inv_def)
  show ?thesis
  proof (cases e)
    case (Ev_enqueue i ws)
    then obtain p1 out where "submit_finish p (pl_waiting p ! i) ws = Some (p1, out)"
      "p' = p1\<lparr>pl_waiting := take i (pl_waiting p) @ drop (Suc i) (pl_waiting p)\<rparr>"
      using assms(3) by (auto split: if_splits)
    with submit_finish_ledger [OF q _ this(1) assms(5)] assms(2) Ev_enqueue show ?thesis by (auto split: sum.splits)
  next
    case (Ev_dequeue i)
    then show ?thesis using assms(3,5) worker_dequeue_ledger [OF q, of i p'] by (auto split: if_splits)
  next
    case (Ev_parse i random)
    then show ?thesis using assms(3-5) worker_parse_ledger [of i p _ random r] by (auto split: if_splits worker.splits)
  next
    case (Ev_send i)
    then show ?thesis using assms(3,5) worker_send_ledger [of i p _ p'] by (auto split: if_splits worker.splits)
  next
    case (Ev_abort i)
    then show ?thesis using assms(3,5) worker_abort_ledger [of i p _ p'] by (auto split: if_splits worker.splits)
  next
    case (Ev_receive env1 env2)
    then show ?thesis using assms(3,5) batch_receive_ledger [OF attempts] by simp
  next
    case (Ev_timer env)
    then show ?thesis using assms(3,5) flush_ledger [OF attempts] by (auto simp: batch_timer_def split: if_splits)
  next
    case (Ev_submit frm)
    then have "pipe_ledger r A S {#} p' = pipe_ledger r A S {#} p"
      using assms(3) by (intro pipe_ledger_cong)
        (auto simp: submit_begin_def Let_def inside_defs on_metrics_def drop_event_def receive_event_def split: if_splits)
    then show ?thesis using assms(5) Ev_submit by simp
  next
    case (Ev_reject protocol reason n)
    then have "pipe_ledger r A S {#} p' = pipe_ledger r A S {#} p"
      using assms(3) by (intro pipe_ledger_cong) (auto simp: reject_def inside_defs on_metrics_def drop_event_def receive_event_def)
    then show ?thesis using assms(5) Ev_reject by simp
  next
    case Ev_stop
    then have "pipe_ledger r A S {#} p' = pipe_ledger r A S {#} p"
      using assms(3) by (intro pipe_ledger_cong) (auto simp: stop_pipeline_def inside_defs)
    then show ?thesis using assms(5) Ev_stop by simp
  next
    case Ev_cancel
    then have "pipe_ledger r A S {#} p' = pipe_ledger r A S {#} p"
      using assms(3) by (intro pipe_ledger_cong) (auto simp: cancel_pipeline_def inside_defs)
    then show ?thesis using assms(5) Ev_cancel by simp
  next
    case Ev_close_parsed
    then have "pipe_ledger r A S {#} p' = pipe_ledger r A S {#} p"
      using assms(3) by (intro pipe_ledger_cong) (auto simp: close_parsed_def inside_defs split: if_splits)
    then show ?thesis using assms(5) Ev_close_parsed by simp
  next
    case Ev_batch_cancel
    then have "pipe_ledger r A S {#} p' = pipe_ledger r A S {#} p"
      using assms(3) by (intro pipe_ledger_cong) (auto simp: batch_cancel_def inside_defs split: if_splits)
    then show ?thesis using assms(5) Ev_batch_cancel by simp
  qed
qed

abbreviation sources_of :: "pipeline \<Rightarrow> (bytes \<rightharpoonup> bytes) \<times> (bytes \<rightharpoonup> location)" where
  "sources_of p \<equiv> (pl_parser_names p, pl_locations p)"

lemma flush_sources [simp]:
  "pl_parser_names (flush env p) = pl_parser_names p" "pl_locations (flush env p) = pl_locations p"
  by (simp_all add: flush_def append_with_retry_def on_metrics_def)

lemma add_entry_sources [simp]:
  "pl_parser_names (add_entry env1 env2 entry p) = pl_parser_names p" "pl_locations (add_entry env1 env2 entry p) = pl_locations p"
  by (simp_all add: add_entry_flushes Let_def)

lemma submit_finish_sources: "submit_finish p frm ws = Some (p', out) \<Longrightarrow> sources_of p' = sources_of p"
  by (auto simp: submit_finish_def on_metrics_def update_queue_metrics_def split: prod.splits attempt.splits sum.splits)

lemma worker_sources:
  "worker_dequeue i p = Some p' \<Longrightarrow> sources_of p' = sources_of p" "sources_of (worker_parse i random frm p) = sources_of p"
  by (auto simp: worker_dequeue_def worker_parse_def on_metrics_def update_queue_metrics_def set_worker_def
      split: prod.splits attempt.splits sum.splits option.splits)

lemma batch_receive_sources: "batch_receive env1 env2 p = Some p' \<Longrightarrow> sources_of p' = sources_of p"
  by (auto simp: batch_receive_def split: batcher.splits list.splits if_splits)

lemma step_sources:
  assumes "pipeline_step e p = Some p'"
  shows "sources_of p' = sources_of p"
proof (cases e)
  case (Ev_enqueue i ws)
  then show ?thesis using assms submit_finish_sources by (fastforce split: if_splits)
next
  case (Ev_dequeue i)
  then show ?thesis using assms worker_sources(1) by (auto split: if_splits)
next
  case (Ev_parse i random)
  then show ?thesis using assms worker_sources(2) by (auto split: if_splits worker.splits)
next
  case (Ev_receive env1 env2)
  then show ?thesis using assms batch_receive_sources by simp
next
  case (Ev_timer env)
  then show ?thesis using assms by (auto simp: batch_timer_def split: if_splits)
qed (use assms in \<open>auto simp: submit_begin_def reject_def stop_pipeline_def cancel_pipeline_def worker_send_def worker_abort_def
      close_parsed_def batch_cancel_def on_metrics_def set_worker_def Let_def split: if_splits worker.splits\<close>)

lemma reading_static: "pipeline_step e p = Some p' \<Longrightarrow> reading p' = reading p"
  using step_sources [of e p p'] by (simp add: fun_eq_iff reading_def parser_name_def)

lemma trace_ledger:
  assumes "pipeline_trace es p = Some (q, accepted, stored)" and "list_all event_allowed es" and "pipeline_inv p"
    and "\<And>frm random entry. reading p frm random = Some entry \<Longrightarrow> r frm entry" and "pipe_ledger r A S {#} p"
  shows "pipeline_inv q \<and> pipe_ledger r (A + mset accepted) (S + mset stored) {#} q"
  using assms
proof (induction es arbitrary: p A S accepted stored)
  case (Cons e es)
  then obtain p' acc st where p': "pipeline_step e p = Some p'" "pipeline_trace es p' = Some (q, acc, st)"
    and out: "accepted = event_accepts e p @ acc" "stored = event_stores e p @ st"
    by (auto simp: bind_eq_Some_conv)
  have allowed: "event_allowed e" "list_all event_allowed es" using Cons.prems(2) by simp_all
  note l = step_ledger [OF Cons.prems(3) allowed(1) p'(1) Cons.prems(4,5)]
  have "reading p' frm random = Some entry \<Longrightarrow> r frm entry" for frm random entry
    using Cons.prems(4) reading_static [OF p'(1)] by simp
  from Cons.IH [OF p'(2) allowed(2) step_inv [OF Cons.prems(3) allowed(1) p'(1)] this l] show ?case
    by (simp add: out ac_simps)
qed simp

lemma sum_replicate_empty [simp]: "sum_list (replicate n {#}) = {#}"
  by (induction n) simp_all

lemma started_ledger: "started cfg p \<Longrightarrow> pipe_ledger r {#} {#} {#} p"
  using ledger_open [of r]
  by (auto simp: started_def new_pipeline_def start_pipeline_def pipe_ledger_def inside_defs new_metrics_def
      new_frame_queue_def queued_def)

lemma trace_run: "pipeline_trace es p = Some (q, accepted, stored) \<Longrightarrow> pipeline_run es p = Some q"
  by (induction es arbitrary: p accepted stored) (auto simp: bind_eq_Some_conv)


section \<open>End to end\<close>

text \<open>A message in the form of RFC 5424, with its time.\<close>

record syslog_message =
  sm_priority :: int
  sm_stamp :: instant
  sm_host :: bytes
  sm_app :: bytes
  sm_pid :: bytes
  sm_mid :: bytes
  sm_elements :: "sd_element list"
  sm_text :: bytes

definition wf_syslog :: "syslog_message \<Rightarrow> bool" where
  "wf_syslog m \<longleftrightarrow>
     0 \<le> sm_priority m \<and> sm_priority m \<le> 191 \<and> wf_stamp (Some (sm_stamp m)) \<and> wf_token (sm_host m) \<and> wf_token (sm_app m)
     \<and> wf_token (sm_pid m) \<and> wf_token (sm_mid m) \<and> list_all wf_element (sm_elements m)
     \<and> wf_message (sm_elements m) (sm_text m) \<and> valid_utf8 (sm_text m)"

definition syslog_text :: "syslog_message \<Rightarrow> bytes" where
  "syslog_text m =
     render_rfc5424 (sm_priority m) (Some (sm_stamp m)) (sm_host m) (sm_app m) (sm_pid m) (sm_mid m) (sm_elements m) (sm_text m)"

text \<open>What a message says, and what an entry and an event say of it.\<close>

type_synonym said = "u8 option \<times> instant \<times> bytes \<times> bytes \<times> bytes \<times> bytes \<times> field_map \<times> bytes"

definition message_says :: "syslog_message \<Rightarrow> said" where
  "message_says m = (Some (word_of_int (sm_priority m)), sm_stamp m, sm_host m, sm_app m, sm_pid m, sm_mid m,
     sd_fields (sm_elements m) Map.empty, sm_text m)"

definition entry_says :: "log_entry \<Rightarrow> said" where
  "entry_says e = (le_priority e, le_timestamp e, le_hostname e, le_app_name e, le_process_id e, le_message_id e, le_fields e, le_message e)"

definition event_says :: "event \<Rightarrow> said" where
  "event_says e = (ev_priority e, ev_timestamp e, ev_hostname e, ev_app_name e, ev_process_id e, ev_message_id e,
     (case ev_fields e of None \<Rightarrow> Map.empty | Some m \<Rightarrow> m), to_valid_utf8 (ev_message e) replacement_char)"

definition frame_event :: "pipeline \<Rightarrow> frame \<Rightarrow> parse_error + event" where
  "frame_event p frm =
     registry_parse new_registry (parser_name p frm) (fr_payload frm) (fr_received_at frm) (pl_locations p (fr_source_id frm))"

text \<open>What is said by a frame that a worker can read.\<close>

definition frame_says :: "pipeline \<Rightarrow> frame \<Rightarrow> said" where
  "frame_says p frm =
     event_says (case frame_event p frm of Inl _ \<Rightarrow> unknown_event (fr_payload frm) (fr_received_at frm) | Inr e \<Rightarrow> e)"

lemma normalize_says: "normalize_entry random frm e = Some entry \<Longrightarrow> entry_says entry = event_says e"
  by (auto simp: normalize_entry_def entry_says_def event_says_def split: option.splits)

lemma reads_as_says: "reads_as p frm entry \<Longrightarrow> entry_says entry = frame_says p frm"
  using normalize_says by (auto simp: reads_as_def reading_def frame_says_def frame_event_def [symmetric] split: sum.splits)

lemma frame_says_message:
  assumes "parser_name p frm \<in> {''auto'', ''rfc5424''}" and "wf_syslog m" and "fr_payload frm = syslog_text m"
  shows "frame_says p frm = message_says m"
proof -
  have n: "0 \<le> sm_priority m" "sm_priority m \<le> 191" using assms(2) by (simp_all add: wf_syslog_def)
  have "rfc5424_parse (fr_payload frm) (fr_received_at frm) (pl_locations p (fr_source_id frm)) =
     Inr \<lparr>ev_timestamp = sm_stamp m, ev_timestamp_inferred = False, ev_message = sm_text m, ev_hostname = sm_host m,
       ev_facility = Some (word_of_int (sm_priority m div 8)), ev_severity = Some (word_of_int (sm_priority m mod 8)),
       ev_priority = Some (word_of_int (sm_priority m)), ev_app_name = sm_app m, ev_process_id = sm_pid m,
       ev_message_id = sm_mid m, ev_format = ''rfc5424'', ev_fields = Some (sd_fields (sm_elements m) Map.empty)\<rparr>"
    using rfc5424_parse_render [OF n, of "Some (sm_stamp m)"] assms(2,3) by (simp add: wf_syslog_def syslog_text_def)
  moreover have "detect (fr_payload frm) = ''rfc5424''" using detect_rfc5424 [OF n] assms(3) by (simp add: syslog_text_def)
  moreover have "valid_utf8 (sm_text m)" using assms(2) by (simp add: wf_syslog_def)
  ultimately show ?thesis
    using assms(1) by (auto simp: frame_says_def frame_event_def event_says_def registry_parse_def new_registry_def message_says_def to_valid_utf8_id)
qed

lemma says_paired:
  assumes "\<forall>x \<in># D. reads_as p (fst x) (snd x)"
  shows "image_mset entry_says (image_mset snd D) = image_mset (frame_says p) (image_mset fst D)"
  using assms reads_as_says by (auto simp: multiset.map_comp intro!: image_mset_cong)

lemma done_inside:
  assumes "flow_inv q" and "pl_batcher q = Batch_done" and "\<not> pl_cancelled q"
  shows "frames_in q = {#}" and "entries_in q = {#}"
proof -
  have ws: "list_all (\<lambda>w. w = W_done) (pl_workers q)" and parsed: "pl_parsed q = []" "pl_batch q = []"
    using assms(1,2) by (simp_all add: flow_inv_def)
  have "sum_list (map worker_frames ws) = {#} \<and> sum_list (map worker_entries ws) = {#}" if "list_all (\<lambda>w. w = W_done) ws" for ws
    using that by (induction ws) simp_all
  with ws parsed done_in_flight(2) [OF assms] show "frames_in q = {#}" "entries_in q = {#}" by (simp_all add: inside_defs)
qed


section \<open>Witnesses\<close>

definition sample_message :: syslog_message where
  "sample_message = \<lparr>sm_priority = 165, sm_stamp = 1700000000123000000, sm_host = ''h'', sm_app = ''app'', sm_pid = [], sm_mid = ''ID47'',
     sm_elements = [(''ex@1'', [(''k'', ''v'')])], sm_text = ''hello''\<rparr>"

definition sample_run :: "pipeline_event list" where
  "sample_run = [Ev_submit (sample_frame (syslog_text sample_message)), Ev_enqueue 0 [], Ev_stop, Ev_dequeue 0,
     Ev_parse 0 (Some (\<lambda>_. 0)), Ev_send 0, Ev_dequeue 0, Ev_close_parsed, Ev_receive sample_env sample_env, Ev_receive sample_env sample_env]"

lemma sample_trace:
  obtains q stored where "pipeline_trace sample_run sample_pipeline = Some (q, [sample_frame (syslog_text sample_message)], stored)"
    "pl_batcher q = Batch_done" "\<not> pl_cancelled q" "dropped_total (\<lambda>s. s \<noteq> ''admission'') q = 0" "length stored = 1"
proof -
  have "case pipeline_trace sample_run sample_pipeline of
      None \<Rightarrow> False
    | Some (q, accepted, stored) \<Rightarrow> accepted = [sample_frame (syslog_text sample_message)] \<and> pl_batcher q = Batch_done
        \<and> \<not> pl_cancelled q \<and> dropped_total (\<lambda>s. s \<noteq> ''admission'') q = 0 \<and> length stored = 1"
    by code_simp
  then show thesis using that by (auto split: option.splits)
qed

lemma sample_run_allowed: "list_all event_allowed sample_run"
  using sample_allowed(1) by (simp add: sample_run_def)



end
