(* ===== verification/Connections.thy ===== *)
theory Connections
  imports Manager Metrics
begin

text \<open>
  The goroutines of \<^verbatim>\<open>backend/internal/transport/syslog/manager.go\<close>: the accept loop of each listener, a
  handler for each connection, and \<^verbatim>\<open>Close\<close>, interleaved.  An event says which of them takes its next
  step, and \<open>net_step\<close> gives the state after it, or none if the step is not enabled.  What a handler
  reads is in \<open>Framing\<close> and \<open>Manager\<close>; here it starts and it returns.

  Shown are that no listener exceeds its limit, that the gauge of active connections is exact, and
  that \<^verbatim>\<open>Close\<close> comes to its end and leaves no socket open and no goroutine running.
\<close>

section \<open>Definitions\<close>

text \<open>An accept loop: waiting in \<^verbatim>\<open>Accept\<close>, with a connection it has got, or returned.\<close>

datatype accept_loop = A_waiting | A_got nat | A_ended

text \<open>A listener with its semaphore; the loop of a UDP socket waits until it is closed.\<close>

record listener =
  ln_tcp :: bool
  ln_max_connections :: int
  ln_sem :: int
  ln_open :: bool
  ln_loop :: accept_loop

text \<open>A connection handler: started, in \<^verbatim>\<open>handleTCP\<close>, returned from it, and past \<^verbatim>\<open>untrackConnection\<close>.\<close>

datatype conn_phase = P_started | P_handling | P_returned | P_untracked

record conn =
  cn_id :: nat
  cn_listener :: nat
  cn_phase :: conn_phase

text \<open>\<^verbatim>\<open>Close\<close>: what it has still to close, and what it waits for.\<close>

datatype close_state = C_running | C_closers "nat list" | C_accepts | C_conns "nat list" | C_waiting | C_closed

text \<open>
  The state.  \<open>ns_handlers\<close> are the handlers that \<^verbatim>\<open>connWG\<close> counts, \<open>ns_conns\<close> is the map of tracked
  connections, \<open>ns_open\<close> are the sockets of accepted connections that are open; connections are
  numbered as they are accepted.
\<close>

record net_state =
  ns_listeners :: "listener list"
  ns_handlers :: "conn list"
  ns_conns :: "nat list"
  ns_open :: "nat list"
  ns_accepted :: nat
  ns_close :: close_state
  ns_metrics :: metrics

definition new_listener :: "source_config \<Rightarrow> listener" where
  "new_listener s =
     \<lparr>ln_tcp = (sc_protocol s = ''tcp''), ln_max_connections = sc_max_connections s, ln_sem = 0, ln_open = True, ln_loop = A_waiting\<rparr>"

definition listening :: "source_config list \<Rightarrow> metrics \<Rightarrow> net_state" where
  "listening sources m =
     \<lparr>ns_listeners = map new_listener (filter sc_enabled sources), ns_handlers = [], ns_conns = [], ns_open = [], ns_accepted = 0,
      ns_close = C_running, ns_metrics = m\<rparr>"

definition set_listener :: "nat \<Rightarrow> (listener \<Rightarrow> listener) \<Rightarrow> net_state \<Rightarrow> net_state" where
  "set_listener i f s = s\<lparr>ns_listeners := (ns_listeners s)[i := f (ns_listeners s ! i)]\<rparr>"

definition set_phase :: "nat \<Rightarrow> conn_phase \<Rightarrow> net_state \<Rightarrow> net_state" where
  "set_phase k ph s = s\<lparr>ns_handlers := (ns_handlers s)[k := (ns_handlers s ! k)\<lparr>cn_phase := ph\<rparr>]\<rparr>"

definition close_socket :: "nat \<Rightarrow> net_state \<Rightarrow> net_state" where
  "close_socket c s = s\<lparr>ns_open := removeAll c (ns_open s)\<rparr>"

definition active_add :: "int \<Rightarrow> net_state \<Rightarrow> net_state" where
  "active_add n s =
     s\<lparr>ns_metrics := (ns_metrics s)\<lparr>mt_active_connections := counter_add ''syslog_tcp'' n (mt_active_connections (ns_metrics s))\<rparr>\<rparr>"

definition track_connection :: "nat \<Rightarrow> net_state \<Rightarrow> net_state" where
  "track_connection c s = s\<lparr>ns_conns := List.insert c (ns_conns s)\<rparr>"

definition untrack_connection :: "nat \<Rightarrow> net_state \<Rightarrow> net_state" where
  "untrack_connection c s = s\<lparr>ns_conns := removeAll c (ns_conns s)\<rparr>"

text \<open>The accept loop after a connection: a slot and a handler for it, or it is closed and counted.\<close>

definition admit :: "nat \<Rightarrow> nat \<Rightarrow> net_state \<Rightarrow> net_state" where
  "admit i c s =
     (let l = ns_listeners s ! i in
      if ln_sem l < ln_max_connections l
      then (track_connection c (set_listener i (\<lambda>l. l\<lparr>ln_sem := ln_sem l + 1, ln_loop := A_waiting\<rparr>) s))
             \<lparr>ns_handlers := ns_handlers s @ [\<lparr>cn_id = c, cn_listener = i, cn_phase = P_started\<rparr>]\<rparr>
      else (close_socket c (set_listener i (\<lambda>l. l\<lparr>ln_loop := A_waiting\<rparr>) s))
             \<lparr>ns_metrics := drop_event ''admission'' ''connection_limit'' 1 (ns_metrics s)\<rparr>)"

text \<open>A handler past \<^verbatim>\<open>untrackConnection\<close> gives its slot back and is done.\<close>

definition release :: "nat \<Rightarrow> net_state \<Rightarrow> net_state" where
  "release k s =
     (set_listener (cn_listener (ns_handlers s ! k)) (\<lambda>l. l\<lparr>ln_sem := ln_sem l - 1\<rparr>) s)
       \<lparr>ns_handlers := take k (ns_handlers s) @ drop (Suc k) (ns_handlers s)\<rparr>"

datatype net_event =
    N_accept nat
  | N_accept_fails nat
  | N_admit nat
  | N_begin nat
  | N_return nat
  | N_untrack nat
  | N_release nat
  | N_close
  | N_close_next

text \<open>The steps of \<^verbatim>\<open>Close\<close>, from one waiting point to the next.\<close>

definition close_next :: "net_state \<Rightarrow> net_state option" where
  "close_next s =
     (case ns_close s of
        C_running \<Rightarrow> None
      | C_closers (i # rest) \<Rightarrow> Some ((set_listener i (\<lambda>l. l\<lparr>ln_open := False\<rparr>) s)\<lparr>ns_close := C_closers rest\<rparr>)
      | C_closers [] \<Rightarrow> Some (s\<lparr>ns_close := C_accepts\<rparr>)
      | C_accepts \<Rightarrow>
          if list_all (\<lambda>l. ln_loop l = A_ended) (ns_listeners s) then Some (s\<lparr>ns_close := C_conns (ns_conns s)\<rparr>) else None
      | C_conns (c # rest) \<Rightarrow> Some ((close_socket c s)\<lparr>ns_close := C_conns rest\<rparr>)
      | C_conns [] \<Rightarrow> Some (s\<lparr>ns_close := C_waiting\<rparr>)
      | C_waiting \<Rightarrow> if ns_handlers s = [] then Some (s\<lparr>ns_close := C_closed\<rparr>) else None
      | C_closed \<Rightarrow> None)"

definition handler_at :: "net_state \<Rightarrow> nat \<Rightarrow> conn_phase \<Rightarrow> bool" where
  "handler_at s k ph \<longleftrightarrow> k < length (ns_handlers s) \<and> cn_phase (ns_handlers s ! k) = ph"

fun net_step :: "net_event \<Rightarrow> net_state \<Rightarrow> net_state option" where
  "net_step (N_accept i) s =
     (if i < length (ns_listeners s) \<and> ln_tcp (ns_listeners s ! i) \<and> ln_open (ns_listeners s ! i)
         \<and> ln_loop (ns_listeners s ! i) = A_waiting
      then Some ((set_listener i (\<lambda>l. l\<lparr>ln_loop := A_got (ns_accepted s)\<rparr>) s)
             \<lparr>ns_open := ns_accepted s # ns_open s, ns_accepted := ns_accepted s + 1\<rparr>)
      else None)"
| "net_step (N_accept_fails i) s =
     (if i < length (ns_listeners s) \<and> ln_loop (ns_listeners s ! i) = A_waiting
      then Some (set_listener i (\<lambda>l. l\<lparr>ln_loop := A_ended\<rparr>) s) else None)"
| "net_step (N_admit i) s =
     (if i < length (ns_listeners s)
      then (case ln_loop (ns_listeners s ! i) of A_got c \<Rightarrow> Some (admit i c s) | _ \<Rightarrow> None) else None)"
| "net_step (N_begin k) s =
     (if handler_at s k P_started then Some (active_add 1 (set_phase k P_handling s)) else None)"
| "net_step (N_return k) s =
     (if handler_at s k P_handling
      then Some (close_socket (cn_id (ns_handlers s ! k)) (active_add (- 1) (set_phase k P_returned s))) else None)"
| "net_step (N_untrack k) s =
     (if handler_at s k P_returned
      then Some (untrack_connection (cn_id (ns_handlers s ! k)) (set_phase k P_untracked s)) else None)"
| "net_step (N_release k) s = (if handler_at s k P_untracked then Some (release k s) else None)"
| "net_step N_close s =
     (if ns_close s = C_running then Some (s\<lparr>ns_close := C_closers [0..<length (ns_listeners s)]\<rparr>) else None)"
| "net_step N_close_next s = close_next s"

fun net_run :: "net_event list \<Rightarrow> net_state \<Rightarrow> net_state option" where
  "net_run [] s = Some s"
| "net_run (e # es) s = Option.bind (net_step e s) (net_run es)"

text \<open>The states that open listeners can reach.\<close>

inductive net_reaches :: "net_state \<Rightarrow> net_state \<Rightarrow> bool" where
  net_refl: "net_reaches s s"
| net_more: "net_reaches s t \<Longrightarrow> net_step e t = Some u \<Longrightarrow> net_reaches s u"

section \<open>Steps\<close>

lemma listeners_simps [simp]:
  "length (ns_listeners (set_listener i f s)) = length (ns_listeners s)"
  "ns_listeners (set_phase k ph s) = ns_listeners s" "ns_listeners (close_socket c s) = ns_listeners s"
  "ns_listeners (active_add n s) = ns_listeners s" "ns_listeners (track_connection c s) = ns_listeners s"
  "ns_listeners (untrack_connection c s) = ns_listeners s"
  by (simp_all add: set_listener_def set_phase_def close_socket_def active_add_def track_connection_def untrack_connection_def)

lemma handlers_simps [simp]:
  "ns_handlers (set_listener i f s) = ns_handlers s" "ns_handlers (close_socket c s) = ns_handlers s"
  "ns_handlers (active_add n s) = ns_handlers s" "ns_handlers (track_connection c s) = ns_handlers s"
  "ns_handlers (untrack_connection c s) = ns_handlers s"
  by (simp_all add: set_listener_def close_socket_def active_add_def track_connection_def untrack_connection_def)

lemma conns_simps [simp]:
  "ns_conns (set_listener i f s) = ns_conns s" "ns_conns (set_phase k ph s) = ns_conns s" "ns_conns (close_socket c s) = ns_conns s"
  "ns_conns (active_add n s) = ns_conns s" "ns_conns (track_connection c s) = List.insert c (ns_conns s)"
  "ns_conns (untrack_connection c s) = removeAll c (ns_conns s)"
  by (simp_all add: set_listener_def set_phase_def close_socket_def active_add_def track_connection_def untrack_connection_def)

lemma open_simps [simp]:
  "ns_open (set_listener i f s) = ns_open s" "ns_open (set_phase k ph s) = ns_open s"
  "ns_open (close_socket c s) = removeAll c (ns_open s)" "ns_open (active_add n s) = ns_open s"
  "ns_open (track_connection c s) = ns_open s" "ns_open (untrack_connection c s) = ns_open s"
  by (simp_all add: set_listener_def set_phase_def close_socket_def active_add_def track_connection_def untrack_connection_def)

lemma other_simps [simp]:
  "ns_accepted (set_listener i f s) = ns_accepted s" "ns_accepted (set_phase k ph s) = ns_accepted s"
  "ns_accepted (close_socket c s) = ns_accepted s" "ns_accepted (active_add n s) = ns_accepted s"
  "ns_accepted (track_connection c s) = ns_accepted s" "ns_accepted (untrack_connection c s) = ns_accepted s"
  "ns_close (set_listener i f s) = ns_close s" "ns_close (set_phase k ph s) = ns_close s"
  "ns_close (close_socket c s) = ns_close s" "ns_close (active_add n s) = ns_close s"
  "ns_close (track_connection c s) = ns_close s" "ns_close (untrack_connection c s) = ns_close s"
  by (simp_all add: set_listener_def set_phase_def close_socket_def active_add_def track_connection_def untrack_connection_def)

lemma nth_update: "j < length xs \<Longrightarrow> xs[i := x] ! j = (if i = j then x else xs ! j)"
  by auto

lemma listener_at [simp]:
  "j < length (ns_listeners s) \<Longrightarrow>
   ns_listeners (set_listener i f s) ! j = (if i = j then f (ns_listeners s ! j) else ns_listeners s ! j)"
  by (simp add: set_listener_def nth_update)

text \<open>A handler among the others, and the others alone.\<close>

lemma handler_atE:
  assumes "handler_at s k ph"
  obtains hs h hs' where "ns_handlers s = hs @ h # hs'" "ns_handlers s ! k = h" "cn_phase h = ph"
    "\<And>ph'. ns_handlers (set_phase k ph' s) = hs @ h\<lparr>cn_phase := ph'\<rparr> # hs'"
    "ns_handlers (release k s) = hs @ hs'"
proof -
  have k: "k < length (ns_handlers s)" "cn_phase (ns_handlers s ! k) = ph" using assms by (simp_all add: handler_at_def)
  let ?hs = "take k (ns_handlers s)" and ?h = "ns_handlers s ! k" and ?hs' = "drop (Suc k) (ns_handlers s)"
  show thesis
    using id_take_nth_drop [OF k(1)] k(2) upd_conv_take_nth_drop [OF k(1)]
    by (intro that [of ?hs ?h ?hs']) (simp_all add: set_phase_def release_def)
qed

section \<open>Invariants\<close>

text \<open>Connections have numbers of their own.\<close>

definition got :: "net_state \<Rightarrow> nat \<Rightarrow> nat \<Rightarrow> bool" where
  "got s i c \<longleftrightarrow> i < length (ns_listeners s) \<and> ln_loop (ns_listeners s ! i) = A_got c"

definition numbered :: "net_state \<Rightarrow> bool" where
  "numbered s \<longleftrightarrow>
     distinct (map cn_id (ns_handlers s)) \<and> (\<forall>h \<in> set (ns_handlers s). cn_id h < ns_accepted s)
     \<and> (\<forall>i c. got s i c \<longrightarrow> c < ns_accepted s \<and> c \<notin> cn_id ` set (ns_handlers s))
     \<and> (\<forall>i j c. got s i c \<and> got s j c \<longrightarrow> i = j)"

lemma got_cong: "ns_listeners t = ns_listeners s \<Longrightarrow> got t = got s"
  by (simp add: got_def fun_eq_iff)

lemma admit_got: "got s i c \<Longrightarrow> got (admit i c s) j d \<longleftrightarrow> i \<noteq> j \<and> got s j d"
  by (auto simp: admit_def Let_def got_def split: if_splits)

lemma admit_step:
  assumes "net_step (N_admit i) s = Some t"
  obtains c where "got s i c" "t = admit i c s"
  using assms by (auto simp: got_def split: if_splits accept_loop.splits)

lemma numberedD:
  assumes "numbered s"
  shows "distinct (map cn_id (ns_handlers s))" and "h \<in> set (ns_handlers s) \<Longrightarrow> cn_id h < ns_accepted s"
    and "got s i c \<Longrightarrow> c < ns_accepted s" and "got s i (cn_id h) \<Longrightarrow> h \<notin> set (ns_handlers s)"
    and "got s i c \<Longrightarrow> got s j c \<Longrightarrow> i = j"
  using assms unfolding numbered_def by blast+

text \<open>Numbers stay apart when nothing is added.\<close>

lemma numbered_mono:
  assumes "numbered s" and "\<And>i c. got t i c \<Longrightarrow> got s i c" and "distinct (map cn_id (ns_handlers t))"
    and "\<And>h. h \<in> set (ns_handlers t) \<Longrightarrow> cn_id h \<in> cn_id ` set (ns_handlers s)" and "ns_accepted t = ns_accepted s"
  shows "numbered t"
  unfolding numbered_def
proof (intro conjI allI impI ballI)
  show "cn_id h < ns_accepted t" if "h \<in> set (ns_handlers t)" for h
    using that assms(4,5) numberedD(2) [OF assms(1)] by fastforce
  show "c < ns_accepted t" "c \<notin> cn_id ` set (ns_handlers t)" if "got t i c" for i c
    using assms(2) [OF that] assms(4,5) numberedD(3,4) [OF assms(1)] by fastforce+
qed (use assms(2,3) numberedD(5) [OF assms(1)] in blast)+

lemma handler_step:
  assumes "handler_at s k ph"
    and "ns_handlers t = ns_handlers (set_phase k ph' s) \<or> ns_handlers t = ns_handlers (release k s)"
    and "numbered s"
  shows "distinct (map cn_id (ns_handlers t))" and "h \<in> set (ns_handlers t) \<Longrightarrow> cn_id h \<in> cn_id ` set (ns_handlers s)"
  using assms(1) by (rule handler_atE; use assms(2) numberedD(1) [OF assms(3)] in auto)+

lemma step_numbered:
  assumes "numbered s" and "net_step e s = Some t"
  shows "numbered t"
proof (cases e)
  case (N_accept i)
  have t: "got t j c \<longleftrightarrow> (if i = j then c = ns_accepted s else got s j c)" "ns_handlers t = ns_handlers s"
    "ns_accepted t = ns_accepted s + 1" for j c
    using assms(2) N_accept by (auto simp: got_def split: if_splits)
  note d = numberedD [OF assms(1)]
  show ?thesis
    unfolding numbered_def t
    using d(1) d(2) d(3) d(4) d(5) by (auto split: if_splits simp: less_Suc_eq) (metis less_irrefl)+
next
  case (N_admit i)
  then obtain c where c: "got s i c" "t = admit i c s" using assms(2) admit_step by metis
  then have t: "got t j d \<longleftrightarrow> i \<noteq> j \<and> got s j d" "ns_accepted t = ns_accepted s" for j d
    using admit_got by (simp_all add: admit_def Let_def)
  note d = numberedD [OF assms(1)]
  show ?thesis
  proof (cases "ns_handlers t = ns_handlers s")
    case True
    then show ?thesis using t d(1) by (intro numbered_mono [OF assms(1)]) simp_all
  next
    case False
    then have hs: "ns_handlers t = ns_handlers s @ [\<lparr>cn_id = c, cn_listener = i, cn_phase = P_started\<rparr>]"
      by (simp add: c(2) admit_def Let_def split: if_splits)
    show ?thesis
      unfolding numbered_def t hs using c(1) d(1) d(2) d(3) d(4) [of i] d(4) d(5) by auto
  qed
next
  case (N_release k)
  then have h: "handler_at s k P_untracked" "t = release k s" using assms(2) by (auto split: if_splits)
  then show ?thesis
    using handler_step [OF h(1) _ assms(1), of t]
    by (intro numbered_mono [OF assms(1)]) (auto simp: got_def release_def set_listener_def nth_update split: if_splits)
next
  case N_close_next
  then show ?thesis
    using assms(2) numberedD(1) [OF assms(1)]
    by (intro numbered_mono [OF assms(1)])
      (auto simp: close_next_def got_def set_listener_def nth_update split: close_state.splits list.splits if_splits)
next
  case N_close
  then show ?thesis
    using assms(2) numberedD(1) [OF assms(1)] by (intro numbered_mono [OF assms(1)]) (auto simp: got_def split: if_splits)
next
  case (N_accept_fails i)
  then show ?thesis
    using assms(2) numberedD(1) [OF assms(1)] by (intro numbered_mono [OF assms(1)]) (auto simp: got_def split: if_splits)
next
  case (N_begin k)
  then show ?thesis
    using assms(2) handler_step [OF _ _ assms(1), of k P_started t P_handling]
    by (intro numbered_mono [OF assms(1)]) (auto simp: got_def split: if_splits)
next
  case (N_return k)
  then show ?thesis
    using assms(2) handler_step [OF _ _ assms(1), of k P_handling t P_returned]
    by (intro numbered_mono [OF assms(1)]) (auto simp: got_def split: if_splits)
next
  case (N_untrack k)
  then show ?thesis
    using assms(2) handler_step [OF _ _ assms(1), of k P_returned t P_untracked]
    by (intro numbered_mono [OF assms(1)]) (auto simp: got_def split: if_splits)
qed

text \<open>The semaphores count the handlers of their listener, the gauge those in \<^verbatim>\<open>handleTCP\<close>.\<close>

abbreviation active_total :: "net_state \<Rightarrow> int" where
  "active_total s \<equiv> counter_total (\<lambda>_. True) (mt_active_connections (ns_metrics s))"

definition handlers_of :: "nat \<Rightarrow> net_state \<Rightarrow> conn list" where
  "handlers_of i s = filter (\<lambda>h. cn_listener h = i) (ns_handlers s)"

definition counted :: "int \<Rightarrow> net_state \<Rightarrow> bool" where
  "counted base s \<longleftrightarrow>
     (\<forall>h \<in> set (ns_handlers s). cn_listener h < length (ns_listeners s))
     \<and> (\<forall>i < length (ns_listeners s). ln_sem (ns_listeners s ! i) = int (length (handlers_of i s))
          \<and> ln_sem (ns_listeners s ! i) \<le> max 0 (ln_max_connections (ns_listeners s ! i)))
     \<and> active_total s = base + int (length (filter (\<lambda>h. cn_phase h = P_handling) (ns_handlers s)))"

lemma metrics_simps [simp]:
  "ns_metrics (set_listener i f s) = ns_metrics s" "ns_metrics (set_phase k ph s) = ns_metrics s"
  "ns_metrics (close_socket c s) = ns_metrics s" "ns_metrics (track_connection c s) = ns_metrics s"
  "ns_metrics (untrack_connection c s) = ns_metrics s" "active_total (active_add n s) = active_total s + n"
  by (simp_all add: set_listener_def set_phase_def close_socket_def active_add_def track_connection_def untrack_connection_def)

lemma step_counted:
  assumes "counted base s" and "net_step e s = Some t"
  shows "counted base t"
proof (cases e)
  case (N_accept i)
  then show ?thesis using assms by (auto simp: counted_def handlers_of_def split: if_splits)
next
  case (N_accept_fails i)
  then show ?thesis using assms by (auto simp: counted_def handlers_of_def split: if_splits)
next
  case (N_admit i)
  then obtain c where c: "got s i c" "t = admit i c s" using assms(2) admit_step by metis
  let ?l = "ns_listeners s ! i"
  have l: "ns_listeners t ! j = (if i \<noteq> j then ns_listeners s ! j else if ln_sem ?l < ln_max_connections ?l
        then ?l\<lparr>ln_sem := ln_sem ?l + 1, ln_loop := A_waiting\<rparr> else ?l\<lparr>ln_loop := A_waiting\<rparr>)"
      "length (ns_listeners t) = length (ns_listeners s)" if "j < length (ns_listeners s)" for j
    using that by (simp_all add: c(2) admit_def Let_def)
  have hs: "ns_handlers t = ns_handlers s @
      (if ln_sem ?l < ln_max_connections ?l then [\<lparr>cn_id = c, cn_listener = i, cn_phase = P_started\<rparr>] else [])"
    "active_total t = active_total s"
    by (simp_all add: c(2) admit_def Let_def drop_event_def)
  have i: "i < length (ns_listeners s)" using c(1) by (simp add: got_def)
  show ?thesis
    using assms(1) i unfolding counted_def handlers_of_def hs l(2) [OF i] by (auto simp: l)
next
  case (N_begin k)
  then have h: "handler_at s k P_started" and t: "t = active_add 1 (set_phase k P_handling s)" using assms(2) by (auto split: if_splits)
  show ?thesis using h by (rule handler_atE) (use assms(1) in \<open>auto simp: t counted_def handlers_of_def\<close>)
next
  case (N_return k)
  then have h: "handler_at s k P_handling"
    and t: "t = close_socket (cn_id (ns_handlers s ! k)) (active_add (- 1) (set_phase k P_returned s))"
    using assms(2) by (auto split: if_splits)
  show ?thesis using h by (rule handler_atE) (use assms(1) in \<open>auto simp: t counted_def handlers_of_def\<close>)
next
  case (N_untrack k)
  then have h: "handler_at s k P_returned"
    and t: "t = untrack_connection (cn_id (ns_handlers s ! k)) (set_phase k P_untracked s)"
    using assms(2) by (auto split: if_splits)
  show ?thesis using h by (rule handler_atE) (use assms(1) in \<open>auto simp: t counted_def handlers_of_def\<close>)
next
  case (N_release k)
  then have h: "handler_at s k P_untracked" and t: "t = release k s" using assms(2) by (auto split: if_splits)
  have l: "ns_listeners t = (ns_listeners s)[cn_listener (ns_handlers s ! k) :=
        (ns_listeners s ! cn_listener (ns_handlers s ! k))\<lparr>ln_sem := ln_sem (ns_listeners s ! cn_listener (ns_handlers s ! k)) - 1\<rparr>]"
    "ns_metrics t = ns_metrics s" by (simp_all add: t release_def set_listener_def)
  from h show ?thesis
    by (rule handler_atE) (use assms(1) in \<open>auto simp: counted_def handlers_of_def l nth_update t [symmetric]\<close>)
next
  case N_close
  then show ?thesis using assms by (auto simp: counted_def handlers_of_def split: if_splits)
next
  case N_close_next
  then show ?thesis
    using assms by (auto simp: close_next_def counted_def handlers_of_def set_listener_def nth_update
        split: close_state.splits list.splits if_splits)
qed

text \<open>The map of connections holds those that are not past \<^verbatim>\<open>untrackConnection\<close>, and every open socket has an owner.\<close>

definition owned :: "net_state \<Rightarrow> bool" where
  "owned s \<longleftrightarrow>
     set (ns_conns s) = set (map cn_id (filter (\<lambda>h. cn_phase h \<noteq> P_untracked) (ns_handlers s)))
     \<and> set (ns_open s) \<subseteq> {c. \<exists>i. got s i c} \<union> set (map cn_id (filter (\<lambda>h. cn_phase h \<in> {P_started, P_handling}) (ns_handlers s)))"

lemma step_owned:
  assumes "owned s" and "numbered s" and "net_step e s = Some t"
  shows "owned t"
proof (cases e)
  case (N_accept i)
  then have t: "got t i (ns_accepted s)" "got s j c \<Longrightarrow> got t j c" "ns_handlers t = ns_handlers s"
    "ns_conns t = ns_conns s" "ns_open t = ns_accepted s # ns_open s" for j c
    using assms(3) by (auto simp: got_def split: if_splits)
  have "{c. \<exists>i. got s i c} \<subseteq> {c. \<exists>i. got t i c}" using t(2) by blast
  then show ?thesis using assms(1) t(1) unfolding owned_def t(3-5) by (auto, blast)
next
  case (N_accept_fails i)
  then have "got t j c \<longleftrightarrow> got s j c" "ns_handlers t = ns_handlers s" "ns_conns t = ns_conns s" "ns_open t = ns_open s" for j c
    using assms(3) by (auto simp: got_def split: if_splits)
  then show ?thesis using assms(1) by (simp add: owned_def)
next
  case (N_admit i)
  then obtain c where c: "got s i c" "t = admit i c s" using assms(3) admit_step by metis
  then have t: "got t j d \<longleftrightarrow> i \<noteq> j \<and> got s j d" for j d using admit_got by simp
  have "got s j d \<Longrightarrow> d \<noteq> c \<Longrightarrow> i \<noteq> j" for j d using c(1) by (auto simp: got_def)
  then have g: "(\<exists>j. got s j d) \<longleftrightarrow> d = c \<or> (\<exists>j. got t j d)" for d using c(1) t by metis
  show ?thesis
  proof (cases "ln_sem (ns_listeners s ! i) < ln_max_connections (ns_listeners s ! i)")
    case True
    then have "ns_handlers t = ns_handlers s @ [\<lparr>cn_id = c, cn_listener = i, cn_phase = P_started\<rparr>]"
      "set (ns_conns t) = insert c (set (ns_conns s))" "ns_open t = ns_open s" by (simp_all add: c(2) admit_def Let_def)
    then show ?thesis using assms(1) unfolding owned_def g by auto
  next
    case False
    then have "ns_handlers t = ns_handlers s" "ns_conns t = ns_conns s" "set (ns_open t) = set (ns_open s) - {c}"
      by (simp_all add: c(2) admit_def Let_def)
    then show ?thesis using assms(1) unfolding owned_def g by auto
  qed
next
  case (N_begin k)
  then have h: "handler_at s k P_started" and t: "t = active_add 1 (set_phase k P_handling s)" using assms(3) by (auto split: if_splits)
  show ?thesis using h by (rule handler_atE) (use assms(1) in \<open>auto simp: t owned_def got_cong [of "active_add 1 (set_phase k P_handling s)" s]\<close>)
next
  case (N_return k)
  then have h: "handler_at s k P_handling"
    and t: "t = close_socket (cn_id (ns_handlers s ! k)) (active_add (- 1) (set_phase k P_returned s))"
    using assms(3) by (auto split: if_splits)
  have g: "got t = got s" by (rule got_cong) (simp add: t)
  show ?thesis using h by (rule handler_atE) (use assms(1,2) g in \<open>auto simp: t owned_def numbered_def\<close>)
next
  case (N_untrack k)
  then have h: "handler_at s k P_returned"
    and t: "t = untrack_connection (cn_id (ns_handlers s ! k)) (set_phase k P_untracked s)"
    using assms(3) by (auto split: if_splits)
  have g: "got t = got s" by (rule got_cong) (simp add: t)
  show ?thesis using h by (rule handler_atE) (use assms(1,2) g in \<open>auto simp: t owned_def numbered_def\<close>)
next
  case (N_release k)
  then have h: "handler_at s k P_untracked" and t: "t = release k s" using assms(3) by (auto split: if_splits)
  have g: "got t = got s" "ns_conns t = ns_conns s" "ns_open t = ns_open s"
    by (auto simp: t fun_eq_iff got_def release_def set_listener_def nth_update split: if_splits)
  from h show ?thesis by (rule handler_atE) (use assms(1) g in \<open>auto simp: t [symmetric] owned_def\<close>)
next
  case N_close
  then show ?thesis using assms by (auto simp: owned_def got_def split: if_splits)
next
  case N_close_next
  then have "got t = got s" "ns_handlers t = ns_handlers s" "ns_conns t = ns_conns s" "set (ns_open t) \<subseteq> set (ns_open s)"
    using assms(3)
    by (auto simp: fun_eq_iff got_def close_next_def split: close_state.splits list.splits if_splits)
  then show ?thesis using assms(1) by (auto simp: owned_def)
qed

text \<open>What \<^verbatim>\<open>Close\<close> has done when it waits.\<close>

definition closing :: "net_state \<Rightarrow> bool" where
  "closing s \<longleftrightarrow>
     (case ns_close s of
        C_running \<Rightarrow> True
      | C_closers js \<Rightarrow> \<forall>i < length (ns_listeners s). ln_open (ns_listeners s ! i) \<longrightarrow> i \<in> set js
      | C_accepts \<Rightarrow> \<forall>i < length (ns_listeners s). \<not> ln_open (ns_listeners s ! i)
      | C_conns cs \<Rightarrow> (\<forall>i < length (ns_listeners s). \<not> ln_open (ns_listeners s ! i) \<and> ln_loop (ns_listeners s ! i) = A_ended)
          \<and> set (ns_open s) \<subseteq> set cs
      | C_waiting \<Rightarrow> (\<forall>i < length (ns_listeners s). \<not> ln_open (ns_listeners s ! i) \<and> ln_loop (ns_listeners s ! i) = A_ended)
          \<and> ns_open s = []
      | C_closed \<Rightarrow> (\<forall>i < length (ns_listeners s). \<not> ln_open (ns_listeners s ! i) \<and> ln_loop (ns_listeners s ! i) = A_ended)
          \<and> ns_open s = [] \<and> ns_handlers s = [])"

lemma closing_mono:
  assumes "closing s" and "ns_close t = ns_close s" and "length (ns_listeners t) = length (ns_listeners s)"
    and "\<And>i. i < length (ns_listeners s) \<Longrightarrow> ln_open (ns_listeners t ! i) = ln_open (ns_listeners s ! i)"
    and "\<And>i. i < length (ns_listeners s) \<Longrightarrow> ln_loop (ns_listeners s ! i) = A_ended \<Longrightarrow> ln_loop (ns_listeners t ! i) = A_ended"
    and "set (ns_open t) \<subseteq> set (ns_open s)" and "ns_handlers s = [] \<Longrightarrow> ns_handlers t = []"
  shows "closing t"
  using assms by (auto simp: closing_def split: close_state.splits)

lemma step_closing:
  assumes "closing s" and "owned s" and "net_step e s = Some t"
  shows "closing t"
proof (cases e)
  case (N_accept i)
  then have "i < length (ns_listeners s)" "ln_open (ns_listeners s ! i)"
    and t: "t = (set_listener i (\<lambda>l. l\<lparr>ln_loop := A_got (ns_accepted s)\<rparr>) s)\<lparr>ns_open := ns_accepted s # ns_open s, ns_accepted := ns_accepted s + 1\<rparr>"
    using assms(3) by (auto split: if_splits)
  then show ?thesis using assms(1) by (auto simp: closing_def t split: close_state.splits)
next
  case (N_accept_fails i)
  then show ?thesis using assms(3) by (intro closing_mono [OF assms(1)]) (auto split: if_splits)
next
  case (N_admit i)
  then obtain c where c: "got s i c" "t = admit i c s" using assms(3) admit_step by metis
  then show ?thesis
    by (cases "ns_handlers s = []")
      (use assms(1) in \<open>auto simp: closing_def admit_def Let_def got_def split: close_state.splits\<close>)
next
  case N_close
  then show ?thesis using assms(3) by (auto simp: closing_def split: if_splits)
next
  case (N_release k)
  then have h: "handler_at s k P_untracked" "t = release k s" using assms(3) by (auto split: if_splits)
  then show ?thesis
    by (intro closing_mono [OF assms(1)]) (auto simp: release_def handler_at_def)
next
  case N_close_next
  have got: "{c. \<exists>i. got s i c} = {}" if "list_all (\<lambda>l. ln_loop l = A_ended) (ns_listeners s)"
    using that by (auto simp: got_def list_all_length)
  have conns: "set (ns_open s) \<subseteq> set (ns_conns s)" if "list_all (\<lambda>l. ln_loop l = A_ended) (ns_listeners s)"
    using got [OF that] assms(2) by (auto simp: owned_def)
  with N_close_next show ?thesis
    using assms(1,3)
    by (auto simp: close_next_def closing_def list_all_length split: close_state.splits list.splits if_splits)
qed (use assms(3) in \<open>auto simp: set_phase_def split: if_splits intro!: closing_mono [OF assms(1)]\<close>)

subsection \<open>Reachable states\<close>

definition net_inv :: "int list \<Rightarrow> int \<Rightarrow> net_state \<Rightarrow> bool" where
  "net_inv limits base s \<longleftrightarrow>
     numbered s \<and> counted base s \<and> owned s \<and> closing s \<and> map ln_max_connections (ns_listeners s) = limits"

lemma set_listener_limits:
  "ln_max_connections (f (ns_listeners s ! i)) = ln_max_connections (ns_listeners s ! i) \<Longrightarrow>
   map ln_max_connections (ns_listeners (set_listener i f s)) = map ln_max_connections (ns_listeners s)"
  by (cases "i < length (ns_listeners s)") (simp_all add: set_listener_def map_update list_update_same_conv list_update_beyond)

lemma step_limits:
  assumes "net_step e s = Some t"
  shows "map ln_max_connections (ns_listeners t) = map ln_max_connections (ns_listeners s)"
  using assms
  by (cases e)
    (auto simp: set_listener_limits admit_def Let_def release_def close_next_def
      split: if_splits accept_loop.splits close_state.splits list.splits)

lemma step_net_inv: "net_inv limits base s \<Longrightarrow> net_step e s = Some t \<Longrightarrow> net_inv limits base t"
  unfolding net_inv_def using step_numbered step_counted step_owned step_closing step_limits by metis

lemma listening_inv:
  "net_inv (map sc_max_connections (filter sc_enabled sources)) (counter_total (\<lambda>_. True) (mt_active_connections m)) (listening sources m)"
  by (auto simp: net_inv_def numbered_def counted_def owned_def closing_def listening_def got_def new_listener_def handlers_of_def)

lemma reaches_net_inv: "net_reaches s t \<Longrightarrow> net_inv limits base s \<Longrightarrow> net_inv limits base t"
  by (induction rule: net_reaches.induct) (blast intro: step_net_inv)+

section \<open>Close comes to its end\<close>

text \<open>
  The steps that need no peer: an accept loop fails only once its listener is closed, and a handler
  returns only once its socket is.
\<close>

fun own :: "net_event \<Rightarrow> net_state \<Rightarrow> bool" where
  "own (N_accept i) s \<longleftrightarrow> False"
| "own N_close s \<longleftrightarrow> False"
| "own (N_accept_fails i) s \<longleftrightarrow> \<not> ln_open (ns_listeners s ! i)"
| "own (N_return k) s \<longleftrightarrow> cn_id (ns_handlers s ! k) \<notin> set (ns_open s)"
| "own _ s \<longleftrightarrow> True"

fun own_run :: "net_event list \<Rightarrow> net_state \<Rightarrow> net_state option" where
  "own_run [] s = Some s"
| "own_run (e # es) s = (if own e s then Option.bind (net_step e s) (own_run es) else None)"

fun loop_work :: "accept_loop \<Rightarrow> nat" where
  "loop_work A_waiting = 1"
| "loop_work (A_got c) = 7"
| "loop_work A_ended = 0"

fun phase_work :: "conn_phase \<Rightarrow> nat" where
  "phase_work P_started = 4"
| "phase_work P_handling = 3"
| "phase_work P_returned = 2"
| "phase_work P_untracked = 1"

fun close_work :: "nat \<Rightarrow> close_state \<Rightarrow> nat" where
  "close_work n C_running = n + 5"
| "close_work n (C_closers js) = n + 4 + length js"
| "close_work n C_accepts = n + 3"
| "close_work n (C_conns cs) = 2 + length cs"
| "close_work n C_waiting = 1"
| "close_work n C_closed = 0"

definition net_work :: "net_state \<Rightarrow> nat" where
  "net_work s =
     sum_list (map (\<lambda>l. loop_work (ln_loop l)) (ns_listeners s)) + sum_list (map (\<lambda>h. phase_work (cn_phase h)) (ns_handlers s))
     + close_work (length (ns_conns s)) (ns_close s)"

lemma sum_update:
  fixes f :: "'a \<Rightarrow> nat"
  assumes "i < length xs"
  shows "sum_list (map f (xs[i := x])) + f (xs ! i) = sum_list (map f xs) + f x"
  using assms
proof (induction xs arbitrary: i)
  case (Cons a xs)
  then show ?case by (cases i) (simp_all add: ac_simps)
qed simp

lemma loops_update:
  assumes "i < length (ns_listeners s)"
  shows "sum_list (map (\<lambda>l. loop_work (ln_loop l)) (ns_listeners (set_listener i f s))) + loop_work (ln_loop (ns_listeners s ! i))
    = sum_list (map (\<lambda>l. loop_work (ln_loop l)) (ns_listeners s)) + loop_work (ln_loop (f (ns_listeners s ! i)))"
  using sum_update [OF assms, of "\<lambda>l. loop_work (ln_loop l)"] by (simp add: set_listener_def)

lemma loops_keep:
  "ln_loop (f (ns_listeners s ! i)) = ln_loop (ns_listeners s ! i) \<Longrightarrow>
   sum_list (map (\<lambda>l. loop_work (ln_loop l)) (ns_listeners (set_listener i f s))) = sum_list (map (\<lambda>l. loop_work (ln_loop l)) (ns_listeners s))"
  using loops_update [of i s f] by (cases "i < length (ns_listeners s)") (simp_all add: set_listener_def list_update_beyond)

lemma insert_length: "length (List.insert x xs) \<le> Suc (length xs)"
  by (simp add: List.insert_def)

lemma close_work_mono: "m \<le> n + 1 \<Longrightarrow> close_work m c \<le> close_work n c + 1" "m \<le> n \<Longrightarrow> close_work m c \<le> close_work n c"
  by (cases c; simp)+

lemma phases_update:
  assumes "handler_at s k ph"
  shows "sum_list (map (\<lambda>h. phase_work (cn_phase h)) (ns_handlers (set_phase k ph' s))) + phase_work ph
    = sum_list (map (\<lambda>h. phase_work (cn_phase h)) (ns_handlers s)) + phase_work ph'"
    and "sum_list (map (\<lambda>h. phase_work (cn_phase h)) (ns_handlers (release k s))) + phase_work ph
    = sum_list (map (\<lambda>h. phase_work (cn_phase h)) (ns_handlers s))"
  using assms by (rule handler_atE; simp)+

text \<open>Each own step does some of the work.\<close>

lemma own_work:
  assumes "own e s" and "net_step e s = Some t"
  shows "net_work t < net_work s"
proof (cases e)
  case (N_accept_fails i)
  then show ?thesis using assms(2) loops_update [of i s "\<lambda>l. l\<lparr>ln_loop := A_ended\<rparr>"] by (auto simp: net_work_def split: if_splits)
next
  case (N_admit i)
  then obtain c where c: "got s i c" "t = admit i c s" using assms(2) admit_step by metis
  have i: "i < length (ns_listeners s)" "ln_loop (ns_listeners s ! i) = A_got c" using c(1) by (simp_all add: got_def)
  have "close_work (length (List.insert c (ns_conns s))) (ns_close s) \<le> close_work (length (ns_conns s)) (ns_close s) + 1"
    using insert_length [of c "ns_conns s"] by (intro close_work_mono) simp
  then show ?thesis
    using loops_update [OF i(1), of "\<lambda>l. l\<lparr>ln_sem := ln_sem l + 1, ln_loop := A_waiting\<rparr>"]
      loops_update [OF i(1), of "\<lambda>l. l\<lparr>ln_loop := A_waiting\<rparr>"] i(2)
    by (simp add: net_work_def c(2) admit_def Let_def)
next
  case (N_begin k)
  then show ?thesis using assms(2) phases_update(1) [of s k P_started P_handling] by (auto simp: net_work_def split: if_splits)
next
  case (N_return k)
  then show ?thesis using assms(2) phases_update(1) [of s k P_handling P_returned] by (auto simp: net_work_def split: if_splits)
next
  case (N_untrack k)
  then have h: "handler_at s k P_returned"
    and t: "t = untrack_connection (cn_id (ns_handlers s ! k)) (set_phase k P_untracked s)"
    using assms(2) by (auto split: if_splits)
  have "close_work (length (removeAll (cn_id (ns_handlers s ! k)) (ns_conns s))) (ns_close s) \<le> close_work (length (ns_conns s)) (ns_close s)"
    by (intro close_work_mono) (simp add: removeAll_filter_not_eq)
  then show ?thesis using phases_update(1) [OF h, of P_untracked] by (simp add: net_work_def t)
next
  case (N_release k)
  then have h: "handler_at s k P_untracked" "t = release k s" using assms(2) by (auto split: if_splits)
  have "sum_list (map (\<lambda>l. loop_work (ln_loop l)) (ns_listeners t)) = sum_list (map (\<lambda>l. loop_work (ln_loop l)) (ns_listeners s))"
    "ns_conns t = ns_conns s" "ns_close t = ns_close s"
    using loops_keep [of "\<lambda>l. l\<lparr>ln_sem := ln_sem l - 1\<rparr>"] by (simp_all add: h(2) release_def)
  then show ?thesis using phases_update(2) [OF h(1)] by (simp add: net_work_def h(2))
next
  case N_close_next
  then show ?thesis
    using assms(2) loops_keep [of "\<lambda>l. l\<lparr>ln_open := False\<rparr>" s]
    by (auto simp: net_work_def close_next_def split: close_state.splits list.splits if_splits)
qed (use assms(1) in simp_all)

text \<open>A \<^verbatim>\<open>Close\<close> that has not ended has a step to take.\<close>

lemma close_progress:
  assumes "closing s" and "ns_close s \<noteq> C_running" and "ns_close s \<noteq> C_closed"
  shows "\<exists>e t. own e s \<and> net_step e s = Some t"
proof (cases "close_next s")
  case (Some t)
  then show ?thesis by (intro exI [of _ N_close_next]) simp
next
  case None
  then consider (loops) "ns_close s = C_accepts" "\<not> list_all (\<lambda>l. ln_loop l = A_ended) (ns_listeners s)"
    | (handlers) "ns_close s = C_waiting" "ns_handlers s \<noteq> []"
    using assms(2,3) by (auto simp: close_next_def split: close_state.splits list.splits if_splits)
  then show ?thesis
  proof cases
    case loops
    then obtain i where i: "i < length (ns_listeners s)" "ln_loop (ns_listeners s ! i) \<noteq> A_ended" by (auto simp: list_all_length)
    have "\<not> ln_open (ns_listeners s ! i)" using assms(1) loops(1) i(1) by (simp add: closing_def)
    then show ?thesis
      using i by (cases "ln_loop (ns_listeners s ! i)") (auto intro: exI [of _ "N_accept_fails i"] exI [of _ "N_admit i"])
  next
    case handlers
    have "ns_open s = []" using assms(1) handlers(1) by (simp add: closing_def)
    then show ?thesis
      using handlers(2)
      by (cases "cn_phase (ns_handlers s ! 0)")
        (auto simp: handler_at_def intro: exI [of _ "N_begin 0"] exI [of _ "N_return 0"] exI [of _ "N_untrack 0"] exI [of _ "N_release 0"])
  qed
qed

lemma own_keeps_closing: "own e s \<Longrightarrow> net_step e s = Some t \<Longrightarrow> ns_close s \<noteq> C_running \<Longrightarrow> ns_close t \<noteq> C_running"
  by (cases e)
    (auto simp: admit_def Let_def release_def close_next_def split: if_splits accept_loop.splits close_state.splits list.splits)

lemma own_run_work: "own_run es s = Some t \<Longrightarrow> length es + net_work t \<le> net_work s"
proof (induction es arbitrary: s)
  case (Cons e es)
  then obtain u where "own e s" "net_step e s = Some u" "own_run es u = Some t" by (auto simp: bind_eq_Some_conv split: if_splits)
  with Cons.IH own_work show ?case by fastforce
qed simp

lemma close_runs:
  assumes "net_inv limits base s" and "ns_close s \<noteq> C_running"
  shows "\<exists>es t. own_run es s = Some t \<and> ns_close t = C_closed"
  using assms
proof (induction "net_work s" arbitrary: s rule: less_induct)
  case less
  show ?case
  proof (cases "ns_close s = C_closed")
    case True
    then show ?thesis by (intro exI [of _ "[]"]) simp
  next
    case False
    then obtain e u where e: "own e s" "net_step e s = Some u"
      using close_progress less.prems(2) less.prems(1) [unfolded net_inv_def] by metis
    from less.hyps [OF own_work [OF e] step_net_inv [OF less.prems(1) e(2)] own_keeps_closing [OF e less.prems(2)]]
    obtain es t where "own_run es u = Some t" "ns_close t = C_closed" by blast
    then show ?thesis using e by (intro exI [of _ "e # es"]) simp
  qed
qed

section \<open>The properties\<close>

text \<open>
  C14: a listener keeps its connection limit, and the books on connections are exact.  In every
  state that the goroutines reach, each listener has at most the configured number of handlers
  and its semaphore counts them, the gauge of active connections counts the handlers at work, and
  the connections that \<^verbatim>\<open>Close\<close> would close are those of the handlers that have not untracked
  theirs; every open socket belongs to one of them or to an accept loop.
\<close>

theorem listener_limit:
  assumes "net_reaches (listening sources new_metrics) s" and "i < length (ns_listeners s)"
    and "0 \<le> sc_max_connections (filter sc_enabled sources ! i)"
  shows "int (length (handlers_of i s)) \<le> sc_max_connections (filter sc_enabled sources ! i)
     \<and> ln_sem (ns_listeners s ! i) = int (length (handlers_of i s))
     \<and> counter_total (\<lambda>_. True) (mt_active_connections (ns_metrics s)) = int (length (filter (\<lambda>h. cn_phase h = P_handling) (ns_handlers s)))
     \<and> set (ns_conns s) = set (map cn_id (filter (\<lambda>h. cn_phase h \<noteq> P_untracked) (ns_handlers s)))
     \<and> (\<forall>c \<in> set (ns_open s). c \<in> set (ns_conns s) \<or> (\<exists>j. got s j c))"
proof -
  have inv: "net_inv (map sc_max_connections (filter sc_enabled sources)) 0 s"
    using reaches_net_inv [OF assms(1) listening_inv] by (simp add: new_metrics_def)
  then have l: "map ln_max_connections (ns_listeners s) = map sc_max_connections (filter sc_enabled sources)"
    by (simp add: net_inv_def)
  have "length (ns_listeners s) = length (filter sc_enabled sources)" using arg_cong [OF l, of length] by simp
  then have "ln_max_connections (ns_listeners s ! i) = sc_max_connections (filter sc_enabled sources ! i)"
    using assms(2) arg_cong [OF l, of "\<lambda>xs. xs ! i"] by simp
  then show ?thesis using inv assms(2,3) by (auto simp: net_inv_def counted_def owned_def)
qed

text \<open>
  C13: \<^verbatim>\<open>Close\<close> comes to its end and leaves nothing behind.  From every state reached after it was
  called, the goroutines can finish without any help from the peers, there is no sequence of such
  steps longer than the work left, and once \<^verbatim>\<open>Close\<close> has returned, no listener and no connection is
  open, every accept loop and every handler has ended, and no connection is tracked, counted as
  active or holding a slot.
\<close>

theorem close_ends:
  assumes "net_reaches (listening sources new_metrics) s" and "ns_close s \<noteq> C_running"
  shows "(\<exists>es t. own_run es s = Some t \<and> ns_close t = C_closed)
     \<and> (\<forall>es t. own_run es s = Some t \<longrightarrow> length es \<le> net_work s)
     \<and> (ns_close s = C_closed \<longrightarrow>
          ns_open s = [] \<and> ns_handlers s = [] \<and> ns_conns s = [] \<and> counter_total (\<lambda>_. True) (mt_active_connections (ns_metrics s)) = 0
          \<and> list_all (\<lambda>l. \<not> ln_open l \<and> ln_loop l = A_ended \<and> ln_sem l = 0) (ns_listeners s))"
proof (intro conjI allI impI)
  have inv: "net_inv (map sc_max_connections (filter sc_enabled sources)) 0 s"
    using reaches_net_inv [OF assms(1) listening_inv] by (simp add: new_metrics_def)
  show "\<exists>es t. own_run es s = Some t \<and> ns_close t = C_closed" using close_runs [OF inv assms(2)] .
  show "length es \<le> net_work s" if "own_run es s = Some t" for es t using own_run_work [OF that] by simp
  assume c: "ns_close s = C_closed"
  show h: "ns_handlers s = []" and "ns_open s = []" using inv c by (simp_all add: net_inv_def closing_def)
  show "ns_conns s = []" "counter_total (\<lambda>_. True) (mt_active_connections (ns_metrics s)) = 0"
    using inv h by (simp_all add: net_inv_def owned_def counted_def)
  show "list_all (\<lambda>l. \<not> ln_open l \<and> ln_loop l = A_ended \<and> ln_sem l = 0) (ns_listeners s)"
    using inv c h by (simp add: net_inv_def closing_def counted_def handlers_of_def list_all_length)
qed

section \<open>Witnesses\<close>

lemma net_run_reaches: "net_run es t = Some u \<Longrightarrow> net_reaches s t \<Longrightarrow> net_reaches s u"
  by (induction es arbitrary: t) (auto simp: bind_eq_Some_conv intro: net_more)

definition sample_net :: "net_event list" where
  "sample_net = [N_accept 0, N_admit 0, N_begin 0, N_accept 0, N_admit 0, N_accept 0, N_admit 0, N_close]"

theorem listener_limit_witness:
  "\<exists>s. net_run sample_net (listening [sample_source] new_metrics) = Some s
     \<and> length (handlers_of 0 s) = 2 \<and> int (length (handlers_of 0 s)) \<le> sc_max_connections sample_source"
proof -
  have "case net_run sample_net (listening [sample_source] new_metrics) of
      None \<Rightarrow> False | Some s \<Rightarrow> length (handlers_of 0 s) = 2 \<and> 0 < length (ns_listeners s)"
    by code_simp
  then obtain s where s: "net_run sample_net (listening [sample_source] new_metrics) = Some s"
    "length (handlers_of 0 s) = 2" "0 < length (ns_listeners s)"
    by (auto split: option.splits)
  have "0 \<le> sc_max_connections (filter sc_enabled [sample_source] ! 0)" by (simp add: sample_source_def)
  from listener_limit [OF net_run_reaches [OF s(1) net_refl] s(3) this] s show ?thesis by (simp add: sample_source_def)
qed

theorem close_ends_witness:
  "\<exists>s es t. net_run sample_net (listening [sample_source] new_metrics) = Some s \<and> own_run es s = Some t \<and> ns_close t = C_closed"
proof -
  have "case net_run sample_net (listening [sample_source] new_metrics) of None \<Rightarrow> False | Some s \<Rightarrow> ns_close s \<noteq> C_running"
    by code_simp
  then obtain s where s: "net_run sample_net (listening [sample_source] new_metrics) = Some s" "ns_close s \<noteq> C_running"
    by (auto split: option.splits)
  from close_ends [OF net_run_reaches [OF s(1) net_refl] s(2)] s(1) show ?thesis by blast
qed

end
