(* ===== verification/Storage.thy ===== *)
theory Storage
  imports Domain
begin

text \<open>
  The types of \<^verbatim>\<open>backend/internal/storage/storage.go\<close> that queries and their results are made of.
  A row of a result is a JSON object, an association list whose later entries win.
\<close>

type_synonym row = "(bytes \<times> any_value) list"

record filter_spec =
  ft_field :: bytes
  ft_op :: bytes
  ft_value :: any_value

record log_query =
  lq_tenant_id :: bytes
  lq_start :: instant
  lq_end :: instant
  lq_text :: bytes
  lq_native :: bytes
  lq_filters :: "filter_spec list"
  lq_limit :: int
  lq_cursor :: bytes

record query_result =
  qr_data :: "row list"
  qr_next_cursor :: bytes
  qr_truncated :: bool

record bucket =
  bk_timestamp :: instant
  bk_count :: int

record value_count =
  vc_value :: bytes
  vc_count :: int

record stats_result =
  sr_total :: int
  sr_volume :: "bucket list"
  sr_severities :: "value_count list"
  sr_top_hosts :: "value_count list"
  sr_top_applications :: "value_count list"

record field_info =
  fi_name :: bytes
  fi_count :: int

record health =
  hl_healthy :: bool
  hl_message :: bytes

record capabilities =
  cp_backend :: bytes
  cp_full_text :: bool
  cp_field_discovery :: bool
  cp_facets :: bool
  cp_statistics :: bool
  cp_live_tail :: bool
  cp_native_dialect :: bytes

section \<open>The interface of storage\<close>

text \<open>
  What the pipeline and the ingestion handler rely on of a \<^verbatim>\<open>storage.Appender\<close>: an append that
  succeeds has taken the whole batch.
\<close>

locale appender =
  fixes store :: "log_entry list \<Rightarrow> 'e + (int \<times> int)"
  assumes accepts_all: "store batch = Inr (a, n) \<Longrightarrow> a = int (length batch)"

end
