(* ===== verification/Go_Quote.thy ===== *)
theory Go_Quote
  imports Go_Strconv
begin

text \<open>
  Text encodings of Go's standard library: runes and their UTF-8 form, \<^verbatim>\<open>strconv.Quote\<close> with the
  string literals it writes, and \<^verbatim>\<open>base64.RawURLEncoding\<close>.  Shown are that a literal is read
  back as the quoted bytes and ends exactly where the quoting ended, and that decoding
  undoes encoding.
\<close>

section \<open>Definitions\<close>

subsection \<open>Runes\<close>

text \<open>The rune at the start of a string whose \<^const>\<open>utf8_width\<close> is not zero, and its encoding.\<close>

definition rune_at :: "bytes \<Rightarrow> nat" where
  "rune_at s =
     (let b = (\<lambda>i. byte_val (s ! i)) in
      if utf8_width s = 1 then b 0
      else if utf8_width s = 2 then (b 0 - 192) * 64 + (b 1 - 128)
      else if utf8_width s = 3 then (b 0 - 224) * 4096 + (b 1 - 128) * 64 + (b 2 - 128)
      else (b 0 - 240) * 262144 + (b 1 - 128) * 4096 + (b 2 - 128) * 64 + (b 3 - 128))"

definition encode_rune :: "nat \<Rightarrow> bytes" where
  "encode_rune r =
     (if r < 128 then [char_of r]
      else if r < 2048 then [char_of (192 + r div 64), char_of (128 + r mod 64)]
      else if r < 65536
      then [char_of (224 + r div 4096), char_of (128 + r div 64 mod 64), char_of (128 + r mod 64)]
      else [char_of (240 + r div 262144), char_of (128 + r div 4096 mod 64), char_of (128 + r div 64 mod 64),
            char_of (128 + r mod 64)])"

subsection \<open>Package strconv: Quote\<close>

fun hex_digits :: "nat \<Rightarrow> nat \<Rightarrow> bytes" where
  "hex_digits 0 n = []"
| "hex_digits (Suc k) n = hex_digits k (n div 16) @ [hex_char (n mod 16)]"

text \<open>
  \<^verbatim>\<open>appendEscapedRune\<close>.  Which runes above ASCII \<^verbatim>\<open>IsPrint\<close> holds of is a table of the Unicode
  standard; it is the argument \<open>printable\<close>.
\<close>

definition escape_rune :: "(nat \<Rightarrow> bool) \<Rightarrow> nat \<Rightarrow> bytes" where
  "escape_rune printable r =
     (if r = 34 \<or> r = 92 then [CHR 0x5C, char_of r]
      else if 32 \<le> r \<and> r < 127 \<or> 128 \<le> r \<and> printable r then encode_rune r
      else if r = 7 then [CHR 0x5C, CHR ''a'']
      else if r = 8 then [CHR 0x5C, CHR ''b'']
      else if r = 12 then [CHR 0x5C, CHR ''f'']
      else if r = 10 then [CHR 0x5C, CHR ''n'']
      else if r = 13 then [CHR 0x5C, CHR ''r'']
      else if r = 9 then [CHR 0x5C, CHR ''t'']
      else if r = 11 then [CHR 0x5C, CHR ''v'']
      else if r < 32 \<or> r = 127 then [CHR 0x5C, CHR ''x''] @ hex_digits 2 r
      else if r < 65536 then [CHR 0x5C, CHR ''u''] @ hex_digits 4 r
      else [CHR 0x5C, CHR ''U''] @ hex_digits 8 r)"

function quote_body :: "(nat \<Rightarrow> bool) \<Rightarrow> bytes \<Rightarrow> bytes" where
  "quote_body printable s =
     (if s = [] then []
      else if utf8_width s = 0
      then [CHR 0x5C, CHR ''x''] @ hex_digits 2 (byte_val (hd s)) @ quote_body printable (tl s)
      else escape_rune printable (rune_at s) @ quote_body printable (drop (utf8_width s) s))"
  by pat_completeness auto
termination
  by (relation "measure (\<lambda>(p, s). length s)") auto

declare quote_body.simps [simp del]

definition strconv_quote :: "(nat \<Rightarrow> bool) \<Rightarrow> bytes \<Rightarrow> bytes" where
  "strconv_quote printable s = CHR 0x22 # quote_body printable s @ [CHR 0x22]"

subsection \<open>Reading a string literal\<close>

definition hex_number :: "bytes \<Rightarrow> nat" where
  "hex_number s = foldl (\<lambda>a c. a * 16 + hex_val c) 0 s"

definition simple_escape :: "char \<Rightarrow> char option" where
  "simple_escape c =
     map_of [(CHR ''a'', CHR 0x07), (CHR ''b'', CHR 0x08), (CHR ''f'', CHR 0x0C), (CHR ''n'', CHR 0x0A),
             (CHR ''r'', CHR 0x0D), (CHR ''t'', CHR 0x09), (CHR ''v'', CHR 0x0B), (CHR 0x5C, CHR 0x5C),
             (CHR 0x22, CHR 0x22)] c"

text \<open>How many digits a numeric escape has.\<close>

definition escape_digits :: "char \<Rightarrow> nat option" where
  "escape_digits c = map_of [(CHR ''x'', 2), (CHR ''u'', 4), (CHR ''U'', 8)] c"

text \<open>
  An interpreted string literal of the Go language from behind its opening quote: the bytes
  it stands for, and the text behind its closing quote.
\<close>

function read_literal :: "bytes \<Rightarrow> (bytes \<times> bytes) option" where
  "read_literal s =
     (case s of
        [] \<Rightarrow> None
      | c # t \<Rightarrow>
          if c = CHR 0x22 then Some ([], t)
          else if c = CHR 0x0A then None
          else if c \<noteq> CHR 0x5C then map_option (\<lambda>(v, rest). (c # v, rest)) (read_literal t)
          else
            (case t of
               [] \<Rightarrow> None
             | e # u \<Rightarrow>
                 (case simple_escape e of
                    Some d \<Rightarrow> map_option (\<lambda>(v, rest). (d # v, rest)) (read_literal u)
                  | None \<Rightarrow>
                      (case escape_digits e of
                         None \<Rightarrow> None
                       | Some k \<Rightarrow>
                           if length u < k \<or> \<not> list_all is_hex (take k u) then None
                           else
                             map_option (\<lambda>(v, rest).
                               ((if k = 2 then [char_of (hex_number (take k u))]
                                 else encode_rune (hex_number (take k u))) @ v, rest))
                               (read_literal (drop k u))))))"
  by pat_completeness auto
termination
  by (relation "measure length") auto

declare read_literal.simps [simp del]

definition quoted_prefix :: "bytes \<Rightarrow> (bytes \<times> bytes) option" where
  "quoted_prefix s = (case s of [] \<Rightarrow> None | c # t \<Rightarrow> if c = CHR 0x22 then read_literal t else None)"

subsection \<open>Package encoding/base64: RawURLEncoding\<close>

definition base64_alphabet :: bytes where
  "base64_alphabet = ''ABCDEFGHIJKLMNOPQRSTUVWXYZabcdefghijklmnopqrstuvwxyz0123456789-_''"

definition base64_char :: "nat \<Rightarrow> char" where
  "base64_char d = base64_alphabet ! d"

definition base64_value :: "char \<Rightarrow> nat option" where
  "base64_value c = index_byte c base64_alphabet"

fun base64_encode :: "bytes \<Rightarrow> bytes" where
  "base64_encode [] = []"
| "base64_encode [a] =
     [base64_char (byte_val a div 4), base64_char (byte_val a mod 4 * 16)]"
| "base64_encode [a, b] =
     [base64_char (byte_val a div 4), base64_char (byte_val a mod 4 * 16 + byte_val b div 16),
      base64_char (byte_val b mod 16 * 4)]"
| "base64_encode (a # b # c # s) =
     base64_char (byte_val a div 4) # base64_char (byte_val a mod 4 * 16 + byte_val b div 16)
     # base64_char (byte_val b mod 16 * 4 + byte_val c div 64) # base64_char (byte_val c mod 64)
     # base64_encode s"

text \<open>Decoding the values of the characters; the bits that fill up the last character are ignored.\<close>

fun base64_groups :: "nat list \<Rightarrow> bytes option" where
  "base64_groups [] = Some []"
| "base64_groups [w] = None"
| "base64_groups [w, x] = Some [char_of (w * 4 + x div 16)]"
| "base64_groups [w, x, y] = Some [char_of (w * 4 + x div 16), char_of (x mod 16 * 16 + y div 4)]"
| "base64_groups (w # x # y # z # s) =
     map_option (\<lambda>v. char_of (w * 4 + x div 16) # char_of (x mod 16 * 16 + y div 4) # char_of (y mod 4 * 64 + z) # v)
       (base64_groups s)"

text \<open>\<^verbatim>\<open>DecodeString\<close>, which skips carriage returns and newlines.\<close>

definition base64_decode :: "bytes \<Rightarrow> bytes option" where
  "base64_decode s =
     (let t = filter (\<lambda>c. c \<noteq> CHR 0x0A \<and> c \<noteq> CHR 0x0D) s in
      if list_all (\<lambda>c. base64_value c \<noteq> None) t
      then base64_groups (map (\<lambda>c. the (base64_value c)) t) else None)"

section \<open>Quoting\<close>

lemma length_hex_digits [simp]: "length (hex_digits k n) = k"
  by (induction k n rule: hex_digits.induct) simp_all

lemma hex_digits_is_hex: "list_all is_hex (hex_digits k n)"
  by (induction k n rule: hex_digits.induct) simp_all

lemma hex_number_snoc [simp]: "hex_number (s @ [c]) = hex_number s * 16 + hex_val c"
  by (simp add: hex_number_def)

lemma hex_number_digits: "n < 16 ^ k \<Longrightarrow> hex_number (hex_digits k n) = n"
proof (induction k n rule: hex_digits.induct)
  case (2 k n)
  then have "n div 16 < 16 ^ k" by (simp add: less_mult_imp_div_less)
  then show ?case using 2 by simp
qed (simp add: hex_number_def)

lemma base64_digits:
  assumes "z < (64 :: nat)"
  shows "(y * 64 + z) div 64 = y" "(y * 64 + z) mod 64 = z"
  using assms by simp_all

lemma is_contD: "is_cont c \<Longrightarrow> byte_val c = 128 + (byte_val c - 128) \<and> byte_val c - 128 < 64"
  by (auto simp: is_cont_def)

text \<open>The bytes of a well-formed sequence, by its width.\<close>

lemma utf8_width_cases:
  assumes "utf8_width s \<noteq> 0"
  obtains (one) a t where "s = a # t" "utf8_width s = 1" "byte_val a < 128"
  | (two) a b t where "s = a # b # t" "utf8_width s = 2" "194 \<le> byte_val a" "byte_val a \<le> 223" "is_cont b"
  | (three) a b c t where "s = a # b # c # t" "utf8_width s = 3" "224 \<le> byte_val a" "byte_val a \<le> 239"
      "is_cont b" "is_cont c" "utf8_second_ok (byte_val a) (byte_val b)"
  | (four) a b c d t where "s = a # b # c # d # t" "utf8_width s = 4" "240 \<le> byte_val a" "byte_val a \<le> 244"
      "is_cont b" "is_cont c" "is_cont d" "utf8_second_ok (byte_val a) (byte_val b)"
proof -
  obtain a t where s: "s = a # t" using assms by (cases s) (simp_all add: utf8_width_def)
  define n where "n = utf8_need (byte_val a)"
  have w: "utf8_width s = n" "n \<noteq> 0" "n \<le> Suc (length t)" "list_all is_cont (take (n - 1) t)"
    "n \<noteq> 1 \<Longrightarrow> utf8_second_ok (byte_val a) (byte_val (hd t))"
    using assms by (auto simp: utf8_width_def s n_def [symmetric] Let_def split: if_splits)
  consider (1) "n = 1" "byte_val a < 128" | (2) "n = 2" "194 \<le> byte_val a" "byte_val a \<le> 223"
    | (3) "n = 3" "224 \<le> byte_val a" "byte_val a \<le> 239" | (4) "n = 4" "240 \<le> byte_val a" "byte_val a \<le> 244"
    using w(2) by (auto simp: n_def utf8_need_def split: if_splits)
  then show thesis
  proof cases
    case 1
    then show thesis using one s w(1) by simp
  next
    case 2
    then obtain b u where "t = b # u" using w(3) by (cases t) simp_all
    then show thesis using two s w 2 by simp
  next
    case 3
    then obtain b c u where "t = b # c # u" using w(3) by (metis Suc_le_length_iff numeral_3_eq_3 Suc_le_mono)
    then show thesis using three s w 3 by simp
  next
    case 4
    then have "3 \<le> length t" using w(3) by simp
    then obtain b c d u where "t = b # c # d # u" by (metis Suc_le_length_iff numeral_3_eq_3)
    then show thesis using four s w 4 by (simp add: numeral_eq_Suc)
  qed
qed

text \<open>Encoding the rune that was decoded gives back its bytes.\<close>

lemma encode_rune_at:
  assumes "utf8_width s \<noteq> 0"
  shows "encode_rune (rune_at s) = take (utf8_width s) s \<and> rune_at s < 1114112 \<and> (rune_at s < 128 \<longleftrightarrow> utf8_width s = 1)"
  using assms
proof (cases rule: utf8_width_cases)
  case (one a t)
  then show ?thesis by (simp add: rune_at_def encode_rune_def)
next
  case (two a b t)
  define x y where "x = byte_val a - 192" and "y = byte_val b - 128"
  have v: "byte_val a = 192 + x" "byte_val b = 128 + y" "2 \<le> x" "x < 32" "y < 64"
    using two is_contD [of b] by (simp_all add: x_def y_def)
  have r: "rune_at s = x * 64 + y" using two by (simp add: rune_at_def x_def y_def)
  have ab: "char_of (192 + x) = a" "char_of (128 + y) = b" using v(1,2) by (metis char_of_char)+
  have "\<not> x * 64 + y < 128" "x * 64 + y < 2048" using v by linarith+
  then show ?thesis unfolding r two(2) using v ab two(1) by (simp add: encode_rune_def base64_digits)
next
  case (three a b c t)
  define x y z where "x = byte_val a - 224" and "y = byte_val b - 128" and "z = byte_val c - 128"
  have v: "byte_val a = 224 + x" "byte_val b = 128 + y" "byte_val c = 128 + z" "x < 16" "y < 64" "z < 64"
    using three is_contD [of b] is_contD [of c] by (simp_all add: x_def y_def z_def)
  have r: "rune_at s = (x * 64 + y) * 64 + z" using three by (simp add: rune_at_def x_def y_def z_def)
  have abc: "char_of (224 + x) = a" "char_of (128 + y) = b" "char_of (128 + z) = c"
    using v(1-3) by (metis char_of_char)+
  have "x = 0 \<Longrightarrow> 32 \<le> y" using three(7) v by (simp add: utf8_second_ok_def)
  then have "32 \<le> x * 64 + y" by (cases "x = 0") simp_all
  then have lim: "\<not> rune_at s < 2048" "rune_at s < 65536" using v by (simp_all add: r)
  have "rune_at s mod 64 = z" "rune_at s div 64 mod 64 = y" "rune_at s div 64 div 64 = x"
    unfolding r base64_digits [OF v(6)] base64_digits [OF v(5)] by simp_all
  then have "rune_at s mod 64 = z" "rune_at s div 64 mod 64 = y" "rune_at s div 4096 = x"
    using div_mult2_eq [of "rune_at s" 64 64] by simp_all
  then show ?thesis using lim abc unfolding three(2) encode_rune_def by (simp add: three(1))
next
  case (four a b c d t)
  define x y z w where "x = byte_val a - 240" and "y = byte_val b - 128" and "z = byte_val c - 128" and "w = byte_val d - 128"
  have v: "byte_val a = 240 + x" "byte_val b = 128 + y" "byte_val c = 128 + z" "byte_val d = 128 + w"
    "x < 5" "y < 64" "z < 64" "w < 64"
    using four is_contD [of b] is_contD [of c] is_contD [of d] by (simp_all add: x_def y_def z_def w_def)
  have r: "rune_at s = ((x * 64 + y) * 64 + z) * 64 + w" using four by (simp add: rune_at_def x_def y_def z_def w_def)
  have abcd: "char_of (240 + x) = a" "char_of (128 + y) = b" "char_of (128 + z) = c" "char_of (128 + w) = d"
    using v(1-4) by (metis char_of_char)+
  have "x = 0 \<Longrightarrow> 16 \<le> y" using four(8) v by (simp add: utf8_second_ok_def)
  then have "16 \<le> x * 64 + y" by (cases "x = 0") simp_all
  moreover have "x = 4 \<Longrightarrow> y < 16" using four(8) v by (simp add: utf8_second_ok_def)
  then have "x * 64 + y < 272" using v by (cases "x = 4") simp_all
  ultimately have lim: "\<not> rune_at s < 65536" "rune_at s < 1114112" using v by (simp_all add: r)
  have "rune_at s mod 64 = w" "rune_at s div 64 mod 64 = z" "rune_at s div 64 div 64 mod 64 = y"
    "rune_at s div 64 div 64 div 64 = x"
    unfolding r base64_digits [OF v(8)] base64_digits [OF v(7)] base64_digits [OF v(6)] by simp_all
  then have "rune_at s mod 64 = w" "rune_at s div 64 mod 64 = z" "rune_at s div 4096 mod 64 = y"
    "rune_at s div 262144 = x"
    using div_mult2_eq [of "rune_at s" 64 64] div_mult2_eq [of "rune_at s" 4096 64] by simp_all
  then show ?thesis using lim abcd unfolding four(2) encode_rune_def by (simp add: four(1))
qed

definition prepend :: "bytes \<Rightarrow> (bytes \<times> bytes) option \<Rightarrow> (bytes \<times> bytes) option" where
  "prepend xs r = map_option (\<lambda>(v, rest). (xs @ v, rest)) r"

lemma prepend_Some [simp]: "prepend xs (Some (v, rest)) = Some (xs @ v, rest)"
  by (simp add: prepend_def)

lemma prepend_simps [simp]: "prepend [] r = r" "prepend xs (prepend ys r) = prepend (xs @ ys) r"
  by (cases r; simp add: prepend_def split_def)+

definition plain :: "char \<Rightarrow> bool" where
  "plain c \<longleftrightarrow> c \<noteq> CHR 0x22 \<and> c \<noteq> CHR 0x0A \<and> c \<noteq> CHR 0x5C"

lemma read_literal_plain: "list_all plain xs \<Longrightarrow> read_literal (xs @ t) = prepend xs (read_literal t)"
proof (induction xs)
  case (Cons c xs)
  then have "read_literal (c # xs @ t) = prepend [c] (read_literal (xs @ t))"
    by (subst read_literal.simps) (simp add: plain_def prepend_def)
  then show ?case using Cons by simp
qed simp

lemma read_literal_quote: "read_literal (CHR 0x22 # t) = Some ([], t)"
  by (subst read_literal.simps) simp

lemma read_literal_simple:
  "simple_escape e = Some d \<Longrightarrow> read_literal (CHR 0x5C # e # t) = prepend [d] (read_literal t)"
  by (subst read_literal.simps) (simp add: prepend_def)

lemma read_literal_numeric:
  assumes "(e, k) \<in> {(CHR ''x'', 2), (CHR ''u'', 4), (CHR ''U'', 8)}" and "n < 16 ^ k"
  shows "read_literal (CHR 0x5C # e # hex_digits k n @ t)
    = prepend (if k = 2 then [char_of n] else encode_rune n) (read_literal t)"
proof -
  have "simple_escape e = None" "escape_digits e = Some k"
    using assms(1) by (auto simp: simple_escape_def escape_digits_def)
  then show ?thesis
    using assms(2) hex_digits_is_hex [of k n] hex_number_digits [of n k]
    by (cases "k = 2") (subst read_literal.simps, simp add: prepend_def)+
qed

lemma byte_val_bound: "byte_val c < 256"
  by (metis nat_of_char_less_256)

lemma byte_val_char_of [simp]: "n < 256 \<Longrightarrow> byte_val (char_of n) = n"
  by simp

lemma plain_iff: "plain c \<longleftrightarrow> byte_val c \<notin> {34, 10, 92}"
proof -
  have "c = d \<longleftrightarrow> byte_val c = byte_val d" for d :: char by simp
  from this [of "CHR 0x22"] this [of "CHR 0x0A"] this [of "CHR 0x5C"] show ?thesis
    unfolding plain_def by simp
qed

lemma high_plain: "128 \<le> n \<Longrightarrow> n < 256 \<Longrightarrow> plain (char_of (n :: nat))"
  by (simp add: plain_iff)

lemma encode_rune_plain:
  assumes "r \<notin> {34, 10, 92}" and "r < 1114112"
  shows "list_all plain (encode_rune r)"
proof (cases "r < 128")
  case True
  then show ?thesis using assms(1) by (simp add: encode_rune_def plain_iff)
next
  case False
  have "r div 262144 < 5" "r < 65536 \<Longrightarrow> r div 4096 < 16" "r < 2048 \<Longrightarrow> r div 64 < 32"
    using assms(2) by (simp_all add: less_mult_imp_div_less)
  then show ?thesis using False by (auto simp: encode_rune_def intro!: high_plain)
qed

lemma simple_escapes:
  "simple_escape (CHR ''a'') = Some (char_of (7 :: nat))" "simple_escape (CHR ''b'') = Some (char_of (8 :: nat))"
  "simple_escape (CHR ''f'') = Some (char_of (12 :: nat))" "simple_escape (CHR ''n'') = Some (char_of (10 :: nat))"
  "simple_escape (CHR ''r'') = Some (char_of (13 :: nat))" "simple_escape (CHR ''t'') = Some (char_of (9 :: nat))"
  "simple_escape (CHR ''v'') = Some (char_of (11 :: nat))"
  by code_simp+

lemma char_of_quote: "char_of (34 :: nat) = CHR 0x22" "char_of (92 :: nat) = CHR 0x5C"
  by code_simp+

lemma escape_rune_simple:
  assumes "r \<in> {7, 8, 12, 10, 13, 9, 11}"
  shows "\<exists>e. escape_rune printable r = [CHR 0x5C, e] \<and> simple_escape e = Some (char_of r)"
  using assms by (elim insertE emptyE) (simp_all add: escape_rune_def simple_escapes)

lemma read_escape_rune:
  assumes "r < 1114112"
  shows "read_literal (escape_rune printable r @ t) = prepend (encode_rune r) (read_literal t)"
proof (cases "r = 34 \<or> r = 92")
  case True
  then have "escape_rune printable r = [CHR 0x5C, char_of r]" "encode_rune r = [char_of r]"
    "simple_escape (char_of r) = Some (char_of r)"
    by (auto simp: escape_rune_def encode_rune_def char_of_quote simple_escape_def)
  then show ?thesis by (simp add: read_literal_simple)
next
  case nq: False
  show ?thesis
  proof (cases "32 \<le> r \<and> r < 127 \<or> 128 \<le> r \<and> printable r")
    case True
    then have "escape_rune printable r = encode_rune r" using nq by (simp add: escape_rune_def)
    moreover have "list_all plain (encode_rune r)" using True nq assms by (intro encode_rune_plain) auto
    ultimately show ?thesis by (simp add: read_literal_plain)
  next
    case np: False
    show ?thesis
    proof (cases "r \<in> {7, 8, 12, 10, 13, 9, 11}")
      case True
      moreover from this have "r < 128" by (elim insertE emptyE) simp_all
      ultimately show ?thesis
        using escape_rune_simple [OF True, of printable] by (auto simp: encode_rune_def read_literal_simple)
    next
      case ns: False
      have e: "escape_rune printable r = (if r < 32 \<or> r = 127 then [CHR 0x5C, CHR ''x''] @ hex_digits 2 r
          else if r < 65536 then [CHR 0x5C, CHR ''u''] @ hex_digits 4 r else [CHR 0x5C, CHR ''U''] @ hex_digits 8 r)"
        unfolding escape_rune_def using nq np ns by (simp only: if_False) simp
      show ?thesis
      proof (cases "r < 32 \<or> r = 127")
        case True
        then have "r < 128" by auto
        then show ?thesis
          using e True read_literal_numeric [of "CHR ''x''" 2 r t] by (simp add: encode_rune_def)
      next
        case False
        then show ?thesis
          using e assms read_literal_numeric [of "CHR ''u''" 4 r t] read_literal_numeric [of "CHR ''U''" 8 r t]
          by (cases "r < 65536") simp_all
      qed
    qed
  qed
qed

lemma read_quote_body: "read_literal (quote_body printable s @ CHR 0x22 # rest) = Some (s, rest)"
proof (induction printable s rule: quote_body.induct)
  case (1 printable s)
  note body = quote_body.simps [of printable s]
  consider (nil) "s = []" | (bad) "s \<noteq> []" "utf8_width s = 0" | (rune) "s \<noteq> []" "utf8_width s \<noteq> 0" by blast
  then show ?case
  proof cases
    case nil
    then show ?thesis using body by (simp add: read_literal_quote)
  next
    case bad
    then have "read_literal (quote_body printable s @ CHR 0x22 # rest)
        = prepend [char_of (byte_val (hd s))] (read_literal (quote_body printable (tl s) @ CHR 0x22 # rest))"
      using body read_literal_numeric [of "CHR ''x''" 2 "byte_val (hd s)"] byte_val_bound [of "hd s"] by simp
    then show ?thesis using 1(1) [OF bad] bad(1) by simp
  next
    case rune
    have "rune_at s < 1114112" "encode_rune (rune_at s) = take (utf8_width s) s" using encode_rune_at [OF rune(2)] by simp_all
    then show ?thesis using 1(2) [OF rune] rune body by (simp add: read_escape_rune)
  qed
qed

text \<open>A quoted string is read back, up to the end of the quotation and no further.\<close>

lemma quoted_prefix_quote: "quoted_prefix (strconv_quote printable s @ rest) = Some (s, rest)"
  by (simp add: quoted_prefix_def strconv_quote_def read_quote_body)

section \<open>Base64\<close>

lemma base64_value_char [simp]: "d < 64 \<Longrightarrow> base64_value (base64_char d) = Some d"
proof -
  have "list_all (\<lambda>d. base64_value (base64_char d) = Some d) [0..<64]" by code_simp
  then show "d < 64 \<Longrightarrow> ?thesis" by (simp add: list_all_iff)
qed

lemma base64_char_no_newline: "d < 64 \<Longrightarrow> base64_char d \<noteq> CHR 0x0A \<and> base64_char d \<noteq> CHR 0x0D"
proof -
  have "list_all (\<lambda>d. base64_char d \<noteq> CHR 0x0A \<and> base64_char d \<noteq> CHR 0x0D) [0..<64]" by code_simp
  then show "d < 64 \<Longrightarrow> ?thesis" by (simp add: list_all_iff)
qed

text \<open>The values an encoding consists of.\<close>

fun base64_values :: "bytes \<Rightarrow> nat list" where
  "base64_values [] = []"
| "base64_values [a] = [byte_val a div 4, byte_val a mod 4 * 16]"
| "base64_values [a, b] = [byte_val a div 4, byte_val a mod 4 * 16 + byte_val b div 16, byte_val b mod 16 * 4]"
| "base64_values (a # b # c # s) =
     byte_val a div 4 # (byte_val a mod 4 * 16 + byte_val b div 16)
     # (byte_val b mod 16 * 4 + byte_val c div 64) # byte_val c mod 64 # base64_values s"

lemma base64_encode_values: "base64_encode s = map base64_char (base64_values s)"
  by (induction s rule: base64_encode.induct) simp_all

lemma base64_pieces:
  shows "byte_val a div 4 < 64" "byte_val a mod 4 * 16 + byte_val b div 16 < 64" "byte_val a mod 4 * 16 < 64"
    "byte_val b mod 16 * 4 + byte_val c div 64 < 64" "byte_val b mod 16 * 4 < 64" "byte_val c mod 64 < 64"
proof -
  have "byte_val a < 256" "byte_val b < 256" "byte_val c < 256" by (rule byte_val_bound)+
  moreover have "byte_val a mod 4 < 4" "byte_val b mod 16 < 16" by simp_all
  ultimately show "byte_val a div 4 < 64" "byte_val a mod 4 * 16 + byte_val b div 16 < 64" "byte_val a mod 4 * 16 < 64"
    "byte_val b mod 16 * 4 + byte_val c div 64 < 64" "byte_val b mod 16 * 4 < 64" "byte_val c mod 64 < 64"
    by linarith+
qed

lemma base64_values_bound: "list_all (\<lambda>d. d < 64) (base64_values s)"
  by (induction s rule: base64_values.induct) (simp_all add: base64_pieces)

text \<open>Two neighbouring bytes, split and put together again.\<close>

lemma base64_join:
  fixes a b :: nat
  assumes "b < 256"
  shows "a div 4 * 4 + (a mod 4 * 16 + b div 16) div 16 = a" and "(a mod 4 * 16 + b div 16) mod 16 = b div 16"
    and "b div 16 * 16 + (b mod 16 * 4) div 4 = b"
proof -
  have "b div 16 < 16" using assms by simp
  then have "(a mod 4 * 16 + b div 16) div 16 = a mod 4" "(a mod 4 * 16 + b div 16) mod 16 = b div 16" by simp_all
  then show "a div 4 * 4 + (a mod 4 * 16 + b div 16) div 16 = a" "(a mod 4 * 16 + b div 16) mod 16 = b div 16"
    by simp_all
  show "b div 16 * 16 + (b mod 16 * 4) div 4 = b" by simp
qed

lemma base64_join_last:
  fixes b c :: nat
  assumes "c < 256"
  shows "b div 16 * 16 + (b mod 16 * 4 + c div 64) div 4 = b" and "(b mod 16 * 4 + c div 64) mod 4 * 64 + c mod 64 = c"
proof -
  have "c div 64 < 4" using assms by simp
  then have "(b mod 16 * 4 + c div 64) div 4 = b mod 16" "(b mod 16 * 4 + c div 64) mod 4 = c div 64" by simp_all
  then show "b div 16 * 16 + (b mod 16 * 4 + c div 64) div 4 = b" "(b mod 16 * 4 + c div 64) mod 4 * 64 + c mod 64 = c"
    by simp_all
qed

lemma base64_groups_values: "base64_groups (base64_values s) = Some s"
proof (induction s rule: base64_values.induct)
  case (2 a)
  then show ?case using base64_join(1) [of 0 "byte_val a"] by simp
next
  case (3 a b)
  then show ?case
    by (simp only: base64_values.simps base64_groups.simps base64_join(1,2) [OF byte_val_bound]
        base64_join(3) [OF byte_val_bound] char_of_char)
next
  case (4 a b c s)
  then show ?case
    by (simp only: base64_values.simps base64_groups.simps base64_join(1,2) [OF byte_val_bound]
        base64_join_last [OF byte_val_bound] char_of_char option.map)
qed simp

lemma base64_roundtrip: "base64_decode (base64_encode s) = Some s"
proof -
  let ?e = "map base64_char (base64_values s)"
  have b: "list_all (\<lambda>d. d < 64) (base64_values s)" by (rule base64_values_bound)
  then have "filter (\<lambda>c. c \<noteq> CHR 0x0A \<and> c \<noteq> CHR 0x0D) ?e = ?e"
    by (auto simp: list_all_iff base64_char_no_newline intro!: filter_True)
  moreover have "list_all (\<lambda>c. base64_value c \<noteq> None) ?e" using b by (simp add: list_all_iff)
  moreover have "map (\<lambda>c. the (base64_value c)) ?e = base64_values s"
    using b by (simp add: list_all_iff map_idI)
  ultimately show ?thesis
    by (simp only: base64_decode_def base64_encode_values Let_def if_True base64_groups_values)
qed

end
