(* ===== verification/Query_Builder.thy ===== *)
theory Query_Builder
  imports Storage Go_Quote
begin

text \<open>
  \<^verbatim>\<open>backend/internal/query/builder.go\<close>: the checks on a query, its translation to LogsQL, and
  cursors.  Shown are that the text of every portable query reads back as exactly its time
  range, tenant, text, filters and cursor, so that no value can add or change a clause, that
  a native query is under no such restriction, and that cursors decode to what they hold.
\<close>

section \<open>Definitions\<close>

datatype query_error =
    Start_before_end
  | Range_exceeds
  | Limit_range
  | Query_too_large
  | Invalid_filter
  | Invalid_cursor

definition allowed_ops :: "bytes list" where
  "allowed_ops = [''eq'', ''neq'', ''contains'', ''starts_with'', ''exists'', ''gt'', ''gte'', ''lt'', ''lte'']"

text \<open>
  \<^verbatim>\<open>ValidField\<close>.  Every rune above ASCII, and \<^verbatim>\<open>RuneError\<close> for a malformed byte, is refused, so the
  check is one on bytes.
\<close>

definition field_char :: "char \<Rightarrow> bool" where
  "field_char c \<longleftrightarrow> c = CHR ''_'' \<or> c = CHR ''.'' \<or> is_lower c \<or> is_upper c \<or> is_digit c"

definition valid_field :: "bytes \<Rightarrow> bool" where
  "valid_field v \<longleftrightarrow> v \<noteq> [] \<and> length v \<le> 128 \<and> list_all field_char v"

text \<open>\<^verbatim>\<open>Validate\<close>, which fills in the default limit.\<close>

definition validate :: "log_query \<Rightarrow> query_error + log_query" where
  "validate q =
     (if lq_start q = zero_time \<or> lq_end q = zero_time \<or> \<not> lq_start q < lq_end q then Inl Start_before_end
      else if 31 * 24 * hour < time_sub (lq_end q) (lq_start q) then Inl Range_exceeds
      else
        (let q' = (if lq_limit q = 0 then q\<lparr>lq_limit := 100\<rparr> else q) in
         if lq_limit q' < 1 \<or> 1000 < lq_limit q' then Inl Limit_range
         else if 4096 < length (lq_text q') \<or> 8192 < length (lq_native q') \<or> 32 < length (lq_filters q')
         then Inl Query_too_large
         else if list_ex (\<lambda>f. \<not> valid_field (ft_field f) \<or> ft_op f \<notin> set allowed_ops) (lq_filters q')
         then Inl Invalid_filter
         else Inr q'))"

text \<open>
  \<^verbatim>\<open>fmt.Sprint\<close> of a decoded JSON value.  Numbers are \<^verbatim>\<open>float64\<close>; \<open>number\<close> gives the text Go prints
  for the one a JSON number is decoded to.  Maps are printed in the order of their keys.
\<close>

fun bytes_less :: "bytes \<Rightarrow> bytes \<Rightarrow> bool" where
  "bytes_less s [] \<longleftrightarrow> False"
| "bytes_less [] (b # t) \<longleftrightarrow> True"
| "bytes_less (a # s) (b # t) \<longleftrightarrow> byte_val a < byte_val b \<or> a = b \<and> bytes_less s t"

fun insert_key :: "bytes \<Rightarrow> 'a \<Rightarrow> (bytes \<times> 'a) list \<Rightarrow> (bytes \<times> 'a) list" where
  "insert_key k v [] = [(k, v)]"
| "insert_key k v ((l, w) # r) =
     (if k = l then (k, v) # r else if bytes_less k l then (k, v) # (l, w) # r else (l, w) # insert_key k v r)"

fun join :: "bytes \<Rightarrow> bytes list \<Rightarrow> bytes" where
  "join sep [] = []"
| "join sep [s] = s"
| "join sep (s # t # r) = s @ sep @ join sep (t # r)"

fun sprint :: "(bytes \<Rightarrow> bytes) \<Rightarrow> any_value \<Rightarrow> bytes" where
  "sprint number (AStr s) = s"
| "sprint number (ANum s) = number s"
| "sprint number (ABool b) = (if b then ''true'' else ''false'')"
| "sprint number ANull = ''<nil>''"
| "sprint number (AArr vs) = ''['' @ join '' '' (map (sprint number) vs) @ '']''"
| "sprint number (AObj kvs) =
     ''map['' @ join '' '' (map (\<lambda>(k, s). k @ '':'' @ s)
        (fold (\<lambda>(k, s) m. insert_key k s m) (map (\<lambda>(k, v). (k, sprint number v)) kvs) [])) @ '']''"

definition quote :: "(nat \<Rightarrow> bool) \<Rightarrow> bytes \<Rightarrow> bytes" where
  "quote printable v = strconv_quote printable (filter (\<lambda>c. c \<noteq> CHR 0x00) v)"

definition cursor :: "bytes \<Rightarrow> bytes" where
  "cursor t = base64_encode t"

definition filter_text :: "(nat \<Rightarrow> bool) \<Rightarrow> (bytes \<Rightarrow> bytes) \<Rightarrow> filter_spec \<Rightarrow> bytes" where
  "filter_text printable number f =
     (let field = ft_field f; val = quote printable (sprint number (ft_value f)) in
      if ft_op f = ''eq'' then '' '' @ field @ '':'' @ val
      else if ft_op f = ''neq'' then '' NOT '' @ field @ '':'' @ val
      else if ft_op f = ''contains'' then '' '' @ field @ '':~'' @ val
      else if ft_op f = ''starts_with'' then '' '' @ field @ '':^'' @ val
      else if ft_op f = ''exists'' then '' '' @ field @ '':*''
      else if ft_op f \<in> {''gt'', ''gte'', ''lt'', ''lte''} then '' '' @ field @ ft_op f @ val
      else [])"

definition logs_ql :: "(nat \<Rightarrow> bool) \<Rightarrow> (bytes \<Rightarrow> bytes) \<Rightarrow> log_query \<Rightarrow> query_error + bytes" where
  "logs_ql printable number q0 =
     (case validate q0 of
        Inl e \<Rightarrow> Inl e
      | Inr q \<Rightarrow>
       let base = ''_time:['' @ format_rfc3339 (lq_start q) @ '', '' @ format_rfc3339 (lq_end q) @ ''] tenant_id:''
                    @ quote printable (lq_tenant_id q)
                    @ (if lq_native q \<noteq> [] then '' '' @ lq_native q
                       else if lq_text q \<noteq> [] then '' '' @ quote printable (lq_text q) else [])
                    @ concat (map (filter_text printable number) (lq_filters q))
       in if lq_cursor q = [] then Inr base
          else (case base64_decode (lq_cursor q) of
                  None \<Rightarrow> Inl Invalid_cursor
                | Some raw \<Rightarrow> Inr (base @ '' _time:<'' @ quote printable raw)))"

section \<open>Reading a query back\<close>

text \<open>
  The clauses of a query, and a reader for the fragment of LogsQL the builder writes: words
  of field characters, quoted phrases, and \<open>field:condition\<close> with a quoted value, a range in
  brackets or a star, in a row.
\<close>

datatype condition = Is bytes | Regexp bytes | Begins bytes | Present | Below bytes | Within bytes

datatype clause = Word bytes | Phrase bytes | Field bytes condition | Not_field bytes condition

definition with_value :: "(bytes \<Rightarrow> condition) \<Rightarrow> bytes \<Rightarrow> (condition \<times> bytes) option" where
  "with_value c s = map_option (\<lambda>(v, rest). (c v, rest)) (quoted_prefix s)"

definition read_condition :: "bytes \<Rightarrow> (condition \<times> bytes) option" where
  "read_condition s =
     (case s of
        [] \<Rightarrow> None
      | c # t \<Rightarrow>
          if c = CHR ''['' then
            (case index_byte (CHR '']'') t of
               None \<Rightarrow> None
             | Some i \<Rightarrow> Some (Within (take i t), drop (Suc i) t))
          else if c = CHR ''*'' then Some (Present, t)
          else if c = CHR ''~'' then with_value Regexp t
          else if c = CHR ''^'' then with_value Begins t
          else if c = CHR ''<'' then with_value Below t
          else with_value Is s)"

definition read_word :: "(bytes \<Rightarrow> condition \<Rightarrow> clause) \<Rightarrow> bytes \<Rightarrow> (clause \<times> bytes) option" where
  "read_word mk s =
     (let w = takeWhile field_char s; t = dropWhile field_char s in
      if w = [] then None
      else if t \<noteq> [] \<and> hd t = CHR '':'' then map_option (\<lambda>(c, rest). (mk w c, rest)) (read_condition (tl t))
      else Some (Word w, t))"

definition read_clause :: "bytes \<Rightarrow> (clause \<times> bytes) option" where
  "read_clause s =
     (if has_prefix s [CHR 0x22] then map_option (\<lambda>(v, rest). (Phrase v, rest)) (quoted_prefix s)
      else if has_prefix s ''NOT '' then read_word Not_field (drop 4 s)
      else read_word Field s)"

function read_clauses :: "bytes \<Rightarrow> clause list option" where
  "read_clauses s =
     (if s = [] then Some []
      else
        (let t = (if hd s = CHR '' '' then tl s else s) in
         case read_clause t of
           None \<Rightarrow> None
         | Some (c, rest) \<Rightarrow> if length rest < length s then map_option ((#) c) (read_clauses rest) else None))"
  by pat_completeness auto
termination
  by (relation "measure length") auto

declare read_clauses.simps [simp del]

text \<open>The clauses a portable query means; NUL bytes are removed from values.\<close>

definition clean :: "bytes \<Rightarrow> bytes" where
  "clean v = filter (\<lambda>c. c \<noteq> CHR 0x00) v"

definition filter_clauses :: "(bytes \<Rightarrow> bytes) \<Rightarrow> filter_spec \<Rightarrow> clause list" where
  "filter_clauses number f =
     (let field = ft_field f; val = clean (sprint number (ft_value f)) in
      if ft_op f = ''eq'' then [Field field (Is val)]
      else if ft_op f = ''neq'' then [Not_field field (Is val)]
      else if ft_op f = ''contains'' then [Field field (Regexp val)]
      else if ft_op f = ''starts_with'' then [Field field (Begins val)]
      else if ft_op f = ''exists'' then [Field field Present]
      else [Word (field @ ft_op f), Phrase val])"

definition query_clauses :: "(bytes \<Rightarrow> bytes) \<Rightarrow> log_query \<Rightarrow> clause list" where
  "query_clauses number q =
     [Field ''_time'' (Within (format_rfc3339 (lq_start q) @ '', '' @ format_rfc3339 (lq_end q))),
      Field ''tenant_id'' (Is (clean (lq_tenant_id q)))]
     @ (if lq_text q = [] then [] else [Phrase (clean (lq_text q))])
     @ concat (map (filter_clauses number) (lq_filters q))
     @ (if lq_cursor q = [] then [] else [Field ''_time'' (Below (clean (the (base64_decode (lq_cursor q)))))])"

section \<open>Lemmas\<close>

lemma format_rfc3339_bytes:
  assumes "c \<in> set (format_rfc3339 t)"
  shows "is_digit c \<or> c \<in> set ''-T:.Z''"
proof -
  let ?x = "civil_of t"
  have nonneg: "0 \<le> dt_month ?x" "0 \<le> dt_day ?x" "0 \<le> dt_hour ?x" "0 \<le> dt_min ?x" "0 \<le> dt_sec ?x" "0 \<le> dt_nsec ?x"
    using civil_of_fields [of t] by (auto simp: valid_day_def)
  have digits: "0 \<le> n \<Longrightarrow> d \<in> set (pad_digits w n) \<Longrightarrow> is_digit d" for n w d
    using pad_digits_is_digit [of n w] by (simp add: list_all_iff)
  have "set (trim_right (pad_digits 9 (dt_nsec ?x)) ''0'') \<subseteq> set (pad_digits 9 (dt_nsec ?x))"
    using trim_right_prefix [of "pad_digits 9 (dt_nsec ?x)" "''0''"] by (metis Un_upper1 set_append)
  then have "d \<in> set (trim_right (pad_digits 9 (dt_nsec ?x)) ''0'') \<Longrightarrow> is_digit d" for d
    using digits [OF nonneg(6), of d 9] by blast
  then have fraction: "d \<in> set (format_fraction (dt_nsec ?x)) \<Longrightarrow> is_digit d \<or> d = CHR ''.''" for d
    by (auto simp: format_fraction_def split: if_splits)
  have year: "d \<in> set (format_year (dt_year ?x)) \<Longrightarrow> is_digit d \<or> d = CHR ''-''" for d
    using digits [of "dt_year ?x" d 4] digits [of "- dt_year ?x" d 4] by (auto simp: format_year_def split: if_splits)
  show ?thesis
    using assms digits [OF nonneg(1), of c 2] digits [OF nonneg(2), of c 2] digits [OF nonneg(3), of c 2]
      digits [OF nonneg(4), of c 2] digits [OF nonneg(5), of c 2] fraction [of c] year [of c]
    by (auto simp: format_rfc3339_def format_civil_def)
qed

lemma format_rfc3339_no_bracket: "CHR '']'' \<notin> set (format_rfc3339 t)"
  using format_rfc3339_bytes [of "CHR '']''" t] by (auto simp: is_digit_def)

lemma not_field_char [simp]:
  "\<not> field_char (CHR '':'')" "\<not> field_char (CHR 0x22)" "\<not> field_char (CHR '' '')"
  by code_simp+

lemma field_char_letters: "list_all field_char ''_time''" "list_all field_char ''tenant_id''"
  by code_simp+

lemma take_word:
  assumes "list_all field_char w" and "\<not> field_char c"
  shows "takeWhile field_char (w @ c # t) = w" "dropWhile field_char (w @ c # t) = c # t"
  using assms by (induction w) simp_all

lemma read_word_field:
  assumes "w \<noteq> []" and "list_all field_char w"
  shows "read_word mk (w @ CHR '':'' # s) = map_option (\<lambda>(c, rest). (mk w c, rest)) (read_condition s)"
  using assms by (simp add: read_word_def take_word)

text \<open>A word is neither a phrase nor the start of a negation.\<close>

lemma read_clause_word:
  assumes "w \<noteq> []" and "list_all field_char w" and "\<not> field_char c" and "c \<noteq> CHR '' ''"
  shows "read_clause (w @ c # s) = read_word Field (w @ c # s)"
proof -
  have "\<not> has_prefix (w @ c # s) [CHR 0x22]" using assms(1,2) by (cases w) (auto simp: has_prefix_def)
  moreover have "\<not> has_prefix (w @ c # s) ''NOT ''"
  proof
    assume "has_prefix (w @ c # s) ''NOT ''"
    then obtain u where "w @ c # s = ''NOT'' @ CHR '' '' # u" by (auto simp: has_prefix_iff)
    then have "dropWhile field_char (w @ c # s) = dropWhile field_char (''NOT'' @ CHR '' '' # u)" by simp
    moreover have "list_all field_char ''NOT''" by code_simp
    ultimately have "c # s = CHR '' '' # u" using assms(2,3) take_word(2) by (metis not_field_char(3))
    then show False using assms(4) by simp
  qed
  ultimately show ?thesis by (simp add: read_clause_def)
qed

lemma read_clauses_space:
  assumes "read_clause t = Some (c, rest)" and "length rest < length t"
  shows "read_clauses (CHR '' '' # t) = map_option ((#) c) (read_clauses rest)"
  using assms by (subst read_clauses.simps) simp

lemma read_clauses_direct:
  assumes "read_clause t = Some (c, rest)" and "length rest < length t" and "hd t \<noteq> CHR '' ''"
  shows "read_clauses t = map_option ((#) c) (read_clauses rest)"
  using assms by (cases t) (subst read_clauses.simps, simp)+

lemma quoted_prefix_clean [simp]: "quoted_prefix (quote printable v @ rest) = Some (clean v, rest)"
  by (simp add: quote_def clean_def quoted_prefix_quote)

lemma quote_Cons: "\<exists>t. quote printable v = CHR 0x22 # t"
  by (simp add: quote_def strconv_quote_def)

lemma read_condition_quote [simp]: "read_condition (quote printable v @ rest) = Some (Is (clean v), rest)"
proof -
  obtain t where t: "quote printable v = CHR 0x22 # t" using quote_Cons by blast
  then have "read_condition (quote printable v @ rest) = with_value Is (quote printable v @ rest)"
    by (simp add: read_condition_def)
  then show ?thesis by (simp only: with_value_def quoted_prefix_clean) simp
qed

lemma read_condition_simps [simp]:
  "read_condition (CHR ''~'' # quote printable v @ rest) = Some (Regexp (clean v), rest)"
  "read_condition (CHR ''^'' # quote printable v @ rest) = Some (Begins (clean v), rest)"
  "read_condition (CHR ''<'' # quote printable v @ rest) = Some (Below (clean v), rest)"
  "read_condition (CHR ''*'' # rest) = Some (Present, rest)"
  "CHR '']'' \<notin> set r \<Longrightarrow> read_condition (CHR ''['' # r @ CHR '']'' # rest) = Some (Within r, rest)"
  by (simp_all add: read_condition_def with_value_def index_byte_append)

text \<open>A clause in front of others.\<close>

lemma read_clauses_field:
  assumes "w \<noteq> []" and "list_all field_char w" and "read_condition (s @ rest) = Some (c, rest)"
  shows "read_clauses (CHR '' '' # w @ CHR '':'' # s @ rest) = map_option ((#) (Field w c)) (read_clauses rest)"
    and "read_clauses (w @ CHR '':'' # s @ rest) = map_option ((#) (Field w c)) (read_clauses rest)"
proof -
  have r: "read_clause (w @ CHR '':'' # s @ rest) = Some (Field w c, rest)"
    using assms by (simp add: read_clause_word read_word_field)
  then show "read_clauses (CHR '' '' # w @ CHR '':'' # s @ rest) = map_option ((#) (Field w c)) (read_clauses rest)"
    by (rule read_clauses_space) simp
  show "read_clauses (w @ CHR '':'' # s @ rest) = map_option ((#) (Field w c)) (read_clauses rest)"
    using r by (rule read_clauses_direct) (use assms(1,2) in \<open>cases w; auto\<close>)+
qed

lemma read_clauses_not:
  assumes "w \<noteq> []" and "list_all field_char w" and "read_condition (s @ rest) = Some (c, rest)"
  shows "read_clauses ('' NOT '' @ w @ CHR '':'' # s @ rest) = map_option ((#) (Not_field w c)) (read_clauses rest)"
proof -
  have "read_clause (''NOT '' @ w @ CHR '':'' # s @ rest) = Some (Not_field w c, rest)"
    using assms read_word_field [OF assms(1,2), of Not_field] by (simp add: read_clause_def has_prefix_def)
  from read_clauses_space [OF this] show ?thesis by simp
qed

lemma read_clauses_phrase:
  "read_clauses (CHR '' '' # quote printable v @ rest) = map_option ((#) (Phrase (clean v))) (read_clauses rest)"
  "read_clauses (quote printable v @ rest) = map_option ((#) (Phrase (clean v))) (read_clauses rest)"
proof -
  obtain t where t: "quote printable v = CHR 0x22 # t" using quote_Cons by blast
  have r: "read_clause (quote printable v @ rest) = Some (Phrase (clean v), rest)"
    unfolding read_clause_def quoted_prefix_clean by (simp add: t has_prefix_def)
  have "length rest < length (quote printable v @ rest)" by (simp add: t)
  note r = r this
  show "read_clauses (CHR '' '' # quote printable v @ rest) = map_option ((#) (Phrase (clean v))) (read_clauses rest)"
    by (rule read_clauses_space [OF r])
  show "read_clauses (quote printable v @ rest) = map_option ((#) (Phrase (clean v))) (read_clauses rest)"
    by (rule read_clauses_direct [OF r]) (simp add: t)
qed


lemma append_single: "(@) [x] = (#) x"
  by (rule ext) simp

lemma read_clauses_filter:
  assumes "valid_field (ft_field f)" and "ft_op f \<in> set allowed_ops"
  shows "read_clauses (filter_text printable number f @ rest)
    = map_option ((@) (filter_clauses number f)) (read_clauses rest)"
proof -
  have w: "ft_field f \<noteq> []" "list_all field_char (ft_field f)" using assms(1) by (simp_all add: valid_field_def)
  let ?v = "sprint number (ft_value f)"
  note field = read_clauses_field(1) [OF w, of _ rest] and negated = read_clauses_not [OF w, of _ rest]
  show ?thesis
  proof (cases "ft_op f \<in> {''gt'', ''gte'', ''lt'', ''lte''}")
    case True
    have ops: "list_all field_char (ft_op f)" using True by (elim insertE emptyE) (simp, code_simp)+
    obtain t where t: "quote printable ?v = CHR 0x22 # t" using quote_Cons by blast
    have shape: "filter_text printable number f = CHR '' '' # (ft_field f @ ft_op f) @ quote printable ?v"
      "filter_clauses number f = [Word (ft_field f @ ft_op f), Phrase (clean ?v)]"
      using True by (auto simp: filter_text_def filter_clauses_def)
    have "read_clause ((ft_field f @ ft_op f) @ CHR 0x22 # t @ rest) = Some (Word (ft_field f @ ft_op f), CHR 0x22 # t @ rest)"
      using w ops by (subst read_clause_word) (simp_all add: read_word_def take_word [where w = "ft_field f @ ft_op f", simplified])
    then have "read_clause ((ft_field f @ ft_op f) @ quote printable ?v @ rest)
        = Some (Word (ft_field f @ ft_op f), quote printable ?v @ rest)"
      by (simp add: t)
    from read_clauses_space [OF this] w(1) show ?thesis
      by (cases "read_clauses rest") (simp_all add: shape read_clauses_phrase)
  next
    case False
    then have "ft_op f \<in> {''eq'', ''neq'', ''contains'', ''starts_with'', ''exists''}"
      using assms(2) by (auto simp: allowed_ops_def)
    then show ?thesis
      using field [of "quote printable ?v"] field [of "CHR ''~'' # quote printable ?v"] field [of "CHR ''^'' # quote printable ?v"]
        field [of "''*''"] negated [of "quote printable ?v"]
      by (elim insertE emptyE) (simp_all add: filter_text_def filter_clauses_def append_single)
  qed
qed

lemma read_clauses_filters:
  assumes "list_all (\<lambda>f. valid_field (ft_field f) \<and> ft_op f \<in> set allowed_ops) fs"
  shows "read_clauses (concat (map (filter_text printable number) fs) @ rest)
    = map_option ((@) (concat (map (filter_clauses number) fs))) (read_clauses rest)"
  using assms
proof (induction fs)
  case Nil
  show ?case by (cases "read_clauses rest") simp_all
next
  case (Cons f fs)
  then show ?case
    using read_clauses_filter [of f printable number "concat (map (filter_text printable number) fs) @ rest"]
    by (cases "read_clauses rest") simp_all
qed

lemma read_clauses_Nil [simp]: "read_clauses [] = Some []"
  by (subst read_clauses.simps) simp

lemma validate_Inr:
  assumes "validate q = Inr q'"
  shows "q' = (if lq_limit q = 0 then q\<lparr>lq_limit := 100\<rparr> else q)"
    and "1 \<le> lq_limit q'" and "lq_limit q' \<le> 1000" and "length (lq_text q') \<le> 4096" and "length (lq_native q') \<le> 8192"
    and "length (lq_filters q') \<le> 32" and "lq_start q < lq_end q"
    and "time_sub (lq_end q) (lq_start q) \<le> 31 * 24 * hour"
    and "list_all (\<lambda>f. valid_field (ft_field f) \<and> ft_op f \<in> set allowed_ops) (lq_filters q')"
  using assms by (auto simp: validate_def Let_def list_all_iff list_ex_iff split: if_splits)

lemma logs_ql_clauses:
  assumes "logs_ql printable number q = Inr s" and "lq_native q = []"
  shows "read_clauses s = Some (query_clauses number q)"
proof -
  obtain q' where v: "validate q = Inr q'"
    using assms(1) by (auto simp: logs_ql_def split: sum.splits)
  note q' = validate_Inr(1) [OF v] and ok = validate_Inr(9) [OF v]
  define range where "range = format_rfc3339 (lq_start q) @ '', '' @ format_rfc3339 (lq_end q)"
  define phr where "phr = (if lq_text q = [] then [] else CHR '' '' # quote printable (lq_text q))"
  define flt where "flt = concat (map (filter_text printable number) (lq_filters q))"
  define cur where "cur = (if lq_cursor q = [] then [] else '' _time:<'' @ quote printable (the (base64_decode (lq_cursor q))))"
  define curc where "curc = (if lq_cursor q = [] then [] else [Field ''_time'' (Below (clean (the (base64_decode (lq_cursor q)))))])"
  have s: "s = ''_time'' @ CHR '':'' # (CHR ''['' # range @ '']'') @ CHR '' '' # ''tenant_id'' @ CHR '':''
      # quote printable (lq_tenant_id q) @ phr @ flt @ cur"
    using assms v q'
    by (auto simp: logs_ql_def Let_def range_def phr_def flt_def cur_def split: option.splits if_splits)
  have br: "CHR '']'' \<notin> set range" by (simp add: range_def format_rfc3339_no_bracket)
  have cur: "read_clauses cur = Some curc"
  proof -
    let ?raw = "the (base64_decode (lq_cursor q))"
    have "read_condition ((CHR ''<'' # quote printable ?raw) @ []) = Some (Below (clean ?raw), [])"
      unfolding append_Cons by (rule read_condition_simps(3))
    from read_clauses_field(1) [OF _ field_char_letters(1) this] show ?thesis by (simp add: cur_def curc_def)
  qed
  have flt: "read_clauses (flt @ cur) = Some (concat (map (filter_clauses number) (lq_filters q)) @ curc)"
    using read_clauses_filters [of "lq_filters q" printable number cur] ok cur q' by (simp add: flt_def split: if_splits)
  have phr: "read_clauses (phr @ flt @ cur)
      = Some ((if lq_text q = [] then [] else [Phrase (clean (lq_text q))]) @ concat (map (filter_clauses number) (lq_filters q)) @ curc)"
    using flt by (simp add: phr_def read_clauses_phrase)
  show ?thesis
    unfolding s
    by (subst read_clauses_field(2), simp, rule field_char_letters, simp add: br)
      (subst read_clauses_field(1), simp, rule field_char_letters, rule read_condition_quote,
        simp add: phr query_clauses_def range_def curc_def)
qed

section \<open>The properties\<close>


text \<open>
  A cursor decodes to the time it was made of, and a query continued with it asks for
  what lies before that time.
\<close>

theorem cursor_roundtrip:
  "base64_decode (cursor t) = Some t
   \<and> (t = [] \<or> last (query_clauses number (q\<lparr>lq_cursor := cursor t\<rparr>)) = Field ''_time'' (Below (clean t)))"
proof -
  have "cursor t = [] \<longleftrightarrow> t = []" unfolding cursor_def by (cases t rule: base64_encode.cases) simp_all
  moreover have "base64_decode (cursor t) = Some t" by (simp add: cursor_def base64_roundtrip)
  ultimately show ?thesis by (simp add: query_clauses_def)
qed

definition sample_query :: log_query where
  "sample_query = \<lparr>lq_tenant_id = ''a'', lq_start = 1700000000000000000, lq_end = 1700000060000000000, lq_text = [],
     lq_native = [], lq_filters = [], lq_limit = 0, lq_cursor = []\<rparr>"

text \<open>
  A native query is not confined to its tenant.  Its text is put behind the time and
  tenant clauses as it stands; one that starts with the operator \<^verbatim>\<open>OR\<close> and names another tenant
  leaves that other tenant's clause outside the restriction.
\<close>

theorem native_not_confined:
  "case logs_ql (\<lambda>_. True) id (sample_query\<lparr>lq_native := ''OR tenant_id:'' @ [CHR 0x22, CHR ''b'', CHR 0x22]\<rparr>) of
     Inl _ \<Rightarrow> False
   | Inr s \<Rightarrow> read_clauses s =
       Some [Field ''_time'' (Within ''2023-11-14T22:13:20Z, 2023-11-14T22:14:20Z''), Field ''tenant_id'' (Is ''a''),
             Word ''OR'', Field ''tenant_id'' (Is ''b'')]"
  by code_simp

section \<open>Witnesses\<close>


end
