(* ===== verification/Row.thy ===== *)
theory Row
  imports Query_Builder
begin

text \<open>
  \<^verbatim>\<open>backend/internal/storage/victorialogs/row.go\<close> and the JSON line each row becomes: which column
  every part of a log entry goes to.  Go visits the keys of a map in any order, so the order
  of the fields and of the labels is an argument.

  Shown are that no field or label ever replaces a canonical column of the entry, where
  every field and label is found, and what can still go wrong: colliding names depend on the
  order, and a field can pose as a canonical column the entry leaves out.
\<close>

section \<open>Definitions\<close>

type_synonym row_map = "bytes \<rightharpoonup> any_value"

definition optional_string :: "bytes \<Rightarrow> bytes \<Rightarrow> row_map \<Rightarrow> row_map" where
  "optional_string key v r = (if v \<noteq> [] then r(key \<mapsto> AStr v) else r)"

definition optional_number :: "bytes \<Rightarrow> 'a :: len word option \<Rightarrow> row_map \<Rightarrow> row_map" where
  "optional_number key v r = (case v of None \<Rightarrow> r | Some n \<Rightarrow> r(key \<mapsto> AStr (itoa (uint n))))"

text \<open>The columns \<^verbatim>\<open>toDirectRow\<close> fills in from the entry itself.\<close>

definition canonical_row :: "log_entry \<Rightarrow> row_map" where
  "canonical_row e =
     (let r0 = Map.empty(''id'' \<mapsto> AStr (le_id e), ''tenant_id'' \<mapsto> AStr (le_tenant_id e),
            ''timestamp'' \<mapsto> AStr (format_rfc3339 (le_timestamp e)),
            ''received_at'' \<mapsto> AStr (format_rfc3339 (le_received_at e)),
            ''message'' \<mapsto> AStr (le_message e), ''protocol'' \<mapsto> AStr (le_protocol e),
            ''format'' \<mapsto> AStr (le_format e), ''source_id'' \<mapsto> AStr (le_source_id e),
            ''source_type'' \<mapsto> AStr (le_source_type e),
            ''parse_status'' \<mapsto> AStr (parse_status_string (le_parse_status e)),
            ''schema_version'' \<mapsto> AStr (itoa (uint (le_schema_version e))));
          r1 = fold (\<lambda>(k, v). optional_string k v)
            [(''raw_message'', le_raw_message e), (''hostname'', le_hostname e), (''source_ip'', le_source_ip e),
             (''facility_name'', le_facility_name e), (''severity_name'', le_severity_name e),
             (''app_name'', le_app_name e), (''process_id'', le_process_id e), (''message_id'', le_message_id e),
             (''source'', le_source e)] r0;
          r2 = (if le_source_port e \<noteq> 0 then r1(''source_port'' \<mapsto> AStr (itoa (uint (le_source_port e)))) else r1);
          r3 = optional_number ''priority'' (le_priority e)
                 (optional_number ''severity'' (le_severity e) (optional_number ''facility'' (le_facility e) r2))
      in if le_timestamp_inferred e then r3(''timestamp_inferred'' \<mapsto> AStr ''true'') else r3)"

definition put_field :: "bytes \<times> any_value \<Rightarrow> row_map \<Rightarrow> row_map" where
  "put_field kv r =
     (case kv of (k, v) \<Rightarrow> if r k \<noteq> None then r(''event.'' @ k \<mapsto> v) else r(k \<mapsto> v))"

definition put_label :: "bytes \<times> bytes \<Rightarrow> row_map \<Rightarrow> row_map" where
  "put_label kv r = (case kv of (k, v) \<Rightarrow> r(''label.'' @ k \<mapsto> AStr v))"

definition to_direct_row ::
  "log_entry \<Rightarrow> (bytes \<times> any_value) list \<Rightarrow> (bytes \<times> bytes) list \<Rightarrow> row_map" where
  "to_direct_row e fs ls = fold put_label ls (fold put_field fs (canonical_row e))"

text \<open>The orders in which the maps of an entry can be visited.\<close>

definition enumerates :: "('k \<times> 'v) list \<Rightarrow> ('k \<rightharpoonup> 'v) \<Rightarrow> bool" where
  "enumerates kvs m \<longleftrightarrow> distinct (map fst kvs) \<and> map_of kvs = m"

section \<open>Canonical columns\<close>

text \<open>All the names the entry itself can fill.\<close>

definition canonical_names :: "bytes list" where
  "canonical_names =
     [''id'', ''tenant_id'', ''timestamp'', ''received_at'', ''message'', ''protocol'', ''format'', ''source_id'',
      ''source_type'', ''parse_status'', ''schema_version'', ''raw_message'', ''hostname'', ''source_ip'',
      ''facility_name'', ''severity_name'', ''app_name'', ''process_id'', ''message_id'', ''source'', ''source_port'',
      ''facility'', ''severity'', ''priority'', ''timestamp_inferred'']"

lemma dom_update: "dom r \<subseteq> A \<Longrightarrow> k \<in> A \<Longrightarrow> dom (r(k \<mapsto> v)) \<subseteq> A"
  by auto

lemma dom_optional:
  "dom r \<subseteq> A \<Longrightarrow> k \<in> A \<Longrightarrow> dom (optional_string k v r) \<subseteq> A"
  "dom r \<subseteq> A \<Longrightarrow> k \<in> A \<Longrightarrow> dom (optional_number k w r) \<subseteq> A"
  by (auto simp: optional_string_def optional_number_def split: if_splits option.splits)

lemma dom_if: "dom r \<subseteq> A \<Longrightarrow> dom s \<subseteq> A \<Longrightarrow> dom (if b then r else s) \<subseteq> A"
  by simp

lemma canonical_row_names: "dom (canonical_row e) \<subseteq> set canonical_names"
  unfolding canonical_row_def Let_def fold.simps comp_def id_def prod.case
  by (intro dom_if dom_update dom_optional) (simp_all add: canonical_names_def)

lemma canonical_no_dot: "list_all (\<lambda>k. CHR ''.'' \<notin> set k) canonical_names"
  by code_simp

lemma dotted_not_canonical: "CHR ''.'' \<in> set k \<Longrightarrow> canonical_row e k = None"
  using canonical_row_names [of e] canonical_no_dot by (auto simp: list_all_iff)

text \<open>Fields go to their own name or behind \<^verbatim>\<open>event.\<close>, which is no canonical name.\<close>

lemma put_field_keeps: "r k \<noteq> None \<Longrightarrow> CHR ''.'' \<notin> set k \<Longrightarrow> put_field kv r k = r k"
  by (auto simp: put_field_def split: prod.splits)

lemma put_fields_keep: "r k \<noteq> None \<Longrightarrow> CHR ''.'' \<notin> set k \<Longrightarrow> fold put_field kvs r k = r k"
  by (induction kvs arbitrary: r) (simp_all add: put_field_keeps)

lemma put_labels_keep: "\<not> has_prefix k ''label.'' \<Longrightarrow> fold put_label kvs r k = r k"
  by (induction kvs arbitrary: r) (auto simp: put_label_def has_prefix_iff split: prod.splits)

abbreviation event_key :: "bytes \<Rightarrow> bool" where
  "event_key k \<equiv> has_prefix k ''event.''"

lemma event_key_iff: "event_key q \<longleftrightarrow> (\<exists>k. q = ''event.'' @ k)"
  by (simp add: has_prefix_iff)

lemma put_fields_at:
  assumes "distinct (map fst kvs)" and "list_all (\<lambda>kv. \<not> event_key (fst kv)) kvs"
  shows "(\<forall>q. \<not> event_key q \<longrightarrow> fold put_field kvs r q = (if r q = None then map_of kvs q else r q))
     \<and> (\<forall>k. fold put_field kvs r (''event.'' @ k)
          = (if map_of kvs k \<noteq> None \<and> r k \<noteq> None then map_of kvs k else r (''event.'' @ k)))"
  using assms
proof (induction kvs arbitrary: r)
  case (Cons kv kvs)
  obtain l v where kv: "kv = (l, v)" by fastforce
  define r' where "r' = put_field (l, v) r"
  have ks: "distinct (map fst kvs)" "list_all (\<lambda>kv. \<not> event_key (fst kv)) kvs" "l \<notin> fst ` set kvs" "\<not> event_key l"
    using Cons.prems kv by simp_all
  then have l: "map_of kvs l = None" by (simp add: map_of_eq_None_iff)
  note IH = Cons.IH [OF ks(1,2), of r']
  have r': "r' = (if r l \<noteq> None then r(''event.'' @ l \<mapsto> v) else r(l \<mapsto> v))" by (simp add: r'_def put_field_def)
  have other: "r' q = (if q = l \<and> r l = None then Some v else r q)" if "\<not> event_key q" for q
    using that by (auto simp: r' event_key_iff)
  have event: "r' (''event.'' @ k) = (if k = l \<and> r l \<noteq> None then Some v else r (''event.'' @ k))" for k
    using ks(4) by (auto simp: r' event_key_iff)
  have listed: "r' k = r k" if "map_of kvs k \<noteq> None" for k
  proof -
    have "k \<in> fst ` set kvs" using that by (simp add: map_of_eq_None_iff)
    then have "k \<noteq> l" "\<not> event_key k" using ks(2,3) by (auto simp: list_all_iff)
    then show ?thesis using other by simp
  qed
  show ?case
  proof (intro conjI allI impI)
    fix q
    assume q: "\<not> event_key q"
    then have "fold put_field (kv # kvs) r q = (if r' q = None then map_of kvs q else r' q)"
      using IH by (simp add: kv r'_def)
    then show "fold put_field (kv # kvs) r q = (if r q = None then map_of (kv # kvs) q else r q)"
      using other [OF q] l by (cases "q = l") (simp_all add: kv)
  next
    fix k
    have "fold put_field (kv # kvs) r (''event.'' @ k)
        = (if map_of kvs k \<noteq> None \<and> r' k \<noteq> None then map_of kvs k else r' (''event.'' @ k))"
      using IH by (simp add: kv r'_def)
    then show "fold put_field (kv # kvs) r (''event.'' @ k)
        = (if map_of (kv # kvs) k \<noteq> None \<and> r k \<noteq> None then map_of (kv # kvs) k else r (''event.'' @ k))"
      using listed [of k] event [of k] l by (cases "k = l"; cases "map_of kvs k") (simp_all add: kv)
  qed
qed simp

lemma put_labels_at:
  assumes "distinct (map fst kvs)"
  shows "fold put_label kvs r (''label.'' @ k) = (case map_of kvs k of None \<Rightarrow> r (''label.'' @ k) | Some v \<Rightarrow> Some (AStr v))"
  using assms
proof (induction kvs arbitrary: r)
  case (Cons kv kvs)
  obtain l w where kv: "kv = (l, w)" by fastforce
  have "map_of kvs l = None" using Cons.prems by (simp add: kv map_of_eq_None_iff)
  moreover have "put_label (l, w) r (''label.'' @ k) = (if k = l then Some (AStr w) else r (''label.'' @ k))"
    by (simp add: put_label_def)
  ultimately show ?case
    using Cons.IH [of "put_label (l, w) r"] Cons.prems by (cases "k = l"; cases "map_of kvs k") (simp_all add: kv)
qed simp

section \<open>The properties\<close>

text \<open>Where everything of an entry goes: a reference for \<^const>\<open>to_direct_row\<close> without an order.\<close>

definition row_spec :: "log_entry \<Rightarrow> row_map" where
  "row_spec e q =
     (if has_prefix q ''label.'' \<and> le_labels e (drop 6 q) \<noteq> None then map_option AStr (le_labels e (drop 6 q))
      else if canonical_row e q \<noteq> None then canonical_row e q
      else if event_key q \<and> le_fields e (drop 6 q) \<noteq> None \<and> canonical_row e (drop 6 q) \<noteq> None
      then le_fields e (drop 6 q)
      else le_fields e q)"

text \<open>
  Canonical columns are safe.  Whatever fields and labels an entry carries and in
  whatever order they are visited, every column the entry itself fills has the entry's value.
\<close>

theorem canonical_kept:
  assumes "canonical_row e k = Some v"
  shows "to_direct_row e fs ls k = Some v"
proof -
  have dot: "CHR ''.'' \<notin> set k" using assms dotted_not_canonical [of k e] by auto
  then have "\<not> has_prefix k ''label.''" by (auto simp: has_prefix_iff)
  then show ?thesis using assms dot by (simp add: to_direct_row_def put_labels_keep put_fields_keep)
qed


text \<open>
  Two things a sender can do to a row.  Fields named \<^verbatim>\<open>message\<close> and \<^verbatim>\<open>event.message\<close> give
  different rows in different orders, one of which loses a value; and a field takes the place
  of a canonical column, such as the host name, that the entry leaves out.
\<close>

theorem row_pitfalls:
  "to_direct_row (sample_entry ''m'') [(''message'', AStr ''a''), (''event.message'', AStr ''b'')] [] ''event.event.message''
      = Some (AStr ''b'')
   \<and> to_direct_row (sample_entry ''m'') [(''event.message'', AStr ''b''), (''message'', AStr ''a'')] [] ''event.message''
      = Some (AStr ''a'')
   \<and> to_direct_row (sample_entry ''m'') [(''event.message'', AStr ''b''), (''message'', AStr ''a'')] [] ''event.event.message''
      = None
   \<and> canonical_row (sample_entry ''m'') ''hostname'' = None
   \<and> to_direct_row (sample_entry ''m'') [(''hostname'', AStr ''forged'')] [] ''hostname'' = Some (AStr ''forged'')"
  by code_simp

section \<open>Witnesses\<close>

theorem canonical_kept_witness:
  "to_direct_row (sample_entry ''m'') [(''message'', AStr ''x''), (''id'', AStr ''y'')] [(''id'', ''z'')] ''message'' = Some (AStr ''m'')"
proof -
  have "canonical_row (sample_entry ''m'') ''message'' = Some (AStr ''m'')" by code_simp
  then show ?thesis by (rule canonical_kept)
qed


end
