(* ===== verification/Go_JSON.thy ===== *)
theory Go_JSON
  imports Row
begin

text \<open>
  What \<^verbatim>\<open>encoding/json\<close> writes for the rows sent to storage, and the form encoding of \<^verbatim>\<open>net/url\<close>.
  Shown are that an encoded value never contains a line break, so that one row is one line,
  and that a form decodes to the query it was made of.
\<close>

section \<open>Definitions\<close>

subsection \<open>Package encoding/json\<close>

text \<open>The bytes below 128 that are written as they are, and the escapes of the others.\<close>

definition html_safe :: "char \<Rightarrow> bool" where
  "html_safe c \<longleftrightarrow> 32 \<le> byte_val c \<and> byte_val c < 128 \<and> c \<notin> {CHR 0x22, CHR 0x5C, CHR 0x3C, CHR 0x3E, CHR 0x26}"

definition json_escape :: "char \<Rightarrow> bytes" where
  "json_escape c =
     (if c = CHR 0x5C \<or> c = CHR 0x22 then [CHR 0x5C, c]
      else if c = CHR 0x08 then [CHR 0x5C, CHR ''b'']
      else if c = CHR 0x0C then [CHR 0x5C, CHR ''f'']
      else if c = CHR 0x0A then [CHR 0x5C, CHR ''n'']
      else if c = CHR 0x0D then [CHR 0x5C, CHR ''r'']
      else if c = CHR 0x09 then [CHR 0x5C, CHR ''t'']
      else [CHR 0x5C] @ ''u00'' @ hex_digits 2 (byte_val c))"

function json_body :: "bytes \<Rightarrow> bytes" where
  "json_body s =
     (if s = [] then []
      else if byte_val (hd s) < 128
      then (if html_safe (hd s) then [hd s] else json_escape (hd s)) @ json_body (tl s)
      else if utf8_width s = 0 then [CHR 0x5C] @ ''ufffd'' @ json_body (tl s)
      else if rune_at s = 0x2028 \<or> rune_at s = 0x2029
      then [CHR 0x5C] @ ''u202'' @ [hex_char (rune_at s mod 16)] @ json_body (drop (utf8_width s) s)
      else take (utf8_width s) s @ json_body (drop (utf8_width s) s))"
  by pat_completeness auto
termination
  by (relation "measure length") auto

declare json_body.simps [simp del]

definition json_string :: "bytes \<Rightarrow> bytes" where
  "json_string s = CHR 0x22 # json_body s @ [CHR 0x22]"

definition json_member :: "bytes \<times> bytes \<Rightarrow> bytes" where
  "json_member kv = json_string (fst kv) @ '':'' @ snd kv"

text \<open>The members of an object, whose keys are written in order and once; the last one counts.\<close>

definition json_object :: "(bytes \<times> bytes) list \<Rightarrow> bytes" where
  "json_object kvs =
     ''{'' @ join '','' (map json_member (fold (\<lambda>(k, v) m. insert_key k v m) kvs [])) @ ''}''"

text \<open>Numbers are \<^verbatim>\<open>float64\<close>; \<open>number\<close> is the text written for one.\<close>

fun json_value :: "(bytes \<Rightarrow> bytes) \<Rightarrow> any_value \<Rightarrow> bytes" where
  "json_value number (AStr s) = json_string s"
| "json_value number (ANum s) = number s"
| "json_value number (ABool b) = (if b then ''true'' else ''false'')"
| "json_value number ANull = ''null''"
| "json_value number (AArr vs) = ''['' @ join '','' (map (json_value number) vs) @ '']''"
| "json_value number (AObj kvs) = json_object (map (\<lambda>(k, v). (k, json_value number v)) kvs)"

text \<open>The keys a row can have, and the line \<^verbatim>\<open>Encode\<close> writes for it.\<close>

definition row_keys :: "(bytes \<times> any_value) list \<Rightarrow> (bytes \<times> bytes) list \<Rightarrow> bytes list" where
  "row_keys fs ls =
     canonical_names @ map fst fs @ map (\<lambda>kv. ''event.'' @ fst kv) fs @ map (\<lambda>kv. ''label.'' @ fst kv) ls"

definition encode_row ::
  "(bytes \<Rightarrow> bytes) \<Rightarrow> log_entry \<Rightarrow> (bytes \<times> any_value) list \<Rightarrow> (bytes \<times> bytes) list \<Rightarrow> bytes" where
  "encode_row number e fs ls =
     json_object (List.map_filter (\<lambda>k. map_option (\<lambda>v. (k, json_value number v)) (to_direct_row e fs ls k)) (row_keys fs ls))
     @ [CHR 0x0A]"

subsection \<open>Package net/url\<close>

definition unreserved :: "char \<Rightarrow> bool" where
  "unreserved c \<longleftrightarrow> is_lower c \<or> is_upper c \<or> is_digit c \<or> c \<in> set ''-_.~''"

definition upper_hex_char :: "nat \<Rightarrow> char" where
  "upper_hex_char d = (if d < 10 then char_of (48 + d) else char_of (55 + d))"

definition query_escape_byte :: "char \<Rightarrow> bytes" where
  "query_escape_byte c =
     (if unreserved c then [c]
      else if c = CHR '' '' then ''+''
      else [CHR ''%'', upper_hex_char (byte_val c div 16), upper_hex_char (byte_val c mod 16)])"

definition query_escape :: "bytes \<Rightarrow> bytes" where
  "query_escape s = concat (map query_escape_byte s)"

text \<open>\<^verbatim>\<open>url.Values\<close> with one key, encoded; and how a server decodes a value.\<close>

definition form_encode :: "bytes \<Rightarrow> bytes \<Rightarrow> bytes" where
  "form_encode key v = query_escape key @ ''='' @ query_escape v"

definition upper_hex_val :: "char \<Rightarrow> nat" where
  "upper_hex_val c = (if byte_val c < 65 then byte_val c - 48 else byte_val c - 55)"

fun query_unescape :: "bytes \<Rightarrow> bytes option" where
  "query_unescape [] = Some []"
| "query_unescape (c # s) =
     (if c = CHR ''+'' then map_option ((#) (CHR '' '')) (query_unescape s)
      else if c = CHR ''%'' then
        (case s of
           a # b # t \<Rightarrow> map_option ((#) (char_of (upper_hex_val a * 16 + upper_hex_val b))) (query_unescape t)
         | _ \<Rightarrow> None)
      else map_option ((#) c) (query_unescape s))"

section \<open>Lines\<close>

text \<open>Text without control bytes.\<close>

definition one_line :: "bytes \<Rightarrow> bool" where
  "one_line s \<longleftrightarrow> CHR 0x0A \<notin> set s"

lemma one_line_simps [simp]:
  "one_line []" "one_line (s @ t) \<longleftrightarrow> one_line s \<and> one_line t" "one_line (c # s) \<longleftrightarrow> c \<noteq> CHR 0x0A \<and> one_line s"
  by (auto simp: one_line_def)

lemma hex_char_one_line: "d < 16 \<Longrightarrow> hex_char d \<noteq> CHR 0x0A"
  using is_hex_hex_char [of d] by (auto simp: is_hex_def is_digit_def)

lemma hex_digits_one_line: "one_line (hex_digits k n)"
  by (induction k n rule: hex_digits.induct) (simp_all add: hex_char_one_line)

lemma json_escape_one_line: "one_line (json_escape c)"
  by (simp add: json_escape_def hex_digits_one_line)

lemma utf8_high: "128 \<le> byte_val (hd s) \<Longrightarrow> utf8_width s \<noteq> 0 \<Longrightarrow> one_line (take (utf8_width s) s)"
  by (erule utf8_width_cases) (auto simp: is_cont_def)

lemma json_body_one_line: "one_line (json_body s)"
proof (induction s rule: json_body.induct)
  case (1 s)
  note body = json_body.simps [of s]
  consider (nil) "s = []" | (low) "s \<noteq> []" "byte_val (hd s) < 128" | (bad) "s \<noteq> []" "\<not> byte_val (hd s) < 128" "utf8_width s = 0"
    | (sep) "s \<noteq> []" "\<not> byte_val (hd s) < 128" "utf8_width s \<noteq> 0" "rune_at s = 0x2028 \<or> rune_at s = 0x2029"
    | (rune) "s \<noteq> []" "\<not> byte_val (hd s) < 128" "utf8_width s \<noteq> 0" "\<not> (rune_at s = 0x2028 \<or> rune_at s = 0x2029)"
    by blast
  then show ?case
  proof cases
    case low
    have "hd s \<noteq> CHR 0x0A" if "html_safe (hd s)" using that by (auto simp: html_safe_def)
    then show ?thesis using 1(1) [OF low] low body by (simp add: json_escape_one_line)
  next
    case bad
    then show ?thesis using 1(2) [OF bad] body by simp
  next
    case sep
    then show ?thesis using 1(3) [OF sep] body by (simp add: hex_char_one_line)
  next
    case rune
    have "one_line (take (utf8_width s) s)" using rune by (intro utf8_high) simp_all
    then show ?thesis using 1(4) [OF rune] rune body by simp
  qed (use body in simp)
qed

lemma json_string_one_line: "one_line (json_string s)"
  by (simp add: json_string_def json_body_one_line)

lemma join_one_line: "one_line sep \<Longrightarrow> list_all one_line ss \<Longrightarrow> one_line (join sep ss)"
  by (induction sep ss rule: join.induct) simp_all

lemma insert_key_values: "list_all P m \<Longrightarrow> P (k, v) \<Longrightarrow> list_all P (insert_key k v m)"
  by (induction k v m rule: insert_key.induct) auto

lemma json_object_one_line:
  assumes "list_all (\<lambda>kv. one_line (snd kv)) kvs"
  shows "one_line (json_object kvs)"
proof -
  have "list_all (\<lambda>kv. one_line (snd kv)) (fold (\<lambda>(k, v) m. insert_key k v m) kvs m)"
    if "list_all (\<lambda>kv. one_line (snd kv)) m" for m
    using assms that by (induction kvs arbitrary: m) (auto simp: insert_key_values)
  from this [of "[]"] have "list_all one_line (map json_member (fold (\<lambda>(k, v) m. insert_key k v m) kvs []))"
    by (simp add: list.pred_map comp_def json_member_def json_string_one_line)
  then show ?thesis by (simp add: json_object_def join_one_line)
qed

lemma json_value_one_line:
  assumes "\<And>s. one_line (number s)"
  shows "one_line (json_value number v)"
proof (induction v)
  case (AArr vs)
  then show ?case by (auto simp: list_all_iff intro!: join_one_line)
next
  case (AObj kvs)
  then show ?case by (auto simp: list_all_iff intro!: json_object_one_line)
qed (simp_all add: assms json_string_one_line)

text \<open>The encoding of a row is one line with its line break.\<close>

lemma encode_row_line:
  assumes "\<And>s. one_line (number s)"
  obtains t where "encode_row number e fs ls = t @ [CHR 0x0A]" and "one_line t"
proof -
  have "list_all (\<lambda>kv. one_line (snd kv))
      (List.map_filter (\<lambda>k. map_option (\<lambda>v. (k, json_value number v)) (to_direct_row e fs ls k)) ks)" for ks
    by (induction ks) (auto simp: map_filter_simps json_value_one_line [OF assms] split: option.splits)
  then show thesis using that json_object_one_line by (auto simp: encode_row_def)
qed

section \<open>Forms\<close>

lemma upper_hex_roundtrip: "d < 16 \<Longrightarrow> upper_hex_val (upper_hex_char d) = d"
  by (auto simp: upper_hex_val_def upper_hex_char_def)

lemma query_unescape_byte: "query_unescape (query_escape_byte c @ s) = map_option ((#) c) (query_unescape s)"
proof -
  have "unreserved c \<Longrightarrow> c \<noteq> CHR ''+'' \<and> c \<noteq> CHR ''%''"
    by (auto simp: unreserved_def is_lower_def is_upper_def is_digit_def)
  moreover have "byte_val c div 16 < 16" "byte_val c mod 16 < 16" using byte_val_bound [of c] by (simp_all add: less_mult_imp_div_less del: nat_of_char_less_256)
  ultimately show ?thesis by (simp add: query_escape_byte_def upper_hex_roundtrip)
qed

lemma query_unescape_escape: "query_unescape (query_escape s) = Some s"
  by (induction s) (simp_all add: query_escape_def query_unescape_byte)

end
