(* ===== verification/Victoria.thy ===== *)
theory Victoria
  imports Go_JSON
begin

text \<open>
  The client of \<^verbatim>\<open>backend/internal/storage/victorialogs/client.go\<close>: requests to VictoriaLogs and what
  is made of the answers.  The server is a function from requests to answers; the JSON
  decoder for a line, the table of printable runes and the text of numbers are arguments.
\<close>

section \<open>Definitions\<close>

record url =
  ur_scheme :: bytes
  ur_host :: bytes
  ur_path :: bytes

record client =
  cl_endpoint :: url
  cl_stream_fields :: bytes

record http_request =
  rq_method :: bytes
  rq_url :: url
  rq_headers :: "(bytes \<times> bytes) list"
  rq_body :: bytes

text \<open>
  The request cannot be built, no answer arrives, or an answer: status, body, and whether
  reading the body breaks off with an error at its end.
\<close>

datatype http_result = Http_invalid | Http_failed | Http_answer int bytes bool

datatype client_error =
    Err_query query_error
  | Err_request
  | Err_unavailable
  | Err_status int
  | Err_decode
  | Err_scan
  | Err_limit
  | Err_field
  | Err_aggregate
  | Err_time
  | Err_format
  | Err_export_bytes

text \<open>What the client needs of the world around it.\<close>

record world =
  wd_do :: "http_request \<Rightarrow> http_result"
  wd_unmarshal :: "bytes \<Rightarrow> row option"
  wd_printable :: "nat \<Rightarrow> bool"
  wd_number :: "bytes \<Rightarrow> bytes"

definition new_client :: "(bytes \<Rightarrow> url option) \<Rightarrow> bytes \<Rightarrow> bytes list \<Rightarrow> client option" where
  "new_client url_parse endpoint stream_fields =
     (case url_parse (trim_right endpoint ''/'') of
        None \<Rightarrow> None
      | Some u \<Rightarrow>
          if ur_scheme u = [] \<or> ur_host u = [] then None
          else Some \<lparr>cl_endpoint = u, cl_stream_fields = join '','' stream_fields\<rparr>)"

definition client_capabilities :: capabilities where
  "client_capabilities =
     \<lparr>cp_backend = ''victorialogs'', cp_full_text = True, cp_field_discovery = True, cp_facets = True,
      cp_statistics = True, cp_live_tail = True, cp_native_dialect = ''logsql''\<rparr>"

definition endpoint_path :: "client \<Rightarrow> bytes \<Rightarrow> url" where
  "endpoint_path c path = (cl_endpoint c)\<lparr>ur_path := trim_right (ur_path (cl_endpoint c)) ''/'' @ path\<rparr>"

text \<open>\<^verbatim>\<open>Check\<close>; the messages of errors are those of the HTTP package.\<close>

definition check_health :: "world \<Rightarrow> client \<Rightarrow> bool" where
  "check_health wd c =
     (case wd_do wd \<lparr>rq_method = ''GET'', rq_url = endpoint_path c ''/health'', rq_headers = [], rq_body = []\<rparr> of
        Http_answer status body broken \<Rightarrow> status div 100 = 2
      | _ \<Rightarrow> False)"

text \<open>
  \<^verbatim>\<open>Append\<close>.  \<open>visit\<close> gives the order in which the fields and labels of an entry are visited; the
  values of an entry are such that \<^verbatim>\<open>Encode\<close> has no error.
\<close>

definition append_body ::
  "(bytes \<Rightarrow> bytes) \<Rightarrow> (log_entry \<Rightarrow> (bytes \<times> any_value) list \<times> (bytes \<times> bytes) list) \<Rightarrow> log_entry list \<Rightarrow> bytes" where
  "append_body number visit logs = concat (map (\<lambda>e. encode_row number e (fst (visit e)) (snd (visit e))) logs)"

definition append_request :: "client \<Rightarrow> bytes \<Rightarrow> http_request" where
  "append_request c body =
     \<lparr>rq_method = ''POST'', rq_url = endpoint_path c ''/insert/jsonline'',
      rq_headers = [(''Content-Type'', ''application/stream+json''), (''VL-Msg-Field'', ''message''),
                    (''VL-Time-Field'', ''timestamp'')]
        @ (if cl_stream_fields c \<noteq> [] then [(''VL-Stream-Fields'', cl_stream_fields c)] else []),
      rq_body = body\<rparr>"

definition client_append ::
  "world \<Rightarrow> (log_entry \<Rightarrow> (bytes \<times> any_value) list \<times> (bytes \<times> bytes) list) \<Rightarrow> client \<Rightarrow> log_entry list
   \<Rightarrow> client_error + (int \<times> int)" where
  "client_append wd visit c logs =
     (if logs = [] then Inr (0, 0)
      else
        (let body = append_body (wd_number wd) visit logs in
         case wd_do wd (append_request c body) of
           Http_invalid \<Rightarrow> Inl Err_request
         | Http_failed \<Rightarrow> Inl Err_unavailable
         | Http_answer status answer broken \<Rightarrow>
             if status div 100 \<noteq> 2 then Inl Err_unavailable
             else Inr (int (length logs), int (length body))))"

subsection \<open>Reading answers\<close>

text \<open>
  \<^verbatim>\<open>bufio.Scanner\<close> over lines: the lines of a text without their line breaks, up to the first
  one that does not fit the buffer, and whether there was such a line.
\<close>

definition drop_cr :: "bytes \<Rightarrow> bytes" where
  "drop_cr s = (if s \<noteq> [] \<and> last s = CHR 0x0D then butlast s else s)"

function scan_lines :: "int \<Rightarrow> bytes \<Rightarrow> bytes list \<times> bool" where
  "scan_lines limit s =
     (if s = [] then ([], False)
      else
        (case index_byte (CHR 0x0A) s of
           None \<Rightarrow> if limit \<le> int (length s) then ([], True) else ([drop_cr s], False)
         | Some i \<Rightarrow>
             if limit \<le> int i then ([], True)
             else (case scan_lines limit (drop (Suc i) s) of (ls, long) \<Rightarrow> (drop_cr (take i s) # ls, long))))"
  by pat_completeness auto
termination
  by (relation "measure (\<lambda>(limit, s). length s)") (auto dest: index_byte_SomeD)

declare scan_lines.simps [simp del]

fun decode_rows :: "(bytes \<Rightarrow> row option) \<Rightarrow> bytes list \<Rightarrow> client_error + row list" where
  "decode_rows unmarshal [] = Inr []"
| "decode_rows unmarshal (l # ls) =
     (case unmarshal l of
        None \<Rightarrow> Inl Err_decode
      | Some r \<Rightarrow> result_bind (decode_rows unmarshal ls) (\<lambda>rs. Inr (r # rs)))"

definition query_request :: "client \<Rightarrow> bytes \<Rightarrow> http_request" where
  "query_request c logsql =
     \<lparr>rq_method = ''POST'', rq_url = endpoint_path c ''/select/logsql/query'',
      rq_headers = [(''Content-Type'', ''application/x-www-form-urlencoded'')],
      rq_body = form_encode ''query'' logsql\<rparr>"

text \<open>\<^verbatim>\<open>queryStream\<close>: the body of a successful answer.\<close>

definition query_stream :: "world \<Rightarrow> client \<Rightarrow> bytes \<Rightarrow> client_error + (bytes \<times> bool)" where
  "query_stream wd c logsql =
     (case wd_do wd (query_request c logsql) of
        Http_invalid \<Rightarrow> Inl Err_request
      | Http_failed \<Rightarrow> Inl Err_unavailable
      | Http_answer status body broken \<Rightarrow>
          if status div 100 \<noteq> 2 then Inl (Err_status status) else Inr (body, broken))"

definition run_query :: "world \<Rightarrow> client \<Rightarrow> bytes \<Rightarrow> client_error + row list" where
  "run_query wd c logsql =
     (case query_stream wd c logsql of
        Inl e \<Rightarrow> Inl e
      | Inr (body, broken) \<Rightarrow>
          (case scan_lines (4 * 2 ^ 20) body of
             (ls, long) \<Rightarrow>
               (case decode_rows (wd_unmarshal wd) ls of
                  Inl e \<Rightarrow> Inl e
                | Inr rows \<Rightarrow> if long \<or> broken then Inl Err_scan else Inr rows)))"

text \<open>
  \<^verbatim>\<open>Recent\<close> stops reading after \<open>limit\<close> rows; \<open>early\<close> says whether the reader had already met a
  read error by then.
\<close>

definition recent :: "world \<Rightarrow> bool \<Rightarrow> client \<Rightarrow> int \<Rightarrow> client_error + row list" where
  "recent wd early c limit =
     (if limit < 1 \<or> 1000 < limit then Inl Err_limit
      else
        (case query_stream wd c (''_time:15m | sort by (_time) desc | limit '' @ itoa limit) of
           Inl e \<Rightarrow> Inl e
         | Inr (body, broken) \<Rightarrow>
             (case scan_lines (2 * 2 ^ 20) body of
                (ls, long) \<Rightarrow>
                  (case decode_rows (wd_unmarshal wd) (take (nat limit) ls) of
                     Inl e \<Rightarrow> Inl e
                   | Inr rows \<Rightarrow>
                       if length ls < nat limit \<and> (long \<or> broken) \<or> broken \<and> early then Inl Err_scan
                       else Inr rows))))"

text \<open>A column of a row; a missing one reads as nil.\<close>

definition row_get :: "row \<Rightarrow> bytes \<Rightarrow> any_value" where
  "row_get r k = (case map_of (rev r) k of None \<Rightarrow> ANull | Some v \<Rightarrow> v)"

definition sorted_page :: "bytes \<Rightarrow> int \<Rightarrow> bytes" where
  "sorted_page base n = base @ '' | sort by (_time) desc | limit '' @ itoa n"

definition client_query :: "world \<Rightarrow> client \<Rightarrow> log_query \<Rightarrow> client_error + query_result" where
  "client_query wd c q =
     (case logs_ql (wd_printable wd) (wd_number wd) q of
        Inl e \<Rightarrow> Inl (Err_query e)
      | Inr base \<Rightarrow>
          (case run_query wd c (sorted_page base (lq_limit q + 1)) of
             Inl e \<Rightarrow> Inl e
           | Inr rows \<Rightarrow>
               (let truncated = lq_limit q < int (length rows);
                    data = (if truncated then take (nat (lq_limit q)) rows else rows);
                    next_cursor = (if truncated \<and> data \<noteq> []
                                   then (case row_get (last data) ''_time'' of AStr t \<Rightarrow> cursor t | _ \<Rightarrow> [])
                                   else [])
                in Inr \<lparr>qr_data = data, qr_next_cursor = next_cursor, qr_truncated = truncated\<rparr>)))"

subsection \<open>Aggregates\<close>

definition number :: "world \<Rightarrow> any_value \<Rightarrow> client_error + int" where
  "number wd v = (case atoi (sprint (wd_number wd) v) of None \<Rightarrow> Inl Err_aggregate | Some n \<Rightarrow> Inr n)"

text \<open>A loop over rows that collects what \<open>f\<close> makes of them, leaves out the rows it skips, and
  stops at its first error.\<close>

fun collect :: "(row \<Rightarrow> client_error + 'a option) \<Rightarrow> row list \<Rightarrow> client_error + 'a list" where
  "collect f [] = Inr []"
| "collect f (r # rs) =
     (case f r of
        Inl e \<Rightarrow> Inl e
      | Inr v \<Rightarrow>
          (case collect f rs of
             Inl e \<Rightarrow> Inl e
           | Inr vs \<Rightarrow> Inr (case v of None \<Rightarrow> vs | Some x \<Rightarrow> x # vs)))"

definition value_row :: "world \<Rightarrow> bytes \<Rightarrow> row \<Rightarrow> client_error + value_count option" where
  "value_row wd field r =
     (let v = sprint (wd_number wd) (row_get r field) in
      if v = [] \<or> v = ''<nil>'' then Inr None
      else (case number wd (row_get r ''hits'') of
              Inl e \<Rightarrow> Inl e
            | Inr n \<Rightarrow> Inr (Some \<lparr>vc_value = v, vc_count = n\<rparr>)))"

definition grouped_counts :: "world \<Rightarrow> client \<Rightarrow> bytes \<Rightarrow> bytes \<Rightarrow> int \<Rightarrow> client_error + value_count list" where
  "grouped_counts wd c base field limit =
     (case run_query wd c (base @ '' | stats by ('' @ field @ '') count() as hits | sort by (hits) desc | limit '' @ itoa limit) of
        Inl e \<Rightarrow> Inl e
      | Inr rows \<Rightarrow> collect (value_row wd field) rows)"

definition stats_step :: "duration \<Rightarrow> bytes" where
  "stats_step span =
     (if 7 * 24 * hour < span then ''6h'' else if 2 * 24 * hour < span then ''1h''
      else if 6 * hour < span then ''5m'' else ''1m'')"

definition volume_row :: "world \<Rightarrow> row \<Rightarrow> client_error + bucket option" where
  "volume_row wd r =
     (case parse_rfc3339 (sprint (wd_number wd) (row_get r ''_time'')) of
        None \<Rightarrow> Inl Err_time
      | Some t \<Rightarrow>
          (case number wd (row_get r ''hits'') of
             Inl e \<Rightarrow> Inl e
           | Inr n \<Rightarrow> Inr (Some \<lparr>bk_timestamp = t, bk_count = n\<rparr>)))"

definition client_stats :: "world \<Rightarrow> client \<Rightarrow> log_query \<Rightarrow> client_error + stats_result" where
  "client_stats wd c q =
     (case logs_ql (wd_printable wd) (wd_number wd) (q\<lparr>lq_cursor := []\<rparr>) of
        Inl e \<Rightarrow> Inl (Err_query e)
      | Inr base \<Rightarrow>
          result_bind (run_query wd c (base @ '' | stats count() as total'')) (\<lambda>total_rows.
          result_bind (if total_rows = [] then Inr 0 else number wd (row_get (hd total_rows) ''total'')) (\<lambda>total.
          result_bind (run_query wd c (base @ '' | stats by (_time:'' @ stats_step (time_sub (lq_end q) (lq_start q))
              @ '') count() as hits | sort by (_time) asc | limit 500'')) (\<lambda>volume_rows.
          result_bind (collect (volume_row wd) volume_rows) (\<lambda>volume.
          result_bind (grouped_counts wd c base ''severity_name'' 20) (\<lambda>severities.
          result_bind (grouped_counts wd c base ''hostname'' 10) (\<lambda>hosts.
          result_bind (grouped_counts wd c base ''app_name'' 10) (\<lambda>apps.
            Inr \<lparr>sr_total = total, sr_volume = volume, sr_severities = severities, sr_top_hosts = hosts,
                 sr_top_applications = apps\<rparr>))))))))"

definition name_row :: "world \<Rightarrow> row \<Rightarrow> client_error + field_info option" where
  "name_row wd r =
     (case number wd (row_get r ''hits'') of
        Inl e \<Rightarrow> Inl e
      | Inr n \<Rightarrow> Inr (Some \<lparr>fi_name = sprint (wd_number wd) (row_get r ''name''), fi_count = n\<rparr>))"

definition field_names :: "world \<Rightarrow> client \<Rightarrow> log_query \<Rightarrow> client_error + field_info list" where
  "field_names wd c q =
     (case logs_ql (wd_printable wd) (wd_number wd) (q\<lparr>lq_cursor := []\<rparr>) of
        Inl e \<Rightarrow> Inl (Err_query e)
      | Inr base \<Rightarrow>
          (case run_query wd c (base @ '' | field_names | sort by (hits) desc | limit 500'') of
             Inl e \<Rightarrow> Inl e
           | Inr rows \<Rightarrow> collect (name_row wd) rows))"

definition field_value_row :: "world \<Rightarrow> bytes \<Rightarrow> row \<Rightarrow> client_error + value_count option" where
  "field_value_row wd field r =
     (if row_get r field = ANull \<or> sprint (wd_number wd) (row_get r field) = [] then Inr None
      else (case number wd (row_get r ''hits'') of
              Inl e \<Rightarrow> Inl e
            | Inr n \<Rightarrow> Inr (Some \<lparr>vc_value = sprint (wd_number wd) (row_get r field), vc_count = n\<rparr>)))"

definition field_values :: "world \<Rightarrow> client \<Rightarrow> log_query \<Rightarrow> bytes \<Rightarrow> int \<Rightarrow> client_error + value_count list" where
  "field_values wd c q field limit =
     (if limit < 1 \<or> 100 < limit then Inl Err_limit
      else if \<not> valid_field field then Inl Err_field
      else
        (case logs_ql (wd_printable wd) (wd_number wd) (q\<lparr>lq_cursor := []\<rparr>) of
           Inl e \<Rightarrow> Inl (Err_query e)
         | Inr base \<Rightarrow>
             (case run_query wd c (base @ '' | field_values '' @ field @ '' | sort by (hits) desc | limit '' @ itoa limit) of
                Inl e \<Rightarrow> Inl e
              | Inr rows \<Rightarrow> collect (field_value_row wd field) rows)))"

subsection \<open>Export\<close>

definition csv_cell :: "(bytes \<Rightarrow> bytes) \<Rightarrow> any_value \<Rightarrow> bytes" where
  "csv_cell num v =
     (if v = ANull then []
      else
        (let s = sprint num v; trimmed = trim_left s [CHR '' '', CHR 0x09, CHR 0x0D, CHR 0x0A] in
         if trimmed \<noteq> [] \<and> hd trimmed \<in> set ''=+-@'' then CHR 0x27 # s else s))"

text \<open>\<^verbatim>\<open>csv.Writer\<close>: which fields are quoted, and a record.\<close>

definition csv_needs_quotes :: "bytes \<Rightarrow> bool" where
  "csv_needs_quotes s \<longleftrightarrow>
     s \<noteq> [] \<and> (s = [CHR 0x5C, CHR ''.''] \<or> CHR 0x0A \<in> set s \<or> CHR 0x0D \<in> set s \<or> CHR 0x22 \<in> set s
       \<or> CHR '','' \<in> set s \<or> space_width space_runes s \<noteq> 0)"

definition csv_field :: "bytes \<Rightarrow> bytes" where
  "csv_field s =
     (if csv_needs_quotes s
      then CHR 0x22 # concat (map (\<lambda>c. if c = CHR 0x22 then [CHR 0x22, CHR 0x22] else [c]) s) @ [CHR 0x22]
      else s)"

definition csv_record :: "bytes list \<Rightarrow> bytes" where
  "csv_record cells = join '','' (map csv_field cells) @ [CHR 0x0A]"

definition export_columns :: "bytes list" where
  "export_columns = [''_time'', ''hostname'', ''severity_name'', ''app_name'', ''_msg'']"

text \<open>The rows of an export, from row number \<open>rows\<close> on; \<open>read\<close> counts the bytes of the lines.\<close>

fun export_rows ::
  "world \<Rightarrow> bytes \<Rightarrow> int \<Rightarrow> int \<Rightarrow> bytes list \<Rightarrow> client_error + bytes" where
  "export_rows wd format rows read [] = Inr []"
| "export_rows wd format rows read (line # ls) =
     (if 100 * 2 ^ 20 < read + int (length line) then Inl Err_export_bytes
      else
        (case (if format = ''ndjson'' then Inr (line @ [CHR 0x0A])
               else if format = ''json'' then Inr ((if 0 < rows then '','' else []) @ line)
               else (case wd_unmarshal wd line of
                       None \<Rightarrow> Inl Err_decode
                     | Some r \<Rightarrow> Inr (csv_record (map (\<lambda>k. csv_cell (wd_number wd) (row_get r k)) export_columns)))) of
           Inl e \<Rightarrow> Inl e
         | Inr text \<Rightarrow>
             (case export_rows wd format (rows + 1) (read + int (length line)) ls of
                Inl e \<Rightarrow> Inl e
              | Inr rest \<Rightarrow> Inr (text @ rest))))"

text \<open>
  \<^verbatim>\<open>Export\<close> to a writer that takes everything: the text it has written when it succeeds.  After
  the last row it may write, it does not ask the scanner again; \<open>early\<close> is as in \<^verbatim>\<open>Recent\<close>.
\<close>

definition client_export :: "world \<Rightarrow> bool \<Rightarrow> client \<Rightarrow> log_query \<Rightarrow> bytes \<Rightarrow> client_error + bytes" where
  "client_export wd early c q format =
     (if format \<notin> {''json'', ''ndjson'', ''csv''} then Inl Err_format
      else
        (case logs_ql (wd_printable wd) (wd_number wd) (q\<lparr>lq_limit := 1000\<rparr>) of
           Inl e \<Rightarrow> Inl (Err_query e)
         | Inr base \<Rightarrow>
             (case query_stream wd c (sorted_page base 10000) of
                Inl e \<Rightarrow> Inl e
              | Inr (body, broken) \<Rightarrow>
                  (case scan_lines (4 * 2 ^ 20) body of
                     (ls, long) \<Rightarrow>
                       (case export_rows wd format 0 0 (take 10000 ls) of
                          Inl e \<Rightarrow> Inl e
                        | Inr text \<Rightarrow>
                            if length ls < 10000 \<and> (long \<or> broken) \<or> broken \<and> early then Inl Err_scan
                            else Inr ((if format = ''csv'' then csv_record export_columns
                                       else if format = ''json'' then ''['' else [])
                                      @ text @ (if format = ''json'' then '']'' @ [CHR 0x0A] else [])))))))"

section \<open>Appending\<close>

lemma count_one_line: "one_line s \<Longrightarrow> count_list s (CHR 0x0A) = 0"
  by (induction s) auto

lemma count_append_body:
  assumes "\<And>s. one_line (num s)"
  shows "count_list (append_body num visit logs) (CHR 0x0A) = length logs"
proof (induction logs)
  case (Cons e logs)
  obtain t where "encode_row num e (fst (visit e)) (snd (visit e)) = t @ [CHR 0x0A]" "one_line t"
    using encode_row_line [of num] assms by blast
  then show ?case using Cons by (simp add: append_body_def count_one_line)
qed (simp add: append_body_def)

text \<open>The client is a storage.\<close>

interpretation vl_store: appender "client_append wd visit c" for wd visit c
  by unfold_locales (auto simp: client_append_def Let_def split: http_result.splits if_splits)

text \<open>
  C24: an append is all or nothing and one line per entry.  When \<^verbatim>\<open>Append\<close> reports success, the
  number it reports is the number of entries; the server has answered with a 2xx status to a
  request with exactly that many lines, whatever text the entries hold, and the bytes it
  reports are the length of that request's body.
\<close>

theorem append_all:
  assumes "client_append wd visit c logs = Inr (accepted, n)" and "logs \<noteq> []" and "\<And>s. one_line (wd_number wd s)"
  shows "accepted = int (length logs)
     \<and> (\<exists>body status answer broken. wd_do wd (append_request c body) = Http_answer status answer broken
          \<and> status div 100 = 2 \<and> n = int (length body) \<and> count_list body (CHR 0x0A) = length logs)"
proof -
  let ?body = "append_body (wd_number wd) visit logs"
  obtain status answer broken where "wd_do wd (append_request c ?body) = Http_answer status answer broken"
    "status div 100 = 2" "accepted = int (length logs)" "n = int (length ?body)"
    using assms(1,2) by (auto simp: client_append_def Let_def split: http_result.splits if_splits)
  then show ?thesis using count_append_body [of "wd_number wd", OF assms(3)] by blast
qed

section \<open>Queries\<close>

text \<open>What the server is asked.\<close>

lemma query_request_form: "rq_body (query_request c s) = ''query='' @ query_escape s"
proof -
  have "query_escape ''query'' = ''query''" by code_simp
  then show ?thesis by (simp add: query_request_def form_encode_def)
qed


section \<open>Spreadsheets\<close>

text \<open>A reader for one record of RFC 4180, and for the inside of a quoted field.\<close>

fun read_quoted :: "bytes \<Rightarrow> (bytes \<times> bytes) option" where
  "read_quoted [] = None"
| "read_quoted (c # s) =
     (if c = CHR 0x22 then
        (case s of
           d # t \<Rightarrow> if d = CHR 0x22 then map_option (\<lambda>(v, rest). (CHR 0x22 # v, rest)) (read_quoted t) else Some ([], s)
         | [] \<Rightarrow> Some ([], []))
      else map_option (\<lambda>(v, rest). (c # v, rest)) (read_quoted s))"

definition bare_char :: "char \<Rightarrow> bool" where
  "bare_char c \<longleftrightarrow> c \<noteq> CHR '','' \<and> c \<noteq> CHR 0x0A"

definition read_field :: "bytes \<Rightarrow> (bytes \<times> bytes) option" where
  "read_field s =
     (if has_prefix s [CHR 0x22] then read_quoted (tl s)
      else Some (takeWhile bare_char s, dropWhile bare_char s))"

function read_record :: "bytes \<Rightarrow> (bytes list \<times> bytes) option" where
  "read_record s =
     (case read_field s of
        None \<Rightarrow> None
      | Some (v, t) \<Rightarrow>
          (case t of
             [] \<Rightarrow> None
           | c # u \<Rightarrow>
               if c = CHR 0x0A then Some ([v], u)
               else if c = CHR '','' \<and> length u < length s
               then map_option (\<lambda>(vs, rest). (v # vs, rest)) (read_record u)
               else None))"
  by pat_completeness auto
termination
  by (relation "measure length") auto

declare read_record.simps [simp del]

abbreviation double_quotes :: "bytes \<Rightarrow> bytes" where
  "double_quotes s \<equiv> concat (map (\<lambda>c. if c = CHR 0x22 then [CHR 0x22, CHR 0x22] else [c]) s)"

lemma read_quoted_double:
  assumes "rest = [] \<or> hd rest \<noteq> CHR 0x22"
  shows "read_quoted (double_quotes s @ CHR 0x22 # rest) = Some (s, rest)"
proof (induction s)
  case Nil
  then show ?case using assms by (cases rest) simp_all
qed simp

lemma read_csv_field:
  assumes "c = CHR '','' \<or> c = CHR 0x0A"
  shows "read_field (csv_field s @ c # rest) = Some (s, c # rest)"
proof (cases "csv_needs_quotes s")
  case True
  then show ?thesis using assms by (auto simp: csv_field_def read_field_def has_prefix_def read_quoted_double)
next
  case False
  then have s: "CHR '','' \<notin> set s" "CHR 0x0A \<notin> set s" "CHR 0x22 \<notin> set s" by (auto simp: csv_needs_quotes_def)
  then have "takeWhile bare_char (s @ c # rest) = s" "dropWhile bare_char (s @ c # rest) = c # rest"
    using assms by (induction s) (auto simp: bare_char_def)
  moreover have "\<not> has_prefix (s @ c # rest) [CHR 0x22]" using s assms by (cases s) (auto simp: has_prefix_def)
  ultimately show ?thesis using False by (simp add: csv_field_def read_field_def)
qed

lemma csv_record_roundtrip: "cells \<noteq> [] \<Longrightarrow> read_record (csv_record cells @ rest) = Some (cells, rest)"
proof (induction cells)
  case (Cons s cells)
  show ?case
  proof (cases cells)
    case Nil
    then show ?thesis
      by (subst read_record.simps) (simp add: csv_record_def read_csv_field)
  next
    case (Cons t ts)
    then have "csv_record (s # cells) @ rest = csv_field s @ CHR '','' # csv_record cells @ rest"
      by (simp add: csv_record_def)
    then show ?thesis
      using Cons.IH Cons by (subst read_record.simps) (simp add: read_csv_field)
  qed
qed simp

lemma csv_cell_safe:
  "trim_left (csv_cell num v) [CHR '' '', CHR 0x09, CHR 0x0D, CHR 0x0A] = []
   \<or> hd (trim_left (csv_cell num v) [CHR '' '', CHR 0x09, CHR 0x0D, CHR 0x0A]) \<notin> set ''=+-@''"
  by (auto simp: csv_cell_def Let_def trim_left_def)

function read_records :: "bytes \<Rightarrow> bytes list list option" where
  "read_records s =
     (if s = [] then Some []
      else
        (case read_record s of
           None \<Rightarrow> None
         | Some (cells, rest) \<Rightarrow>
             if length rest < length s then map_option ((#) cells) (read_records rest) else None))"
  by pat_completeness auto
termination
  by (relation "measure length") auto

declare read_records.simps [simp del]

lemma read_records_concat:
  "list_all (\<lambda>cells. cells \<noteq> []) recs \<Longrightarrow> read_records (concat (map csv_record recs)) = Some recs"
proof (induction recs)
  case Nil
  show ?case by (subst read_records.simps) simp
next
  case (Cons cells recs)
  let ?rest = "concat (map csv_record recs)"
  have "read_record (csv_record cells @ ?rest) = Some (cells, ?rest)" using Cons.prems by (intro csv_record_roundtrip) simp
  moreover have "csv_record cells \<noteq> []" by (simp add: csv_record_def)
  ultimately show ?case using Cons by (subst read_records.simps) simp
qed

definition export_cells :: "(bytes \<Rightarrow> bytes) \<Rightarrow> row \<Rightarrow> bytes list" where
  "export_cells num r = map (\<lambda>k. csv_cell num (row_get r k)) export_columns"

lemma export_rows_csv:
  assumes "export_rows wd ''csv'' n read ls = Inr out"
  shows "\<exists>rows. map (wd_unmarshal wd) ls = map Some rows
     \<and> out = concat (map (\<lambda>r. csv_record (export_cells (wd_number wd) r)) rows)"
  using assms
proof (induction ls arbitrary: n read out)
  case (Cons l ls)
  obtain r where r: "wd_unmarshal wd l = Some r"
    using Cons.prems by (cases "wd_unmarshal wd l") (simp_all split: if_splits)
  obtain rest where rest: "export_rows wd ''csv'' (n + 1) (read + int (length l)) ls = Inr rest"
    using Cons.prems r by (cases "export_rows wd ''csv'' (n + 1) (read + int (length l)) ls") (simp_all split: if_splits)
  have "out = csv_record (export_cells (wd_number wd) r) @ rest"
    using Cons.prems r rest by (simp add: export_cells_def split: if_splits)
  moreover obtain rows where "map (wd_unmarshal wd) ls = map Some rows"
    "rest = concat (map (\<lambda>r. csv_record (export_cells (wd_number wd) r)) rows)"
    using Cons.IH [OF rest] by blast
  ultimately show ?case using r by (intro exI [of _ "r # rows"]) simp
qed simp

text \<open>A cell a spreadsheet takes for text.\<close>

definition no_formula :: "bytes \<Rightarrow> bool" where
  "no_formula cell \<longleftrightarrow>
     (case trim_left cell [CHR '' '', CHR 0x09, CHR 0x0D, CHR 0x0A] of [] \<Rightarrow> True | c # _ \<Rightarrow> c \<notin> set ''=+-@'')"

lemma csv_cell_no_formula: "no_formula (csv_cell num v)"
  using csv_cell_safe [of num v]
  by (cases "trim_left (csv_cell num v) [CHR '' '', CHR 0x09, CHR 0x0D, CHR 0x0A]") (simp_all add: no_formula_def)

text \<open>
  C33: a CSV export loses nothing and is safe to open.  If an export succeeds, its text reads
  back, record by record, as the column names and the five cells of each row the server sent,
  in order, whatever commas, quotes and line breaks they contain; there are at most 10000 rows, and no
  cell starts, after blanks, with a character that makes a spreadsheet take it for a formula.
\<close>

theorem csv_export:
  assumes "client_export wd early c q ''csv'' = Inr out"
  shows "\<exists>base body broken rows. logs_ql (wd_printable wd) (wd_number wd) (q\<lparr>lq_limit := 1000\<rparr>) = Inr base
     \<and> query_stream wd c (sorted_page base 10000) = Inr (body, broken)
     \<and> map (wd_unmarshal wd) (take 10000 (fst (scan_lines (4 * 2 ^ 20) body))) = map Some rows
     \<and> read_records out = Some (export_columns # map (export_cells (wd_number wd)) rows)
     \<and> length rows \<le> 10000 \<and> list_all (list_all no_formula) (map (export_cells (wd_number wd)) rows)"
proof -
  obtain base where b: "logs_ql (wd_printable wd) (wd_number wd) (q\<lparr>lq_limit := 1000\<rparr>) = Inr base"
    using assms by (simp add: client_export_def split: sum.splits)
  obtain body broken where st: "query_stream wd c (sorted_page base 10000) = Inr (body, broken)"
    using assms b by (simp add: client_export_def split: sum.splits) (metis prod.collapse)
  obtain ls long where sc: "scan_lines (4 * 2 ^ 20) body = (ls, long)" by fastforce
  obtain tx where e: "export_rows wd ''csv'' 0 0 (take 10000 ls) = Inr tx"
    using assms b st sc by (simp add: client_export_def split: sum.splits)
  have out: "out = csv_record export_columns @ tx"
    using assms b st sc e by (simp add: client_export_def split: if_splits)
  obtain rows where rows: "map (wd_unmarshal wd) (take 10000 ls) = map Some rows"
    "tx = concat (map (\<lambda>r. csv_record (export_cells (wd_number wd) r)) rows)"
    using export_rows_csv [OF e] by blast
  let ?recs = "export_columns # map (export_cells (wd_number wd)) rows"
  have "out = concat (map csv_record ?recs)" by (simp add: out rows(2) comp_def)
  moreover have "list_all (\<lambda>cells. cells \<noteq> []) ?recs" by (simp add: list_all_iff export_cells_def export_columns_def)
  ultimately have "read_records out = Some ?recs" using read_records_concat by blast
  moreover have "length rows \<le> 10000" using arg_cong [OF rows(1), of length] by simp
  moreover have "list_all (list_all no_formula) (map (export_cells (wd_number wd)) rows)"
    by (simp add: list_all_iff export_cells_def csv_cell_no_formula)
  moreover have "fst (scan_lines (4 * 2 ^ 20) body) = ls" by (simp only: sc fst_conv)
  ultimately show ?thesis using b st rows(1) by blast
qed

section \<open>Witnesses\<close>

definition sample_world :: "bytes \<Rightarrow> world" where
  "sample_world answer = \<lparr>wd_do = (\<lambda>_. Http_answer 200 answer False),
     wd_unmarshal = (\<lambda>l. Some [(''_time'', AStr l), (''hostname'', AStr ''=h'')]), wd_printable = (\<lambda>_. True),
     wd_number = (\<lambda>_. ''1'')\<rparr>"

definition sample_client :: client where
  "sample_client = \<lparr>cl_endpoint = \<lparr>ur_scheme = ''http'', ur_host = ''vl:9428'', ur_path = []\<rparr>, cl_stream_fields = []\<rparr>"

theorem append_all_witness:
  "\<exists>n body. client_append (sample_world []) (\<lambda>_. ([], [])) sample_client [sample_entry ''a'', sample_entry ''b''] = Inr (2, n)
     \<and> n = int (length body) \<and> count_list body (CHR 0x0A) = 2"
proof -
  obtain n where n: "client_append (sample_world []) (\<lambda>_. ([], [])) sample_client [sample_entry ''a'', sample_entry ''b''] = Inr (2, n)"
    by (simp add: client_append_def sample_world_def Let_def)
  have "\<And>s. one_line (wd_number (sample_world []) s)" by (simp add: sample_world_def)
  from append_all [OF n _ this] n show ?thesis by auto
qed


theorem csv_export_witness:
  "\<exists>out. client_export (sample_world [CHR ''a'', CHR 0x0A]) False sample_client sample_query ''csv'' = Inr out
     \<and> (\<exists>rows. read_records out = Some (export_columns # map (export_cells (\<lambda>_. ''1'')) rows) \<and> length rows \<le> 10000)"
proof -
  have "case client_export (sample_world [CHR ''a'', CHR 0x0A]) False sample_client sample_query ''csv'' of
      Inl _ \<Rightarrow> False | Inr out \<Rightarrow> True"
    by code_simp
  then obtain out where "client_export (sample_world [CHR ''a'', CHR 0x0A]) False sample_client sample_query ''csv'' = Inr out"
    by (auto split: sum.splits)
  with csv_export [OF this] show ?thesis by (auto simp: sample_world_def)
qed

end
