(* ===== verification/Auth.thy ===== *)
theory Auth
  imports Go_Quote Go_Time
begin

text \<open>
  \<^verbatim>\<open>backend/internal/api/auth.go\<close>: sessions, the login and logout handlers and the middleware in
  front of the API.  The password hash is a parameter; a request is given by its path and its
  session cookie, the clock and the random bytes of a token are arguments.

  Shown are that the API is reached only with a token that a successful login issued less
  than twelve hours before and that has not been logged out since, and what happens to
  passwords the hash refuses.
\<close>

section \<open>Definitions\<close>

record session =
  ss_user :: bytes
  ss_role :: bytes
  ss_expires :: instant

record auth_manager =
  am_enabled :: bool
  am_hash :: bytes
  am_sessions :: "bytes \<rightharpoonup> session"

text \<open>The environment variable is empty when it is not set; the error of the hash is ignored.\<close>

definition new_auth_manager :: "(bytes \<Rightarrow> bytes option) \<Rightarrow> bytes \<Rightarrow> auth_manager" where
  "new_auth_manager generate p =
     \<lparr>am_enabled = (p \<noteq> []),
      am_hash = (if p \<noteq> [] then (case generate p of None \<Rightarrow> [] | Some h \<Rightarrow> h) else []),
      am_sessions = Map.empty\<rparr>"

definition issue :: "auth_manager \<Rightarrow> bytes \<Rightarrow> instant \<Rightarrow> auth_manager \<times> bytes" where
  "issue a random now =
     (let t = base64_encode random in
      (a\<lparr>am_sessions := (am_sessions a)(t \<mapsto>
           \<lparr>ss_user = ''admin'', ss_role = ''admin'', ss_expires = now + 12 * hour\<rparr>)\<rparr>, t))"

definition get_session :: "auth_manager \<Rightarrow> bytes option \<Rightarrow> instant \<Rightarrow> session option" where
  "get_session a cookie now =
     (if \<not> am_enabled a
      then Some \<lparr>ss_user = ''development'', ss_role = ''admin'', ss_expires = now + hour\<rparr>
      else
        (case cookie of
           None \<Rightarrow> None
         | Some c \<Rightarrow>
             (case am_sessions a c of
                None \<Rightarrow> None
              | Some s \<Rightarrow> if now < ss_expires s then Some s else None)))"

text \<open>
  \<^verbatim>\<open>login\<close> with the decoded body, \<^term>\<open>None\<close> if it does not decode; the answer is the token of the
  cookie, or \<^term>\<open>None\<close> for status 401.
\<close>

definition login ::
  "(bytes \<Rightarrow> bytes \<Rightarrow> bool) \<Rightarrow> auth_manager \<Rightarrow> (bytes \<times> bytes) option \<Rightarrow> bytes \<Rightarrow> instant
   \<Rightarrow> auth_manager \<times> bytes option" where
  "login compare a body random now =
     (case body of
        None \<Rightarrow> (a, None)
      | Some (username, password) \<Rightarrow>
          if username \<noteq> ''admin'' \<or> \<not> am_enabled a \<or> \<not> compare (am_hash a) password then (a, None)
          else (case issue a random now of (a', t) \<Rightarrow> (a', Some t)))"

definition logout :: "auth_manager \<Rightarrow> bytes option \<Rightarrow> auth_manager" where
  "logout a cookie =
     (case cookie of None \<Rightarrow> a | Some c \<Rightarrow> a\<lparr>am_sessions := (am_sessions a)(c := None)\<rparr>)"

text \<open>\<^verbatim>\<open>me\<close>: the user, the role and whether logins are on, or status 401.\<close>

definition me :: "auth_manager \<Rightarrow> bytes option \<Rightarrow> instant \<Rightarrow> (bytes \<times> bytes \<times> bool) option" where
  "me a cookie now = map_option (\<lambda>s. (ss_user s, ss_role s, am_enabled a)) (get_session a cookie now)"

text \<open>\<^verbatim>\<open>authMiddleware\<close>: whether a request goes on to its handler.\<close>

definition admits :: "auth_manager \<Rightarrow> bytes \<Rightarrow> bytes option \<Rightarrow> instant \<Rightarrow> bool" where
  "admits a path cookie now \<longleftrightarrow>
     \<not> am_enabled a \<or> path = ''/api/v1/auth/login'' \<or> \<not> has_prefix path ''/api/''
     \<or> get_session a cookie now \<noteq> None"

subsection \<open>Histories\<close>

text \<open>
  What changes the sessions: an attempt to log in, with what was sent, the random bytes and the
  time, and a logout, which the middleware lets through only with a session.
\<close>

datatype auth_event =
    Login "(bytes \<times> bytes) option" bytes instant
  | Logout "bytes option" instant

fun auth_step :: "(bytes \<Rightarrow> bytes \<Rightarrow> bool) \<Rightarrow> auth_event \<Rightarrow> auth_manager \<Rightarrow> auth_manager" where
  "auth_step compare (Login body random now) a = fst (login compare a body random now)"
| "auth_step compare (Logout cookie now) a =
     (if admits a ''/api/v1/auth/logout'' cookie now then logout a cookie else a)"

definition auth_run :: "(bytes \<Rightarrow> bytes \<Rightarrow> bool) \<Rightarrow> auth_event list \<Rightarrow> auth_manager \<Rightarrow> auth_manager" where
  "auth_run compare es a = fold (auth_step compare) es a"

section \<open>Sessions\<close>

lemma auth_step_static [simp]:
  "am_enabled (auth_step compare e a) = am_enabled a" "am_hash (auth_step compare e a) = am_hash a"
  by (cases e; simp add: login_def issue_def logout_def Let_def split: option.splits prod.splits)+

lemma auth_run_static [simp]:
  "am_enabled (auth_run compare es a) = am_enabled a" "am_hash (auth_run compare es a) = am_hash a"
  by (induction es arbitrary: a) (simp_all add: auth_run_def)

lemma auth_run_snoc: "auth_run compare (es @ [e]) a = auth_step compare e (auth_run compare es a)"
  by (simp add: auth_run_def)

text \<open>The login that a session goes back to.\<close>

definition issued_by :: "(bytes \<Rightarrow> bytes \<Rightarrow> bool) \<Rightarrow> bytes \<Rightarrow> bytes \<Rightarrow> instant \<Rightarrow> auth_event \<Rightarrow> bool" where
  "issued_by compare hash t expires e \<longleftrightarrow>
     (\<exists>password random now. e = Login (Some (''admin'', password)) random now
        \<and> compare hash password \<and> t = base64_encode random \<and> expires = now + 12 * hour)"

lemma session_origin:
  assumes "am_sessions a = Map.empty" and "am_enabled a" and "am_sessions (auth_run compare es a) t = Some s"
  shows "\<exists>i < length es. issued_by compare (am_hash a) t (ss_expires s) (es ! i)
     \<and> (\<forall>j. i < j \<and> j < length es \<longrightarrow> (\<forall>now. es ! j = Logout (Some t) now
          \<longrightarrow> \<not> admits (auth_run compare (take j es) a) ''/api/v1/auth/logout'' (Some t) now))"
  using assms(3)
proof (induction es arbitrary: s rule: rev_induct)
  case Nil
  then show ?case using assms(1) by (simp add: auth_run_def)
next
  case (snoc e es)
  let ?a = "auth_run compare es a"
  show ?case
  proof (cases "issued_by compare (am_hash a) t (ss_expires s) e")
    case True
    then show ?thesis by (intro exI [of _ "length es"]) (auto simp: nth_append)
  next
    case False
    have old: "am_sessions ?a t = Some s \<and> (\<forall>now. e = Logout (Some t) now \<longrightarrow> \<not> admits ?a ''/api/v1/auth/logout'' (Some t) now)"
    proof (cases e)
      case (Login body random now)
      then show ?thesis
        using snoc.prems False
        by (auto simp: auth_run_snoc login_def issue_def issued_by_def Let_def split: option.splits if_splits prod.splits)
    next
      case (Logout cookie now)
      then show ?thesis
        using snoc.prems by (auto simp: auth_run_snoc logout_def split: option.splits if_splits)
    qed
    then obtain i where i: "i < length es" "issued_by compare (am_hash a) t (ss_expires s) (es ! i)"
      and l: "\<forall>j. i < j \<and> j < length es \<longrightarrow> (\<forall>now. es ! j = Logout (Some t) now
          \<longrightarrow> \<not> admits (auth_run compare (take j es) a) ''/api/v1/auth/logout'' (Some t) now)"
      using snoc.IH by blast
    show ?thesis
    proof (intro exI [of _ i] conjI allI impI)
      fix j now
      assume j: "i < j \<and> j < length (es @ [e])" and e: "(es @ [e]) ! j = Logout (Some t) now"
      show "\<not> admits (auth_run compare (take j (es @ [e])) a) ''/api/v1/auth/logout'' (Some t) now"
        using j e l old by (cases "j < length es") (auto simp: nth_append less_Suc_eq)
    qed (use i in \<open>simp_all add: nth_append\<close>)
  qed
qed

lemma admitted_session:
  assumes "admits a path cookie now" and "has_prefix path ''/api/''" and "path \<noteq> ''/api/v1/auth/login''" and "am_enabled a"
  shows "\<exists>t s. cookie = Some t \<and> am_sessions a t = Some s \<and> now < ss_expires s"
  using assms by (auto simp: admits_def get_session_def split: option.splits if_splits)

text \<open>
  C10: no access without a login.  With a password set, after any history of logins and
  logouts, a request for anything under \<^verbatim>\<open>/api/\<close> but the login itself reaches its handler only
  if it carries a token that a login as \<^verbatim>\<open>admin\<close> with an accepted password has issued less
  than twelve hours ago, and no logout with that token has taken effect since.
\<close>

theorem session_required:
  assumes "p \<noteq> []" and "a = auth_run compare es (new_auth_manager generate p)"
    and "admits a path cookie now" and "has_prefix path ''/api/''" and "path \<noteq> ''/api/v1/auth/login''"
  shows "\<exists>t i password random at. cookie = Some t \<and> i < length es
     \<and> es ! i = Login (Some (''admin'', password)) random at \<and> t = base64_encode random
     \<and> compare (am_hash a) password \<and> now < at + 12 * hour
     \<and> (\<forall>j at'. i < j \<and> j < length es \<and> es ! j = Logout (Some t) at' \<longrightarrow>
          \<not> admits (auth_run compare (take j es) (new_auth_manager generate p)) ''/api/v1/auth/logout'' (Some t) at')"
proof -
  let ?a0 = "new_auth_manager generate p"
  have a0: "am_sessions ?a0 = Map.empty" "am_enabled ?a0" using assms(1) by (simp_all add: new_auth_manager_def)
  obtain t s where t: "cookie = Some t" "am_sessions a t = Some s" "now < ss_expires s"
    using admitted_session [OF assms(3-5)] assms(2) a0(2) by auto
  then show ?thesis
    using session_origin [OF a0, of compare es t s] assms(2) by (auto simp: issued_by_def)
qed

text \<open>
  A password the hash function refuses (\<^verbatim>\<open>bcrypt\<close> refuses more than 72 bytes) turns logins on and
  leaves an empty hash behind, which no password matches: nobody can log in.
\<close>

theorem refused_password_locks_out:
  assumes "generate p = None" and "p \<noteq> []" and "\<And>q. \<not> compare [] q"
    and "a = auth_run compare es (new_auth_manager generate p)" and "has_prefix path ''/api/''"
    and "path \<noteq> ''/api/v1/auth/login''"
  shows "\<not> admits a path cookie now"
proof
  assume admitted: "admits a path cookie now"
  let ?a0 = "new_auth_manager generate p"
  have a0: "am_sessions ?a0 = Map.empty" "am_enabled ?a0" "am_hash ?a0 = []"
    using assms(1,2) by (simp_all add: new_auth_manager_def)
  obtain t s where "am_sessions a t = Some s"
    using admitted_session [OF admitted assms(5,6)] assms(4) a0(2) by auto
  then show False
    using session_origin [OF a0(1,2), of compare es t s] assms(3,4) a0(3) by (auto simp: issued_by_def)
qed

section \<open>Witnesses\<close>

definition sample_login :: auth_event where
  "sample_login = Login (Some (''admin'', ''pw'')) (replicate 32 (CHR ''k'')) 0"

theorem session_required_witness:
  "\<exists>password at. sample_login = Login (Some (''admin'', password)) (replicate 32 (CHR ''k'')) at \<and> password = ''pw'' \<and> 5 < at + 12 * hour"
proof -
  let ?a = "auth_run (=) [sample_login] (new_auth_manager Some ''pw'')"
  let ?t = "base64_encode (replicate 32 (CHR ''k''))"
  have "admits ?a ''/api/v1/sources'' (Some ?t) 5" by code_simp
  moreover have "has_prefix ''/api/v1/sources'' ''/api/''" by (simp add: has_prefix_def)
  moreover have "am_hash ?a = ''pw''" by (simp add: new_auth_manager_def)
  ultimately show ?thesis
    using session_required [of "''pw''" ?a "(=)" "[sample_login]" Some "''/api/v1/sources''" "Some ?t" 5]
    by (auto simp: sample_login_def)
qed

end
