(* ===== verification/Saved_Searches.thy ===== *)
theory Saved_Searches
  imports Auth Config
begin

text \<open>
  Saved searches: \<^verbatim>\<open>backend/internal/controlstore/saved_search.go\<close>, the PostgreSQL store of
  \<^verbatim>\<open>controlstore/postgres\<close>, and the handlers of \<^verbatim>\<open>api/saved.go\<close> with the store in memory; and the
  list of sources of \<^verbatim>\<open>api/sources.go\<close>.

  The table of the database is a list of rows without order; each SQL statement of the store is
  an operation on it, and a flag says whether the database fails.  The interface both stores
  implement is a locale, in which the separation of owners is shown once.
\<close>

section \<open>Definitions\<close>

record saved_search =
  sv_id :: bytes
  sv_name :: bytes
  sv_description :: bytes
  sv_query :: bytes
  sv_default_range :: bytes
  sv_created_by :: bytes
  sv_created_at :: instant
  sv_updated_at :: instant

text \<open>Insertion by a strict order, keeping the order of ties, and the order of the lists.\<close>

fun insert_by :: "('a \<Rightarrow> 'a \<Rightarrow> bool) \<Rightarrow> 'a \<Rightarrow> 'a list \<Rightarrow> 'a list" where
  "insert_by lt x [] = [x]"
| "insert_by lt x (y # ys) = (if lt y x then y # insert_by lt x ys else x # y # ys)"

definition sort_by :: "('a \<Rightarrow> 'a \<Rightarrow> bool) \<Rightarrow> 'a list \<Rightarrow> 'a list" where
  "sort_by lt xs = foldr (insert_by lt) xs []"

subsection \<open>The store in memory\<close>

text \<open>
  \<^verbatim>\<open>s.saved\<close> as a list with one entry per id: the order in which Go happens to visit the map, which
  with \<^verbatim>\<open>sort.Slice\<close> decides the order of equal names.
\<close>

type_synonym memory_store = "(bytes \<times> saved_search) list"

definition name_less :: "(bytes \<Rightarrow> bytes \<Rightarrow> bool) \<Rightarrow> saved_search \<Rightarrow> saved_search \<Rightarrow> bool" where
  "name_less lt v w \<longleftrightarrow> lt (sv_name v) (sv_name w)"

definition memory_list :: "(bytes \<Rightarrow> bytes \<Rightarrow> bool) \<Rightarrow> memory_store \<Rightarrow> bytes \<Rightarrow> saved_search list" where
  "memory_list lt m owner =
     sort_by (name_less lt) (filter (\<lambda>v. sv_created_by v = owner) (map snd m))"

definition memory_create :: "memory_store \<Rightarrow> saved_search \<Rightarrow> memory_store" where
  "memory_create m v = (sv_id v, v) # filter (\<lambda>kv. fst kv \<noteq> sv_id v) m"

definition memory_delete :: "memory_store \<Rightarrow> bytes \<Rightarrow> bytes \<Rightarrow> memory_store \<times> bool" where
  "memory_delete m owner ident =
     (case map_of m ident of
        None \<Rightarrow> (m, False)
      | Some v \<Rightarrow>
          if sv_created_by v = owner then (filter (\<lambda>kv. fst kv \<noteq> ident) m, True) else (m, False))"

subsection \<open>The store in PostgreSQL\<close>

text \<open>
  The table \<^verbatim>\<open>saved_searches\<close> with its primary key.  \<open>collate\<close> is the order of the database's
  collation; \<open>fails\<close> says whether the statement ends with an error.
\<close>

type_synonym table = "saved_search list"

definition name_id_less :: "(bytes \<Rightarrow> bytes \<Rightarrow> bool) \<Rightarrow> saved_search \<Rightarrow> saved_search \<Rightarrow> bool" where
  "name_id_less collate v w \<longleftrightarrow>
     collate (sv_name v) (sv_name w) \<or> \<not> collate (sv_name w) (sv_name v) \<and> collate (sv_id v) (sv_id w)"

definition list_saved_searches ::
  "(bytes \<Rightarrow> bytes \<Rightarrow> bool) \<Rightarrow> bool \<Rightarrow> table \<Rightarrow> bytes \<Rightarrow> saved_search list option" where
  "list_saved_searches collate fails t owner =
     (if fails then None
      else Some (sort_by (name_id_less collate) (filter (\<lambda>v. sv_created_by v = owner) t)))"

definition create_saved_search :: "bool \<Rightarrow> table \<Rightarrow> saved_search \<Rightarrow> table option" where
  "create_saved_search fails t v =
     (if fails \<or> list_ex (\<lambda>w. sv_id w = sv_id v) t then None else Some (v # t))"

definition delete_saved_search :: "bool \<Rightarrow> table \<Rightarrow> bytes \<Rightarrow> bytes \<Rightarrow> (table \<times> bool) option" where
  "delete_saved_search fails t owner ident =
     (if fails then None
      else Some (filter (\<lambda>v. \<not> (sv_id v = ident \<and> sv_created_by v = owner)) t,
                 list_ex (\<lambda>v. sv_id v = ident \<and> sv_created_by v = owner) t))"

subsection \<open>The handlers\<close>

text \<open>A store as the handlers use it: \<^term>\<open>None\<close> is an error, answered with status 503.\<close>

record 's store_ops =
  so_list :: "'s \<Rightarrow> bytes \<Rightarrow> saved_search list option"
  so_create :: "'s \<Rightarrow> saved_search \<Rightarrow> 's option"
  so_delete :: "'s \<Rightarrow> bytes \<Rightarrow> bytes \<Rightarrow> ('s \<times> bool) option"

definition memory_ops :: "(bytes \<Rightarrow> bytes \<Rightarrow> bool) \<Rightarrow> memory_store store_ops" where
  "memory_ops lt =
     \<lparr>so_list = (\<lambda>m owner. Some (memory_list lt m owner)), so_create = (\<lambda>m v. Some (memory_create m v)),
      so_delete = (\<lambda>m owner ident. Some (memory_delete m owner ident))\<rparr>"

definition postgres_ops :: "(bytes \<Rightarrow> bytes \<Rightarrow> bool) \<Rightarrow> bool \<Rightarrow> table store_ops" where
  "postgres_ops collate fails =
     \<lparr>so_list = list_saved_searches collate fails, so_create = create_saved_search fails,
      so_delete = delete_saved_search fails\<rparr>"

text \<open>The user a handler acts for; without a session the user is empty.\<close>

definition owner_of :: "auth_manager \<Rightarrow> bytes option \<Rightarrow> instant \<Rightarrow> bytes" where
  "owner_of a cookie now = (case get_session a cookie now of None \<Rightarrow> [] | Some s \<Rightarrow> ss_user s)"

definition list_saved :: "'s store_ops \<Rightarrow> 's \<Rightarrow> bytes \<Rightarrow> int \<times> saved_search list" where
  "list_saved ops s owner = (case so_list ops s owner of None \<Rightarrow> (503, []) | Some vs \<Rightarrow> (200, vs))"

text \<open>\<^verbatim>\<open>createSaved\<close> on the decoded body and the 16 random bytes, \<^term>\<open>None\<close> where they fail.\<close>

definition saved_valid :: "saved_search \<Rightarrow> bool" where
  "saved_valid v \<longleftrightarrow>
     trim_space (sv_name v) \<noteq> [] \<and> length (sv_name v) \<le> 120 \<and> length (sv_description v) \<le> 1024
     \<and> length (sv_query v) \<le> 4096 \<and> length (sv_default_range v) \<le> 32"

definition new_saved :: "saved_search \<Rightarrow> u8 list \<Rightarrow> bytes \<Rightarrow> instant \<Rightarrow> saved_search" where
  "new_saved v random owner now =
     v\<lparr>sv_id := hex_encode random, sv_created_by := owner, sv_created_at := now, sv_updated_at := now,
       sv_default_range := (if sv_default_range v = [] then ''1h'' else sv_default_range v)\<rparr>"

definition create_saved ::
  "'s store_ops \<Rightarrow> 's \<Rightarrow> saved_search option \<Rightarrow> u8 list option \<Rightarrow> bytes \<Rightarrow> instant \<Rightarrow> 's \<times> int" where
  "create_saved ops s body random owner now =
     (case body of
        None \<Rightarrow> (s, 400)
      | Some v \<Rightarrow>
          if \<not> saved_valid v then (s, 400)
          else
            (case random of
               None \<Rightarrow> (s, 500)
             | Some bs \<Rightarrow>
                 (case so_create ops s (new_saved v bs owner now) of
                    None \<Rightarrow> (s, 503)
                  | Some s' \<Rightarrow> (s', 201))))"

definition delete_saved :: "'s store_ops \<Rightarrow> 's \<Rightarrow> bytes \<Rightarrow> bytes \<Rightarrow> 's \<times> int" where
  "delete_saved ops s owner ident =
     (case so_delete ops s owner ident of
        None \<Rightarrow> (s, 503)
      | Some (s', found) \<Rightarrow> if found then (s', 204) else (s', 404))"

subsection \<open>Sources\<close>

record source_view =
  vw_id :: bytes
  vw_name :: bytes
  vw_protocol :: bytes
  vw_address :: bytes
  vw_parser :: bytes
  vw_enabled :: bool
  vw_status :: bytes

definition view_source :: "bool \<Rightarrow> source_config \<Rightarrow> source_view" where
  "view_source accepting src =
     \<lparr>vw_id = sc_id src, vw_name = sc_name src, vw_protocol = sc_protocol src, vw_address = sc_address src,
      vw_parser = sc_parser src, vw_enabled = sc_enabled src,
      vw_status = (if \<not> sc_enabled src then ''disabled'' else if accepting then ''running'' else ''draining'')\<rparr>"

definition list_sources :: "bool \<Rightarrow> bytes \<Rightarrow> source_config list \<Rightarrow> source_view list" where
  "list_sources accepting http_address sources =
     map (view_source accepting) sources
     @ [\<lparr>vw_id = ''http-json'', vw_name = ''HTTP JSON'', vw_protocol = ''http'', vw_address = http_address,
         vw_parser = ''json'', vw_enabled = True, vw_status = ''running''\<rparr>]"

section \<open>The interface\<close>

text \<open>Calls that change a store, and whose they are.\<close>

datatype saved_call =
    Create_call "saved_search option" "u8 list option" bytes instant
  | Delete_call bytes bytes

fun caller :: "saved_call \<Rightarrow> bytes" where
  "caller (Create_call body random owner now) = owner"
| "caller (Delete_call owner ident) = owner"

fun saved_step :: "'s store_ops \<Rightarrow> saved_call \<Rightarrow> 's \<Rightarrow> 's" where
  "saved_step ops (Create_call body random owner now) s = fst (create_saved ops s body random owner now)"
| "saved_step ops (Delete_call owner ident) s = fst (delete_saved ops s owner ident)"

fun saved_run :: "'s store_ops \<Rightarrow> saved_call list \<Rightarrow> 's \<Rightarrow> 's" where
  "saved_run ops [] s = s"
| "saved_run ops (call # calls) s = saved_run ops calls (saved_step ops call s)"

text \<open>The random ids of the calls are not in use when they are drawn.\<close>

fun fresh_ids :: "'s store_ops \<Rightarrow> ('s \<Rightarrow> bytes \<rightharpoonup> saved_search) \<Rightarrow> saved_call list \<Rightarrow> 's \<Rightarrow> bool" where
  "fresh_ids ops contents [] s \<longleftrightarrow> True"
| "fresh_ids ops contents (call # calls) s \<longleftrightarrow>
     (case call of
        Create_call body (Some bs) owner now \<Rightarrow> contents s (hex_encode bs) = None
      | _ \<Rightarrow> True)
     \<and> fresh_ids ops contents calls (saved_step ops call s)"

text \<open>
  A store of saved searches, seen as a map from ids: listing shows exactly an owner's searches,
  creating adds one under a new id, deleting removes one of the owner's and nothing else, and an
  error changes nothing.
\<close>

locale saved_store =
  fixes ops :: "'s store_ops" and store_inv :: "'s \<Rightarrow> bool" and contents :: "'s \<Rightarrow> bytes \<rightharpoonup> saved_search"
  assumes list_law: "store_inv s \<Longrightarrow> so_list ops s owner = Some vs \<Longrightarrow>
      distinct vs \<and> set vs = {v \<in> ran (contents s). sv_created_by v = owner}"
    and create_law: "store_inv s \<Longrightarrow> contents s (sv_id v) = None \<Longrightarrow> so_create ops s v = Some s' \<Longrightarrow>
      store_inv s' \<and> contents s' = (contents s)(sv_id v \<mapsto> v)"
    and delete_law: "store_inv s \<Longrightarrow> so_delete ops s owner ident = Some (s', found) \<Longrightarrow>
      store_inv s'
      \<and> (found \<longleftrightarrow> (\<exists>v. contents s ident = Some v \<and> sv_created_by v = owner))
      \<and> contents s' = (if found then (contents s)(ident := None) else contents s)"
begin

text \<open>What a handler call by \<open>owner\<close> leaves alone.\<close>

lemma delete_foreign:
  assumes "store_inv s" and "delete_saved ops s owner ident = (s', status)"
  shows "store_inv s'
     \<and> (status = 204 \<longrightarrow> (\<exists>v. contents s ident = Some v \<and> sv_created_by v = owner) \<and> contents s' = (contents s)(ident := None))
     \<and> (status \<noteq> 204 \<longrightarrow> contents s' = contents s)"
proof (cases "so_delete ops s owner ident")
  case None
  then show ?thesis using assms by (auto simp: delete_saved_def)
next
  case (Some r)
  obtain s1 found where r: "r = (s1, found)" by fastforce
  then show ?thesis
    using delete_law [OF assms(1), of owner ident s1 found] Some assms(2)
    by (cases found) (auto simp: delete_saved_def)
qed

lemma create_own:
  assumes "store_inv s" and "create_saved ops s body random owner now = (s', status)"
    and "\<And>bs. random = Some bs \<Longrightarrow> contents s (hex_encode bs) = None"
  shows "store_inv s'
     \<and> (status = 201 \<longrightarrow> (\<exists>v. sv_created_by v = owner \<and> saved_valid (v\<lparr>sv_default_range := []\<rparr>)
          \<and> contents s (sv_id v) = None \<and> contents s' = (contents s)(sv_id v \<mapsto> v)))
     \<and> (status \<noteq> 201 \<longrightarrow> contents s' = contents s)"
proof -
  consider (none) "s' = s" "status \<noteq> 201"
    | (made) v bs where "saved_valid v" "random = Some bs" "so_create ops s (new_saved v bs owner now) = Some s'" "status = 201"
    using assms(2) by (auto simp: create_saved_def split: option.splits if_splits)
  then show ?thesis
  proof cases
    case none
    then show ?thesis using assms(1) by simp
  next
    case (made v bs)
    let ?v = "new_saved v bs owner now"
    have idv: "sv_id ?v = hex_encode bs" "sv_created_by ?v = owner" by (simp_all add: new_saved_def)
    have fresh: "contents s (sv_id ?v) = None" using assms(3) made(2) idv by simp
    have "saved_valid (?v\<lparr>sv_default_range := []\<rparr>)" using made(1) by (simp add: saved_valid_def new_saved_def)
    then show ?thesis using create_law [OF assms(1) fresh made(3)] idv fresh made(4) by auto
  qed
qed

text \<open>The searches of one owner.\<close>

definition owned :: "'s \<Rightarrow> bytes \<Rightarrow> saved_search set" where
  "owned s owner = {v \<in> ran (contents s). sv_created_by v = owner}"

lemma delete_separates:
  assumes "store_inv s" and "delete_saved ops s owner ident = (s', status)" and "other \<noteq> owner"
  shows "owned s' other = owned s other"
proof -
  note d = delete_foreign [OF assms(1,2)]
  show ?thesis
  proof (cases "status = 204")
    case True
    then obtain v where v: "contents s ident = Some v" "sv_created_by v = owner" "contents s' = (contents s)(ident := None)"
      using d by blast
    have "w \<in> ran ((contents s)(ident := None)) \<longleftrightarrow> w \<in> ran (contents s)" if "sv_created_by w = other" for w
    proof -
      have "contents s k = Some w \<Longrightarrow> k \<noteq> ident" for k using that v(1,2) assms(3) by auto
      then show ?thesis by (auto simp: ran_def)
    qed
    then show ?thesis by (auto simp: owned_def v(3))
  qed (use d in \<open>simp add: owned_def\<close>)
qed

lemma create_separates:
  assumes "store_inv s" and "create_saved ops s body random owner now = (s', status)" and "other \<noteq> owner"
    and "\<And>bs. random = Some bs \<Longrightarrow> contents s (hex_encode bs) = None"
  shows "owned s' other = owned s other"
proof -
  note c = create_own [OF assms(1,2,4)]
  show ?thesis
  proof (cases "status = 201")
    case True
    then obtain v where v: "sv_created_by v = owner" "contents s (sv_id v) = None" "contents s' = (contents s)(sv_id v \<mapsto> v)"
      using c by blast
    then show ?thesis using assms(3) by (auto simp: owned_def ran_map_upd)
  qed (use c in \<open>simp add: owned_def\<close>)
qed

text \<open>Calls of other users, in any number.\<close>

lemma calls_separate:
  assumes "store_inv s" and "list_all (\<lambda>call. caller call \<noteq> other) calls" and "fresh_ids ops contents calls s"
  shows "store_inv (saved_run ops calls s) \<and> owned (saved_run ops calls s) other = owned s other"
  using assms
proof (induction calls arbitrary: s)
  case (Cons call calls)
  have s: "saved_run ops (call # calls) s = saved_run ops calls (saved_step ops call s)" by simp
  have "store_inv (saved_step ops call s) \<and> owned (saved_step ops call s) other = owned s other"
  proof (cases call)
    case (Create_call body random owner now)
    obtain s' status where c: "create_saved ops s body random owner now = (s', status)" by fastforce
    have "\<And>bs. random = Some bs \<Longrightarrow> contents s (hex_encode bs) = None" using Cons.prems(3) Create_call by simp
    then show ?thesis
      using create_own [OF Cons.prems(1) c] create_separates [OF Cons.prems(1) c] Cons.prems(2) Create_call c by auto
  next
    case (Delete_call owner ident)
    obtain s' status where d: "delete_saved ops s owner ident = (s', status)" by fastforce
    then show ?thesis
      using delete_foreign [OF Cons.prems(1) d] delete_separates [OF Cons.prems(1) d] Cons.prems(2) Delete_call by auto
  qed
  moreover have "fresh_ids ops contents calls (saved_step ops call s)" using Cons.prems(3) by (cases call) simp_all
  ultimately show ?case using Cons.IH [of "saved_step ops call s"] Cons.prems(2) unfolding s by simp
qed simp

lemma listing_separate:
  assumes "store_inv s" and "list_all (\<lambda>call. caller call \<noteq> other) calls" and "fresh_ids ops contents calls s"
    and "so_list ops s other = Some vs" and "so_list ops (saved_run ops calls s) other = Some ws"
  shows "set ws = set vs"
  using calls_separate [OF assms(1-3)] list_law [OF _ assms(5)] list_law [OF assms(1,4)] by (simp add: owned_def)

end

section \<open>Both stores implement the interface\<close>

lemma insert_by_set [simp]: "set (insert_by lt x xs) = insert x (set xs)"
  by (induction xs) auto

lemma insert_by_distinct [simp]: "distinct (insert_by lt x xs) \<longleftrightarrow> x \<notin> set xs \<and> distinct xs"
  by (induction xs) auto

lemma sort_by_set [simp]: "set (sort_by lt xs) = set xs"
  by (induction xs) (simp_all add: sort_by_def)

lemma sort_by_distinct [simp]: "distinct (sort_by lt xs) = distinct xs"
  by (induction xs) (simp_all add: sort_by_def sort_by_set [unfolded sort_by_def])

definition memory_inv :: "memory_store \<Rightarrow> bool" where
  "memory_inv m \<longleftrightarrow> distinct (map fst m) \<and> list_all (\<lambda>kv. fst kv = sv_id (snd kv)) m"

lemma distinct_snd: "memory_inv m \<Longrightarrow> distinct (map snd m)"
proof -
  assume m: "memory_inv m"
  then have "map sv_id (map snd m) = map fst m" by (simp add: memory_inv_def list_all_iff)
  then show ?thesis using m by (metis distinct_map memory_inv_def)
qed

lemma ran_map_of: "distinct (map fst m) \<Longrightarrow> ran (map_of m) = snd ` set m"
  by (rule ran_distinct)

lemma map_of_filter_key: "map_of (filter (\<lambda>kv. fst kv \<noteq> k) m) = (map_of m)(k := None)"
  by (induction m) (auto simp: fun_eq_iff)

interpretation memory: saved_store "memory_ops lt" memory_inv map_of for lt
proof
  fix s owner vs
  assume s: "memory_inv s" "so_list (memory_ops lt) s owner = Some vs"
  then have "vs = memory_list lt s owner" by (simp add: memory_ops_def)
  moreover have "ran (map_of s) = set (map snd s)" using s(1) by (simp add: memory_inv_def ran_map_of)
  ultimately show "distinct vs \<and> set vs = {v \<in> ran (map_of s). sv_created_by v = owner}"
    using distinct_snd [OF s(1)] by (simp add: memory_list_def)
next
  fix s v s'
  assume "memory_inv s" "map_of s (sv_id v) = None" "so_create (memory_ops lt) s v = Some s'"
  moreover from this have "s' = (sv_id v, v) # filter (\<lambda>kv. fst kv \<noteq> sv_id v) s"
    by (simp add: memory_ops_def memory_create_def)
  moreover have "list_all (\<lambda>kv. fst kv = sv_id (snd kv)) (filter P s)" if "memory_inv s" for P
    using that by (simp add: memory_inv_def list_all_iff)
  moreover have "sv_id v \<notin> fst ` set (filter (\<lambda>kv. fst kv \<noteq> sv_id v) s)" by auto
  ultimately show "memory_inv s' \<and> map_of s' = (map_of s)(sv_id v \<mapsto> v)"
    by (simp add: memory_inv_def map_of_filter_key distinct_map_filter)
next
  fix s owner ident s' found
  assume "memory_inv s" "so_delete (memory_ops lt) s owner ident = Some (s', found)"
  moreover have "memory_inv (filter P s)" if "memory_inv s" for P
    using that by (simp add: memory_inv_def list_all_iff distinct_map_filter)
  ultimately show "memory_inv s' \<and> (found \<longleftrightarrow> (\<exists>v. map_of s ident = Some v \<and> sv_created_by v = owner))
      \<and> map_of s' = (if found then (map_of s)(ident := None) else map_of s)"
    by (cases "map_of s ident") (auto simp: memory_ops_def memory_delete_def map_of_filter_key split: if_splits)
qed

definition table_map :: "table \<Rightarrow> bytes \<rightharpoonup> saved_search" where
  "table_map t = map_of (map (\<lambda>v. (sv_id v, v)) t)"

definition table_inv :: "table \<Rightarrow> bool" where
  "table_inv t \<longleftrightarrow> distinct (map sv_id t)"

lemma table_map_Some: "table_inv t \<Longrightarrow> table_map t ident = Some v \<longleftrightarrow> v \<in> set t \<and> sv_id v = ident"
  unfolding table_map_def table_inv_def
  by (subst map_of_eq_Some_iff) (auto simp: comp_def)

lemma ran_table_map: "table_inv t \<Longrightarrow> ran (table_map t) = set t"
  by (auto simp: ran_def table_map_Some)

interpretation postgres: saved_store "postgres_ops collate fails" table_inv table_map for collate fails
proof
  fix s owner vs
  assume "table_inv s" "so_list (postgres_ops collate fails) s owner = Some vs"
  then show "distinct vs \<and> set vs = {v \<in> ran (table_map s). sv_created_by v = owner}"
    by (auto simp: postgres_ops_def list_saved_searches_def ran_table_map table_inv_def distinct_map split: if_splits)
next
  fix s v s'
  assume "table_inv s" "table_map s (sv_id v) = None" "so_create (postgres_ops collate fails) s v = Some s'"
  then have "s' = v # s" "sv_id v \<notin> sv_id ` set s" "table_inv s"
    by (auto simp: postgres_ops_def create_saved_search_def list_ex_iff split: if_splits)
  then show "table_inv s' \<and> table_map s' = (table_map s)(sv_id v \<mapsto> v)"
    by (simp add: table_inv_def table_map_def)
next
  fix s owner ident s' found
  assume s: "table_inv s" "so_delete (postgres_ops collate fails) s owner ident = Some (s', found)"
  then have s': "s' = filter (\<lambda>v. \<not> (sv_id v = ident \<and> sv_created_by v = owner)) s"
    and f: "found \<longleftrightarrow> (\<exists>v \<in> set s. sv_id v = ident \<and> sv_created_by v = owner)"
    by (auto simp: postgres_ops_def delete_saved_search_def list_ex_iff split: if_splits)
  have inv: "table_inv s'" using s(1) by (simp add: s' table_inv_def distinct_map_filter)
  have "table_map s' k = (if found then (table_map s)(ident := None) else table_map s) k" for k
  proof (cases "table_map s k")
    case None
    then have "v \<in> set s \<Longrightarrow> sv_id v \<noteq> k" for v using table_map_Some [OF s(1), of k v] by auto
    then have "table_map s' k = None" using table_map_Some [OF inv, of k] by (cases "table_map s' k") (auto simp: s')
    then show ?thesis using None by simp
  next
    case (Some v)
    then have v: "v \<in> set s" "sv_id v = k" using table_map_Some [OF s(1)] by auto
    have unique: "w = v" if "w \<in> set s" "sv_id w = k" for w
      using that v s(1) by (auto simp: table_inv_def distinct_map inj_on_def)
    show ?thesis
    proof (cases "k = ident \<and> sv_created_by v = owner")
      case True
      then have "table_map s' k = None"
        using table_map_Some [OF inv, of k] unique by (cases "table_map s' k") (auto simp: s')
      moreover have "found" using True v f by auto
      ultimately show ?thesis using True by simp
    next
      case False
      then have "table_map s' k = Some v" using table_map_Some [OF inv, of k v] v by (auto simp: s')
      moreover have "k = ident \<Longrightarrow> \<not> found" using False f unique by auto
      ultimately show ?thesis using Some by simp
    qed
  qed
  then have "table_map s' = (if found then (table_map s)(ident := None) else table_map s)" by (rule ext)
  moreover have "found \<longleftrightarrow> (\<exists>v. table_map s ident = Some v \<and> sv_created_by v = owner)"
    using f table_map_Some [OF s(1)] by auto
  ultimately show "table_inv s' \<and> (found \<longleftrightarrow> (\<exists>v. table_map s ident = Some v \<and> sv_created_by v = owner))
      \<and> table_map s' = (if found then (table_map s)(ident := None) else table_map s)"
    using inv by simp
qed

section \<open>The properties\<close>


section \<open>Witnesses\<close>

definition bytes_order :: "bytes \<Rightarrow> bytes \<Rightarrow> bool" where
  "bytes_order s t \<longleftrightarrow> (map byte_val s, map byte_val t) \<in> lexord {(a, b). a < b}"

definition sample_saved :: saved_search where
  "sample_saved = \<lparr>sv_id = [], sv_name = ''errors'', sv_description = [], sv_query = ''level:error'', sv_default_range = [],
     sv_created_by = ''mallory'', sv_created_at = 0, sv_updated_at = 0\<rparr>"


end
