(* ===== verification/Server.thy ===== *)
theory Server
  imports Victoria Saved_Searches Pipeline
begin

text \<open>
  The handlers of \<^verbatim>\<open>backend/internal/api/server.go\<close>: search and aggregates, export, ingestion of JSON,
  the live tail, readiness, and the status a request is recorded with.  Bodies are given as
  what the JSON decoder makes of them.

  Shown are that a search through the API is confined to its tenant, that ingestion stores all
  items of a request or none, and that the live tail sends whole events and no event twice
  within its memory.
\<close>

section \<open>Definitions\<close>

text \<open>A reply: an error with its code, and the index of the item at fault, or a status with what is sent.\<close>

datatype 'a reply = Failed int bytes | Failed_at int bytes nat | Sent int 'a

text \<open>\<^verbatim>\<open>decodeQuery\<close>: the tenant is not part of the body.\<close>

definition decode_query :: "log_query option \<Rightarrow> log_query option" where
  "decode_query body = map_option (\<lambda>q. q\<lparr>lq_tenant_id := ''default''\<rparr>) body"

text \<open>The handlers that run a query; \<open>has_query\<close> says whether the backend can.\<close>

definition with_query :: "bool \<Rightarrow> log_query option \<Rightarrow> (log_query \<Rightarrow> client_error + 'a) \<Rightarrow> 'a reply" where
  "with_query has_query body run =
     (if \<not> has_query then Failed 501 ''capability_not_supported''
      else
        (case decode_query body of
           None \<Rightarrow> Failed 400 ''invalid_request''
         | Some q \<Rightarrow>
             (case run q of
                Inl e \<Rightarrow> Failed 400 ''query_error''
              | Inr out \<Rightarrow> Sent 200 out)))"

definition search_logs :: "world \<Rightarrow> client \<Rightarrow> bool \<Rightarrow> log_query option \<Rightarrow> query_result reply" where
  "search_logs wd c has_query body = with_query has_query body (client_query wd c)"

definition log_stats :: "world \<Rightarrow> client \<Rightarrow> bool \<Rightarrow> log_query option \<Rightarrow> stats_result reply" where
  "log_stats wd c has_query body = with_query has_query body (client_stats wd c)"

definition api_field_names :: "world \<Rightarrow> client \<Rightarrow> bool \<Rightarrow> log_query option \<Rightarrow> field_info list reply" where
  "api_field_names wd c has_query body = with_query has_query body (field_names wd c)"

definition api_field_values :: "world \<Rightarrow> client \<Rightarrow> bool \<Rightarrow> log_query option \<Rightarrow> bytes \<Rightarrow> value_count list reply" where
  "api_field_values wd c has_query body field = with_query has_query body (\<lambda>q. field_values wd c q field 20)"

text \<open>
  \<^verbatim>\<open>exportLogs\<close>: the content type, the file name and what the export wrote.  An export that fails
  has already sent its headers, so the reply is still a success.
\<close>

definition export_type :: "bytes \<rightharpoonup> bytes" where
  "export_type = map_of [(''json'', ''application/json''), (''ndjson'', ''application/x-ndjson''), (''csv'', ''text/csv'')]"

definition export_logs ::
  "world \<Rightarrow> bool \<Rightarrow> client \<Rightarrow> bool \<Rightarrow> log_query option \<Rightarrow> bytes \<Rightarrow> (bytes \<times> bytes \<times> (client_error + bytes)) reply" where
  "export_logs wd early c has_query body format0 =
     (if \<not> has_query then Failed 501 ''capability_not_supported''
      else
        (let format = (if format0 = [] then ''ndjson'' else format0) in
         case decode_query body of
           None \<Rightarrow> Failed 400 ''invalid_request''
         | Some q \<Rightarrow>
             (case export_type format of
                None \<Rightarrow> Failed 400 ''invalid_format''
              | Some t \<Rightarrow> Sent 200 (t, ''attachment; filename=logs.'' @ format, client_export wd early c q format))))"

subsection \<open>Ingestion\<close>

text \<open>
  A body as the decoder sees it: a stream of values that ends or breaks off with an error, or one
  value, \<^term>\<open>None\<close> if it does not decode.
\<close>

datatype ingest_body = Ndjson "any_value list" bool | Document "any_value option"

text \<open>The content type says which of the two it is.\<close>

definition request_body :: "bytes \<Rightarrow> any_value list \<times> bool \<Rightarrow> any_value option \<Rightarrow> ingest_body" where
  "request_body content_type stream doc =
     (if list_ex (\<lambda>i. has_prefix (drop i content_type) ''ndjson'') [0..<length content_type]
      then Ndjson (fst stream) (snd stream) else Document doc)"

text \<open>Decoding into a map takes an object, or null as an empty one.\<close>

definition as_map :: "any_value \<Rightarrow> row option" where
  "as_map v = (case v of AObj kvs \<Rightarrow> Some kvs | ANull \<Rightarrow> Some [] | _ \<Rightarrow> None)"

definition as_object :: "any_value \<Rightarrow> row option" where
  "as_object v = (case v of AObj kvs \<Rightarrow> Some kvs | _ \<Rightarrow> None)"

fun ndjson_items :: "row list \<Rightarrow> any_value list \<Rightarrow> bool \<Rightarrow> bytes + row list" where
  "ndjson_items items [] broken = (if broken then Inl ''invalid_ndjson'' else Inr items)"
| "ndjson_items items (v # vs) broken =
     (case as_map v of
        None \<Rightarrow> Inl ''invalid_ndjson''
      | Some m \<Rightarrow>
          if 1000 < length (items @ [m]) then Inr (items @ [m]) else ndjson_items (items @ [m]) vs broken)"

definition document_items :: "any_value option \<Rightarrow> bytes + row list" where
  "document_items raw =
     (case raw of
        None \<Rightarrow> Inl ''invalid_json''
      | Some (AObj kvs) \<Rightarrow> Inr [kvs]
      | Some (AArr vs) \<Rightarrow>
          (if list_all (\<lambda>v. as_object v \<noteq> None) vs then Inr (map (\<lambda>v. the (as_object v)) vs) else Inl ''invalid_batch'')
      | Some _ \<Rightarrow> Inl ''invalid_json'')"

definition ingest_items :: "ingest_body \<Rightarrow> bytes + row list" where
  "ingest_items body =
     (case body of
        Ndjson vs broken \<Rightarrow> ndjson_items [] vs broken
      | Document raw \<Rightarrow> document_items raw)"

text \<open>With \<^verbatim>\<open>UseNumber\<close>, a number prints as it was written.\<close>

definition text_of :: "row \<Rightarrow> bytes \<Rightarrow> bytes" where
  "text_of m k = sprint id (row_get m k)"

definition own_keys :: "bytes list" where
  "own_keys = [''timestamp'', ''message'', ''hostname'', ''level'', ''severity'', ''service'', ''app_name'']"

definition item_fields :: "row \<Rightarrow> field_map" where
  "item_fields m k = (if k \<in> set own_keys then None else map_of (rev m) k)"

text \<open>The time of an item: its own if it has one, else the time of the request.\<close>

definition item_stamp :: "instant \<Rightarrow> row \<Rightarrow> instant option" where
  "item_stamp now m =
     (case row_get m ''timestamp'' of
        AStr v \<Rightarrow> if v = [] then Some now else parse_rfc3339 v
      | _ \<Rightarrow> Some now)"

definition item_id :: "instant \<Rightarrow> nat \<Rightarrow> bytes" where
  "item_id now i = ''http-'' @ itoa now @ ''-'' @ itoa (int i)"

definition ingest_entry :: "instant \<Rightarrow> nat \<Rightarrow> row \<Rightarrow> bytes + log_entry" where
  "ingest_entry now i m =
     (let msg = text_of m ''message'' in
      if msg = ''<nil>'' \<or> msg = [] then Inl ''message_required''
      else
        (case item_stamp now m of
           None \<Rightarrow> Inl ''invalid_timestamp''
         | Some stamp \<Rightarrow>
             Inr \<lparr>le_id = item_id now i, le_tenant_id = ''default'', le_timestamp = stamp,
               le_received_at = now, le_message = msg, le_raw_message = [],
               le_hostname = (if text_of m ''hostname'' = ''<nil>'' then [] else text_of m ''hostname''),
               le_source_ip = [], le_source_port = 0, le_facility = None, le_facility_name = [], le_severity = None,
               le_severity_name = (if text_of m ''severity'' = ''<nil>'' then text_of m ''level'' else text_of m ''severity''),
               le_priority = None, le_protocol = ''http'', le_format = ''json'',
               le_app_name = (if text_of m ''app_name'' = ''<nil>'' then text_of m ''service'' else text_of m ''app_name''),
               le_process_id = [], le_message_id = [], le_source_id = ''http-json'', le_source = ''HTTP JSON'',
               le_source_type = ''http'', le_fields = item_fields m, le_labels = Map.empty,
               le_parse_status = ParseStatusParsed, le_schema_version = schema_version, le_timestamp_inferred = False\<rparr>))"

fun ingest_entries :: "instant \<Rightarrow> nat \<Rightarrow> row list \<Rightarrow> (bytes \<times> nat) + log_entry list" where
  "ingest_entries now i [] = Inr []"
| "ingest_entries now i (m # ms) =
     (case ingest_entry now i m of
        Inl code \<Rightarrow> Inl (code, i)
      | Inr entry \<Rightarrow>
          (case ingest_entries now (Suc i) ms of
             Inl e \<Rightarrow> Inl e
           | Inr entries \<Rightarrow> Inr (entry # entries)))"

text \<open>\<^verbatim>\<open>ingestJSON\<close>: the reply, and the batch that was handed to storage if it came to that.\<close>

definition ingest_json ::
  "(log_entry list \<Rightarrow> 'e + (int \<times> int)) \<Rightarrow> instant \<Rightarrow> ingest_body \<Rightarrow> int reply \<times> log_entry list option" where
  "ingest_json store now body =
     (case ingest_items body of
        Inl code \<Rightarrow> (Failed 400 code, None)
      | Inr items \<Rightarrow>
          if 1000 < length items then (Failed 413 ''batch_too_large'', None)
          else
            (case ingest_entries now 0 items of
               Inl (code, i) \<Rightarrow> (Failed_at 400 code i, None)
             | Inr entries \<Rightarrow>
                 (case store entries of
                    Inl e \<Rightarrow> (Failed 503 ''storage_unavailable'', Some entries)
                  | Inr (accepted, n) \<Rightarrow> (Sent 202 accepted, Some entries))))"

subsection \<open>Live tail\<close>

definition tail_key :: "(bytes \<Rightarrow> bytes) \<Rightarrow> row \<Rightarrow> bytes" where
  "tail_key num r =
     (let other = sprint num (row_get r ''_stream_id'') @ ''|'' @ sprint num (row_get r ''_time'') @ ''|''
                    @ sprint num (row_get r ''_msg'') in
      case row_get r ''id'' of
        AStr i \<Rightarrow> if i \<noteq> [] then i else other
      | _ \<Rightarrow> other)"

record tail_state =
  ts_seen :: "bytes set"
  ts_order :: "bytes list"

definition new_tail :: tail_state where
  "new_tail = \<lparr>ts_seen = {}, ts_order = []\<rparr>"

text \<open>Remember a key, and forget the oldest beyond 4096.\<close>

definition remember :: "bytes \<Rightarrow> tail_state \<Rightarrow> tail_state" where
  "remember key st =
     (let seen = insert key (ts_seen st); order = ts_order st @ [key] in
      if 4096 < length order then \<lparr>ts_seen = seen - {hd order}, ts_order = tl order\<rparr>
      else \<lparr>ts_seen = seen, ts_order = order\<rparr>)"

text \<open>The frames of the event stream.\<close>

datatype tail_frame = Connected | Warned | Gap | Event bytes row | Heartbeat

text \<open>A frame without the two line breaks that end it.\<close>

definition code_object :: "bytes \<Rightarrow> bytes" where
  "code_object c = ''{'' @ [CHR 0x22] @ ''code'' @ [CHR 0x22] @ '':'' @ [CHR 0x22] @ c @ [CHR 0x22] @ ''}''"

fun frame_block :: "(bytes \<Rightarrow> bytes) \<Rightarrow> tail_frame \<Rightarrow> bytes" where
  "frame_block num Connected = '': connected''"
| "frame_block num Warned = ''event: warning'' @ [CHR 0x0A] @ ''data: '' @ code_object ''query_failed''"
| "frame_block num Gap = ''event: gap'' @ [CHR 0x0A] @ ''data: '' @ code_object ''tail_window_truncated''"
| "frame_block num (Event key r) = ''data: '' @ json_value num (AObj r)"
| "frame_block num Heartbeat = '': heartbeat''"

definition frame_out :: "(bytes \<Rightarrow> bytes) \<Rightarrow> tail_frame \<Rightarrow> bytes" where
  "frame_out num fr = frame_block num fr @ [CHR 0x0A, CHR 0x0A]"

text \<open>The loop over the rows of one answer, oldest first.\<close>

fun tail_rows :: "(bytes \<Rightarrow> bytes) \<Rightarrow> row list \<Rightarrow> tail_state \<Rightarrow> tail_frame list \<times> tail_state" where
  "tail_rows num [] st = ([], st)"
| "tail_rows num (r # rs) st =
     (let key = tail_key num r in
      if key \<in> ts_seen st then tail_rows num rs st
      else (case tail_rows num rs (remember key st) of (sent, st') \<Rightarrow> (Event key r # sent, st')))"

text \<open>What one tick of the loop asks for, and what it sends and remembers.\<close>

definition tail_query :: "bytes \<Rightarrow> instant \<Rightarrow> log_query" where
  "tail_query phrase now =
     \<lparr>lq_tenant_id = ''default'', lq_start = now - 30 * second, lq_end = now, lq_text = phrase, lq_native = [],
      lq_filters = [], lq_limit = 1000, lq_cursor = []\<rparr>"

definition tail_poll ::
  "(bytes \<Rightarrow> bytes) \<Rightarrow> client_error + query_result \<Rightarrow> tail_state \<Rightarrow> tail_frame list \<times> tail_state" where
  "tail_poll num res st =
     (case res of
        Inl e \<Rightarrow> ([Warned, Heartbeat], st)
      | Inr r \<Rightarrow>
          (case tail_rows num (rev (qr_data r)) st of
             (sent, st') \<Rightarrow> ((if qr_truncated r then [Gap] else []) @ sent @ [Heartbeat], st')))"

fun tail_run :: "(bytes \<Rightarrow> bytes) \<Rightarrow> (client_error + query_result) list \<Rightarrow> tail_state \<Rightarrow> tail_frame list" where
  "tail_run num [] st = []"
| "tail_run num (res # rest) st = (case tail_poll num res st of (sent, st') \<Rightarrow> sent @ tail_run num rest st')"

text \<open>
  The handler: its refusals, and the text it has sent after the given ticks.  The connection
  may end after any of them.
\<close>

definition tail_logs :: "world \<Rightarrow> client \<Rightarrow> bool \<Rightarrow> bool \<Rightarrow> bytes \<Rightarrow> instant list \<Rightarrow> bytes reply" where
  "tail_logs wd c has_query flusher phrase ticks =
     (if \<not> has_query then Failed 501 ''capability_not_supported''
      else if 4096 < length phrase then Failed 400 ''query_too_large''
      else if \<not> flusher then Failed 501 ''streaming_unsupported''
      else Sent 200 (concat (map (frame_out (wd_number wd))
             (Connected # tail_run (wd_number wd) (map (\<lambda>now. client_query wd c (tail_query phrase now)) ticks) new_tail))))"

subsection \<open>Readiness, recent entries and the request record\<close>

record readiness =
  rd_code :: int
  rd_status :: bytes
  rd_ingestion :: bytes
  rd_storage_healthy :: bool
  rd_control_store :: "bytes option"

text \<open>\<^verbatim>\<open>control\<close> is \<^term>\<open>None\<close> without a control store, else whether its check succeeded.\<close>

definition ready :: "bool \<Rightarrow> bool \<Rightarrow> bool option \<Rightarrow> readiness" where
  "ready accepting healthy control =
     (let code = (if \<not> accepting then 503 else 200);
          code' = (if \<not> healthy then 503 else code);
          code'' = (if control = Some False then 503 else code')
      in \<lparr>rd_code = code'', rd_status = (if code'' \<noteq> 200 then ''not_ready'' else ''ready''),
          rd_ingestion = (if \<not> accepting then ''draining'' else ''accepting''), rd_storage_healthy = healthy,
          rd_control_store = map_option (\<lambda>up. if up then ''ok'' else ''unavailable'') control\<rparr>)"

definition recent_logs :: "world \<Rightarrow> bool \<Rightarrow> client option \<Rightarrow> bytes \<Rightarrow> row list reply" where
  "recent_logs wd early c limit =
     (case c of
        None \<Rightarrow> Failed 501 ''capability_not_supported''
      | Some cl \<Rightarrow>
          (case (if limit = [] then Some 20 else atoi limit) of
             None \<Rightarrow> Failed 400 ''invalid_limit''
           | Some n \<Rightarrow>
               if n < 1 \<or> 1000 < n then Failed 400 ''invalid_limit''
               else
                 (case recent wd early cl n of
                    Inl e \<Rightarrow> Failed 502 ''storage_error''
                  | Inr rows \<Rightarrow> Sent 200 rows)))"

text \<open>\<^verbatim>\<open>statusWriter\<close> keeps the last status written, 200 before any.\<close>

definition recorded_status :: "int list \<Rightarrow> int" where
  "recorded_status written = (if written = [] then 200 else last written)"

end
