(* ===== verification/Routes.thy ===== *)
theory Routes
  imports Server
begin

text \<open>
  The server of \<^verbatim>\<open>backend/internal/api/server.go\<close> as a whole: how \<^verbatim>\<open>New\<close> assembles it, its route
  table, and the way of a request through \<^verbatim>\<open>requestLog\<close>, \<^verbatim>\<open>authMiddleware\<close> and the multiplexer of
  \<^verbatim>\<open>net/http\<close> to a handler.

  Shown are that no route hides another, that without a session only four routes are reached,
  and that every request is counted once, under its route or as unmatched.
\<close>

section \<open>Definitions\<close>

subsection \<open>The server\<close>

text \<open>A backend: the VictoriaLogs client, or another one that can or cannot run queries.\<close>

datatype backend = Vl_backend client | Other_backend bool

record server_options =
  so_saved_searches :: bool
  so_sources :: "source_config list"

record server =
  sr_backend :: backend
  sr_query :: bool
  sr_recent :: "client option"
  sr_control :: bool
  sr_auth :: auth_manager
  sr_saved_store :: bool
  sr_sources :: "source_config list"
  sr_address :: bytes

text \<open>\<^verbatim>\<open>New\<close>; the options are the variadic arguments, of which the first counts.\<close>

definition new_server :: "http_config \<Rightarrow> backend \<Rightarrow> bool \<Rightarrow> auth_manager \<Rightarrow> server_options list \<Rightarrow> server" where
  "new_server cfg b control auth opts =
     \<lparr>sr_backend = b, sr_query = (case b of Vl_backend _ \<Rightarrow> True | Other_backend q \<Rightarrow> q),
      sr_recent = (case b of Vl_backend c \<Rightarrow> Some c | Other_backend _ \<Rightarrow> None), sr_control = control, sr_auth = auth,
      sr_saved_store = (case opts of [] \<Rightarrow> False | opt # _ \<Rightarrow> so_saved_searches opt),
      sr_sources = (case opts of [] \<Rightarrow> [] | opt # _ \<Rightarrow> so_sources opt), sr_address = hc_address cfg\<rparr>"

subsection \<open>Routes\<close>

datatype handler =
    H_health | H_ready | H_metrics | H_capabilities | H_recent | H_ingest | H_search | H_stats | H_fields
  | H_field_values | H_export | H_tail | H_login | H_logout | H_me | H_list_saved | H_create_saved
  | H_delete_saved | H_sources

datatype segment = Lit bytes | Wild bytes

record route =
  rt_method :: bytes
  rt_pattern :: "segment list"
  rt_handler :: handler

definition api :: "segment list \<Rightarrow> segment list" where
  "api p = Lit ''api'' # Lit ''v1'' # p"

definition route :: "bytes \<Rightarrow> segment list \<Rightarrow> handler \<Rightarrow> route" where
  "route verb p h = \<lparr>rt_method = verb, rt_pattern = p, rt_handler = h\<rparr>"

definition routes :: "route list" where
  "routes =
    [route ''GET'' [Lit ''health''] H_health,
     route ''GET'' [Lit ''ready''] H_ready,
     route ''GET'' [Lit ''metrics''] H_metrics,
     route ''GET'' (api [Lit ''capabilities'']) H_capabilities,
     route ''GET'' (api [Lit ''system'', Lit ''logs'', Lit ''recent'']) H_recent,
     route ''POST'' (api [Lit ''ingest'']) H_ingest,
     route ''POST'' (api [Lit ''logs'', Lit ''search'']) H_search,
     route ''POST'' (api [Lit ''logs'', Lit ''stats'']) H_stats,
     route ''POST'' (api [Lit ''fields'']) H_fields,
     route ''POST'' (api [Lit ''fields'', Wild ''field'', Lit ''values'']) H_field_values,
     route ''POST'' (api [Lit ''logs'', Lit ''export'']) H_export,
     route ''GET'' (api [Lit ''logs'', Lit ''tail'']) H_tail,
     route ''POST'' (api [Lit ''auth'', Lit ''login'']) H_login,
     route ''POST'' (api [Lit ''auth'', Lit ''logout'']) H_logout,
     route ''GET'' (api [Lit ''auth'', Lit ''me'']) H_me,
     route ''GET'' (api [Lit ''saved-searches'']) H_list_saved,
     route ''POST'' (api [Lit ''saved-searches'']) H_create_saved,
     route ''DELETE'' (api [Lit ''saved-searches'', Wild ''id'']) H_delete_saved,
     route ''GET'' (api [Lit ''sources'']) H_sources]"

text \<open>
  The multiplexer on these patterns: a wildcard stands for one segment that is not empty, and
  \<^verbatim>\<open>GET\<close> also serves \<^verbatim>\<open>HEAD\<close>.  A path is given by its segments after unescaping, which may then
  contain a slash; the middleware looks at the whole path.
\<close>

definition path_of :: "bytes list \<Rightarrow> bytes" where
  "path_of segs = concat (map (\<lambda>s. CHR ''/'' # s) segs)"

fun seg_match :: "segment \<Rightarrow> bytes \<Rightarrow> bool" where
  "seg_match (Lit l) s \<longleftrightarrow> s = l"
| "seg_match (Wild w) s \<longleftrightarrow> s \<noteq> []"

definition route_match :: "bytes \<Rightarrow> bytes list \<Rightarrow> route \<Rightarrow> bool" where
  "route_match verb segs r \<longleftrightarrow>
     (rt_method r = verb \<or> rt_method r = ''GET'' \<and> verb = ''HEAD'') \<and> list_all2 seg_match (rt_pattern r) segs"

definition find_route :: "bytes \<Rightarrow> bytes list \<Rightarrow> route option" where
  "find_route verb segs = List.find (route_match verb segs) routes"

text \<open>The text of a pattern, which \<^verbatim>\<open>r.Pattern\<close> holds once the multiplexer has chosen a route.\<close>

fun seg_text :: "segment \<Rightarrow> bytes" where
  "seg_text (Lit l) = l"
| "seg_text (Wild w) = ''{'' @ w @ ''}''"

definition pattern_text :: "route \<Rightarrow> bytes" where
  "pattern_text r = rt_method r @ '' '' @ path_of (map seg_text (rt_pattern r))"

datatype served = Unauthorized | No_route | Handled route

definition serve :: "auth_manager \<Rightarrow> bytes \<Rightarrow> bytes list \<Rightarrow> bytes option \<Rightarrow> instant \<Rightarrow> served" where
  "serve a verb segs cookie now =
     (if \<not> admits a (path_of segs) cookie now then Unauthorized
      else (case find_route verb segs of None \<Rightarrow> No_route | Some r \<Rightarrow> Handled r))"

text \<open>\<^verbatim>\<open>requestLog\<close>: the pattern is empty unless a route was chosen.\<close>

definition request_log ::
  "bytes \<Rightarrow> served \<Rightarrow> int list \<Rightarrow> duration \<Rightarrow> http_metrics \<Rightarrow> http_metrics" where
  "request_log verb sv written elapsed m =
     observe verb (case sv of Handled r \<Rightarrow> pattern_text r | _ \<Rightarrow> []) (recorded_status written) elapsed m"

section \<open>Dispatch\<close>

text \<open>A path for a pattern, with a value for its wildcard.\<close>

fun fill :: "bytes \<Rightarrow> segment \<Rightarrow> bytes" where
  "fill v (Lit l) = l"
| "fill v (Wild w) = v"

lemmas routes_defs = routes_def route_def api_def route_match_def

lemma find_route_in: "find_route verb segs = Some r \<Longrightarrow> r \<in> set routes \<and> route_match verb segs r"
  by (auto simp: find_route_def find_Some_iff)

lemma no_route_hidden:
  assumes "v \<noteq> []" and "r \<in> set routes"
  shows "find_route (rt_method r) (map (fill v) (rt_pattern r)) = Some r"
proof -
  have "list_all (\<lambda>r. find_route (rt_method r) (map (fill v) (rt_pattern r)) = Some r) routes"
    using assms(1) by (simp add: find_route_def routes_defs)
  then show ?thesis using assms(2) by (simp add: list_all_iff)
qed

text \<open>The routes that need no session.\<close>

definition public :: "handler \<Rightarrow> bool" where
  "public h \<longleftrightarrow> h = H_health \<or> h = H_ready \<or> h = H_metrics \<or> h = H_login"

lemma private_path:
  assumes "r \<in> set routes" and "\<not> public (rt_handler r)" and "list_all2 seg_match (rt_pattern r) segs"
  shows "has_prefix (path_of segs) ''/api/''" and "path_of segs \<noteq> ''/api/v1/auth/login''"
proof -
  have "list_all (\<lambda>r. \<not> public (rt_handler r) \<longrightarrow> (\<exists>c l xs. rt_pattern r = Lit ''api'' # Lit ''v1'' # Lit (c # l) # xs
      \<and> (c \<noteq> CHR ''a'' \<or> l = ''uth'' \<and> (xs = [Lit ''logout''] \<or> xs = [Lit ''me''])))) routes"
    by (simp add: routes_defs public_def)
  then obtain c l xs where p: "rt_pattern r = Lit ''api'' # Lit ''v1'' # Lit (c # l) # xs"
    "c \<noteq> CHR ''a'' \<or> l = ''uth'' \<and> (xs = [Lit ''logout''] \<or> xs = [Lit ''me''])"
    using assms(1,2) by (auto simp: list_all_iff)
  then obtain ys where s: "segs = ''api'' # ''v1'' # (c # l) # ys" "list_all2 seg_match xs ys"
    using assms(3) by (auto simp: list_all2_Cons1)
  show "has_prefix (path_of segs) ''/api/''" by (simp add: s path_of_def has_prefix_def)
  show "path_of segs \<noteq> ''/api/v1/auth/login''"
    using p(2) s(2) by (auto simp: s(1) path_of_def list_all2_Cons1)
qed

text \<open>
  C17: the table protects what it should and reaches what it should.  Every route is found for
  its method and every path of its pattern, none hides another; and with a password set, a
  request reaches a handler other than health, readiness, metrics and login only with the
  token of a session that has not expired.
\<close>

theorem routes_protected:
  assumes "am_enabled a"
  shows "(\<forall>r \<in> set routes. \<forall>v. v \<noteq> [] \<longrightarrow> find_route (rt_method r) (map (fill v) (rt_pattern r)) = Some r)
     \<and> (\<forall>verb segs cookie now r. serve a verb segs cookie now = Handled r \<and> \<not> public (rt_handler r) \<longrightarrow>
          (\<exists>t s. cookie = Some t \<and> am_sessions a t = Some s \<and> now < ss_expires s))"
proof (intro conjI ballI allI impI)
  fix verb segs cookie now r
  assume h: "serve a verb segs cookie now = Handled r \<and> \<not> public (rt_handler r)"
  then have "admits a (path_of segs) cookie now" and f: "find_route verb segs = Some r"
    by (auto simp: serve_def split: if_splits option.splits)
  moreover have "r \<in> set routes" "list_all2 seg_match (rt_pattern r) segs"
    using find_route_in [OF f] by (auto simp: route_match_def)
  ultimately show "\<exists>t s. cookie = Some t \<and> am_sessions a t = Some s \<and> now < ss_expires s"
    using h private_path assms by (intro admitted_session) auto
qed (rule no_route_hidden)

text \<open>Every request is counted once.\<close>

lemma request_log_counts:
  "counter_total (\<lambda>_. True) (hm_requests (request_log verb sv written elapsed m)) = counter_total (\<lambda>_. True) (hm_requests m) + 1"
  by (simp add: request_log_def observe_def Let_def)

section \<open>Witness\<close>

theorem routes_protected_witness:
  "\<exists>r. r \<in> set routes \<and> rt_handler r = H_delete_saved
     \<and> find_route ''DELETE'' [''api'', ''v1'', ''saved-searches'', ''x'']  = Some r
     \<and> serve (new_auth_manager (\<lambda>p. Some p) ''secret'') ''DELETE'' [''api'', ''v1'', ''saved-searches'', ''x''] None 0 \<noteq> Handled r"
proof -
  let ?a = "new_auth_manager (\<lambda>p. Some p) ''secret''"
  let ?r = "route ''DELETE'' (api [Lit ''saved-searches'', Wild ''id'']) H_delete_saved"
  have "am_enabled ?a" by (simp add: new_auth_manager_def)
  note p = routes_protected [OF this]
  have r: "?r \<in> set routes" "\<not> public (rt_handler ?r)" by (simp_all add: routes_def public_def route_def)
  have "find_route (rt_method ?r) (map (fill ''x'') (rt_pattern ?r)) = Some ?r" using p r(1) by blast
  moreover have "serve ?a ''DELETE'' [''api'', ''v1'', ''saved-searches'', ''x''] None 0 \<noteq> Handled ?r" using p r(2) by blast
  ultimately show ?thesis using r(1) by (intro exI [of _ ?r]) (simp add: route_def api_def)
qed

end
