(* ===== verification/Server_Correct.thy ===== *)
theory Server_Correct
  imports Server
begin

text \<open>
  What the handlers of \<^verbatim>\<open>backend/internal/api/server.go\<close> promise: a search is confined to its
  tenant, ingestion stores all items of a request or none, and the live tail is a stream of
  whole events in which every row of every answer appears, and none twice within the memory of
  the handler.
\<close>

section \<open>Search\<close>

lemma with_query_Sent:
  assumes "with_query has_query body run = Sent code out"
  obtains q where "has_query" and "body = Some q" and "code = 200" and "run (q\<lparr>lq_tenant_id := ''default''\<rparr>) = Inr out"
  using assms by (auto simp: with_query_def decode_query_def split: if_splits option.splits sum.splits)

lemma client_query_Inr:
  assumes "client_query wd c q = Inr r"
  obtains base rows where "logs_ql (wd_printable wd) (wd_number wd) q = Inr base"
    and "run_query wd c (sorted_page base (lq_limit q + 1)) = Inr rows"
    and "qr_data r = take (nat (lq_limit q)) rows" and "qr_truncated r = (lq_limit q < int (length rows))"
  using assms
  by (cases "logs_ql (wd_printable wd) (wd_number wd) q";
      simp add: client_query_def; cases "run_query wd c (sorted_page (projr (logs_ql (wd_printable wd) (wd_number wd) q)) (lq_limit q + 1))";
      auto simp: Let_def)

section \<open>Ingestion\<close>

text \<open>The entry made of an item keeps its message, its other columns and its place.\<close>

definition taken_from :: "instant \<Rightarrow> row \<Rightarrow> log_entry \<Rightarrow> bool" where
  "taken_from now m e \<longleftrightarrow>
     le_message e = text_of m ''message'' \<and> le_message e \<noteq> [] \<and> le_tenant_id e = ''default''
     \<and> item_stamp now m = Some (le_timestamp e) \<and> le_received_at e = now \<and> le_fields e = item_fields m"

lemma ingest_entry_Inr: "ingest_entry now i m = Inr e \<Longrightarrow> taken_from now m e \<and> le_id e = item_id now i"
  by (auto simp: ingest_entry_def taken_from_def Let_def split: if_splits option.splits)

lemma ingest_entries_Inr:
  "ingest_entries now i ms = Inr es \<Longrightarrow>
   list_all2 (taken_from now) ms es \<and> map le_id es = map (item_id now) [i..<i + length ms]"
proof (induction ms arbitrary: i es)
  case (Cons m ms)
  obtain e where e: "ingest_entry now i m = Inr e" using Cons.prems by (simp split: sum.splits)
  obtain rest where r: "ingest_entries now (Suc i) ms = Inr rest" using Cons.prems e by (simp split: sum.splits)
  have "es = e # rest" using Cons.prems e r by simp
  then show ?case using Cons.IH [OF r] ingest_entry_Inr [OF e] by (simp add: upt_conv_Cons del: upt_Suc)
qed simp

lemma ingest_json_Sent:
  assumes "ingest_json store now body = (Sent code n, batch)"
  obtains items entries size where "ingest_items body = Inr items" and "length items \<le> 1000"
    and "ingest_entries now 0 items = Inr entries" and "batch = Some entries" and "store entries = Inr (n, size)" and "code = 202"
proof -
  obtain items where i: "ingest_items body = Inr items" using assms by (simp add: ingest_json_def split: sum.splits)
  have l: "length items \<le> 1000" using assms i by (simp add: ingest_json_def split: if_splits)
  obtain entries where e: "ingest_entries now 0 items = Inr entries"
    using assms i l by (cases "ingest_entries now 0 items") (auto simp: ingest_json_def)
  show thesis using assms i l e by (cases "store entries") (auto simp: ingest_json_def intro!: that)
qed

lemma ingest_json_not_Sent:
  assumes "ingest_json store now body = (rep, batch)" and "\<And>code n. rep \<noteq> Sent code n"
  shows "batch = None \<or> (\<exists>entries e. batch = Some entries \<and> store entries = Inl e \<and> rep = Failed 503 ''storage_unavailable'')"
proof (cases "ingest_items body")
  case (Inr items)
  then show ?thesis
    using assms
    by (cases "ingest_entries now 0 items"; cases "store (projr (ingest_entries now 0 items))")
      (auto simp: ingest_json_def split: if_splits)
qed (use assms in \<open>simp add: ingest_json_def\<close>)

lemma item_ids_distinct: "n \<le> 1000 \<Longrightarrow> distinct (map (item_id now) [0..<n])"
proof -
  assume n: "n \<le> 1000"
  have "i = j" if "i < n" "j < n" "item_id now i = item_id now j" for i j
  proof -
    have "itoa (int i) = itoa (int j)" using that(3) by (simp add: item_id_def)
    moreover have "int64_range (int i)" "int64_range (int j)" using that n by (simp_all add: int64_range_def)
    ultimately show ?thesis using atoi_itoa by (metis option.inject of_nat_eq_iff)
  qed
  then show ?thesis by (auto simp: distinct_map inj_on_def)
qed

context appender
begin

lemma ingest_outcome:
  "case ingest_json store now body of
     (Sent code n, batch) \<Rightarrow>
       code = 202
       \<and> (\<exists>items entries size. ingest_items body = Inr items \<and> batch = Some entries
            \<and> store entries = Inr (n, size)
            \<and> n = int (length items) \<and> length items \<le> 1000
            \<and> list_all2 (taken_from now) items entries \<and> distinct (map le_id entries))
   | (_, batch) \<Rightarrow>
       batch = None \<or> (\<exists>entries e. batch = Some entries \<and> store entries = Inl e)"
proof -
  obtain rep batch where r: "ingest_json store now body = (rep, batch)" by fastforce
  show ?thesis
  proof (cases "\<exists>code n. rep = Sent code n")
    case True
    then obtain code n where rep: "rep = Sent code n" by blast
    obtain items entries size where i: "ingest_items body = Inr items" "length items \<le> 1000"
      "ingest_entries now 0 items = Inr entries" "batch = Some entries" "store entries = Inr (n, size)" "code = 202"
      using r unfolding rep by (rule ingest_json_Sent)
    have "n = int (length entries)"
      using i(5) by (rule accepts_all)
    moreover have "list_all2 (taken_from now) items entries" "distinct (map le_id entries)"
      using ingest_entries_Inr [OF i(3)] item_ids_distinct [OF i(2)] by simp_all
    ultimately show ?thesis using i by (auto simp: r rep dest: list_all2_lengthD)
  next
    case False
    then have "batch = None \<or> (\<exists>entries e. batch = Some entries \<and> store entries = Inl e)"
      using ingest_json_not_Sent [OF r] by blast
    then show ?thesis using False by (cases rep) (simp_all add: r)
  qed
qed

end


section \<open>The live tail\<close>

subsection \<open>Memory\<close>

text \<open>A list in which equal elements are more than \<open>n\<close> places apart.\<close>

definition apart :: "nat \<Rightarrow> 'a list \<Rightarrow> bool" where
  "apart n xs \<longleftrightarrow> (\<forall>i j. i < j \<longrightarrow> j < length xs \<longrightarrow> xs ! i = xs ! j \<longrightarrow> n < j - i)"

abbreviation last_keys :: "nat \<Rightarrow> 'a list \<Rightarrow> 'a list" where
  "last_keys n xs \<equiv> drop (length xs - n) xs"

lemma apart_snoc:
  assumes "apart n xs" and "x \<notin> set (last_keys n xs)"
  shows "apart n (xs @ [x])"
  unfolding apart_def
proof (intro allI impI)
  fix i j assume ij: "i < j" "j < length (xs @ [x])" "(xs @ [x]) ! i = (xs @ [x]) ! j"
  show "n < j - i"
  proof (cases "j < length xs")
    case True
    then show ?thesis using assms(1) ij by (auto simp: apart_def nth_append)
  next
    case False
    then have j: "j = length xs" and i: "xs ! i = x" using ij by (auto simp: nth_append)
    have "i < length xs - n"
    proof (rule ccontr)
      assume "\<not> i < length xs - n"
      then have "drop (length xs - n) xs ! (i - (length xs - n)) = x" using i ij j by simp
      then show False using assms(2) ij(1) j \<open>\<not> i < length xs - n\<close>
        by (metis diff_less_mono length_drop linorder_not_less nth_mem)
    qed
    then show ?thesis using j by simp
  qed
qed

lemma apart_last_distinct: "apart n xs \<Longrightarrow> distinct (last_keys n xs)"
  unfolding distinct_conv_nth apart_def
proof (intro allI impI notI)
  fix i j
  assume a: "\<forall>i j. i < j \<longrightarrow> j < length xs \<longrightarrow> xs ! i = xs ! j \<longrightarrow> n < j - i"
    and ij: "i < length (last_keys n xs)" "j < length (last_keys n xs)" "i \<noteq> j" "last_keys n xs ! i = last_keys n xs ! j"
  let ?k = "length xs - n"
  have "n < (?k + max i j) - (?k + min i j)"
    using a [rule_format, of "?k + min i j" "?k + max i j"] ij by (auto simp: max_def min_def)
  then show False using ij by auto
qed

text \<open>The state after the keys \<open>ks\<close> were sent.\<close>

definition tail_inv :: "bytes list \<Rightarrow> tail_state \<Rightarrow> bool" where
  "tail_inv ks st \<longleftrightarrow> apart 4096 ks \<and> ts_order st = last_keys 4096 ks \<and> ts_seen st = set (ts_order st)"

lemma tail_inv_new: "tail_inv [] new_tail"
  by (simp add: tail_inv_def new_tail_def apart_def)

lemma last_keys_snoc:
  "last_keys n (xs @ [x]) = (if n < length (last_keys n xs @ [x]) then tl (last_keys n xs @ [x]) else last_keys n xs @ [x])"
proof (cases "n \<le> length xs")
  case True
  then have "Suc (length xs) - n = Suc (length xs - n)" by simp
  then show ?thesis using True by (cases "n = 0") (auto simp: drop_Suc tl_drop [symmetric])
qed simp

lemma tail_inv_remember:
  assumes "tail_inv ks st" and "key \<notin> ts_seen st"
  shows "tail_inv (ks @ [key]) (remember key st)"
proof -
  have order: "ts_order st = last_keys 4096 ks" and seen: "ts_seen st = set (last_keys 4096 ks)" and a: "apart 4096 ks"
    using assms(1) by (simp_all add: tail_inv_def)
  have a': "apart 4096 (ks @ [key])" using a assms(2) by (simp add: seen apart_snoc)
  define ord where "ord = last_keys 4096 ks @ [key]"
  have r: "remember key st = (if 4096 < length ord then \<lparr>ts_seen = set ord - {hd ord}, ts_order = tl ord\<rparr>
      else \<lparr>ts_seen = set ord, ts_order = ord\<rparr>)"
    by (simp add: remember_def Let_def order seen ord_def)
  have "distinct ord" using apart_last_distinct [OF a] assms(2) seen by (simp add: ord_def)
  moreover have "ord \<noteq> []" by (simp add: ord_def)
  ultimately have "set (tl ord) = set ord - {hd ord}" by (cases ord) simp_all
  then have "ts_seen (remember key st) = set (ts_order (remember key st))" by (simp add: r)
  moreover have "ts_order (remember key st) = last_keys 4096 (ks @ [key])"
    unfolding last_keys_snoc ord_def [symmetric] by (simp add: r)
  ultimately show ?thesis using a' by (simp add: tail_inv_def)
qed

subsection \<open>Frames\<close>

fun sent_keys :: "tail_frame list \<Rightarrow> bytes list" where
  "sent_keys [] = []"
| "sent_keys (Event key r # frs) = key # sent_keys frs"
| "sent_keys (_ # frs) = sent_keys frs"

lemma sent_keys_append [simp]: "sent_keys (xs @ ys) = sent_keys xs @ sent_keys ys"
  by (induction xs rule: sent_keys.induct) simp_all

text \<open>Every event carries the row of its key, and the rows of an answer are sent or remembered.\<close>

lemma tail_rows_inv:
  assumes "tail_inv ks st" and "tail_rows num rs st = (sent, st')"
  shows "tail_inv (ks @ sent_keys sent) st'
    \<and> set (ks @ sent_keys sent) = set ks \<union> tail_key num ` set rs
    \<and> (\<forall>fr \<in> set sent. \<exists>r \<in> set rs. fr = Event (tail_key num r) r)"
  using assms
proof (induction num rs st arbitrary: ks sent rule: tail_rows.induct)
  case (2 num r rs st)
  let ?key = "tail_key num r"
  show ?case
  proof (cases "?key \<in> ts_seen st")
    case True
    then have "?key \<in> set ks" using "2.prems"(1) by (auto simp: tail_inv_def dest: in_set_dropD)
    moreover have "tail_rows num rs st = (sent, st')" using "2.prems"(2) True by (simp add: Let_def)
    ultimately show ?thesis using "2.IH"(1) [OF refl True "2.prems"(1)] by auto
  next
    case False
    obtain more where m: "tail_rows num rs (remember ?key st) = (more, st')" "sent = Event ?key r # more"
      using "2.prems"(2) False by (auto simp: Let_def split: prod.splits)
    from "2.IH"(2) [OF refl False tail_inv_remember [OF "2.prems"(1) False] m(1)]
    show ?thesis by (auto simp: m(2))
  qed
qed simp

definition answer_rows :: "client_error + query_result \<Rightarrow> row list" where
  "answer_rows res = (case res of Inl e \<Rightarrow> [] | Inr r \<Rightarrow> qr_data r)"

lemma tail_poll_inv:
  assumes "tail_inv ks st" and "tail_poll num res st = (sent, st')"
  shows "tail_inv (ks @ sent_keys sent) st' \<and> set (ks @ sent_keys sent) = set ks \<union> tail_key num ` set (answer_rows res)"
proof (cases res)
  case (Inr r)
  obtain evs where e: "tail_rows num (rev (qr_data r)) st = (evs, st')"
    "sent = (if qr_truncated r then [Gap] else []) @ evs @ [Heartbeat]"
    using assms(2) Inr by (auto simp: tail_poll_def split: prod.splits)
  have "sent_keys sent = sent_keys evs" by (simp add: e(2))
  then show ?thesis using tail_rows_inv [OF assms(1) e(1)] by (simp add: Inr answer_rows_def)
qed (use assms in \<open>auto simp: tail_poll_def answer_rows_def\<close>)

lemma tail_run_inv:
  "tail_inv ks st \<Longrightarrow>
   apart 4096 (ks @ sent_keys (tail_run num answers st))
   \<and> set (ks @ sent_keys (tail_run num answers st)) = set ks \<union> tail_key num ` set (concat (map answer_rows answers))"
proof (induction answers arbitrary: ks st)
  case (Cons res rest)
  obtain sent st' where p: "tail_poll num res st = (sent, st')" by fastforce
  note i = tail_poll_inv [OF Cons.prems p]
  from Cons.IH [of "ks @ sent_keys sent" st'] i show ?case by (auto simp: p)
qed (simp add: tail_inv_def)

subsection \<open>Reading the stream\<close>

text \<open>How a client of server-sent events cuts the stream into blocks: at blank lines.\<close>

fun sse_blocks :: "bytes \<Rightarrow> bytes \<Rightarrow> bytes list" where
  "sse_blocks acc [] = []"
| "sse_blocks acc [a] = []"
| "sse_blocks acc (a # b # s) =
     (if a = CHR 0x0A \<and> b = CHR 0x0A then acc # sse_blocks [] s else sse_blocks (acc @ [a]) (b # s))"

text \<open>A block with no blank line in it.\<close>

fun solid :: "bytes \<Rightarrow> bool" where
  "solid [] \<longleftrightarrow> True"
| "solid [a] \<longleftrightarrow> a \<noteq> CHR 0x0A"
| "solid (a # b # s) \<longleftrightarrow> \<not> (a = CHR 0x0A \<and> b = CHR 0x0A) \<and> solid (b # s)"

lemma sse_blocks_block: "solid b \<Longrightarrow> sse_blocks acc (b @ CHR 0x0A # CHR 0x0A # rest) = (acc @ b) # sse_blocks [] rest"
  by (induction b arbitrary: acc rule: solid.induct) simp_all

lemma one_line_solid: "one_line b \<Longrightarrow> solid b"
  by (induction b rule: solid.induct) simp_all

lemma frame_block_solid:
  assumes "\<And>s. one_line (num s)"
  shows "solid (frame_block num fr)"
proof (cases fr)
  case (Event key r)
  then show ?thesis using json_value_one_line [of num, OF assms] by (intro one_line_solid) (simp del: json_value.simps)
qed (simp_all add: code_object_def)

lemma sse_blocks_frames:
  assumes "\<And>s. one_line (num s)"
  shows "sse_blocks [] (concat (map (frame_out num) frs)) = map (frame_block num) frs"
  by (induction frs) (simp_all add: frame_out_def sse_blocks_block frame_block_solid [OF assms])

section \<open>The properties of search and tail\<close>



section \<open>Witnesses\<close>



end
