(* ===== verification/Http.thy ===== *)
theory Http
  imports Routes Server_Correct
begin

text \<open>
  The API of \<^verbatim>\<open>backend/internal/api\<close> as its clients see it: the replies with their status, headers and
  JSON body, and a request from \<^verbatim>\<open>requestLog\<close> through \<^verbatim>\<open>authMiddleware\<close> and the multiplexer to its handler
  and back, with everything it changes.

  Shown is that a request without a session neither changes nor reveals anything that belongs to
  the users, and that every request is counted once under the status that was sent.
\<close>

section \<open>Definitions\<close>

subsection \<open>Replies\<close>

text \<open>
  The values the handlers encode.  \<^verbatim>\<open>encoding/json\<close> writes the members of a map in the order of their
  keys and those of a struct as they are declared.  How a time is written depends on its zone and
  is an argument, like the text of a number.
\<close>

datatype json =
    J_str bytes
  | J_int int
  | J_bool bool
  | J_null
  | J_time instant
  | J_row row
  | J_list "json list"
  | J_map "(bytes \<times> json) list"
  | J_struct "(bytes \<times> json) list"

definition json_struct :: "(bytes \<times> bytes) list \<Rightarrow> bytes" where
  "json_struct kvs = ''{'' @ join '','' (map json_member kvs) @ ''}''"

fun json_text :: "(bytes \<Rightarrow> bytes) \<Rightarrow> (instant \<Rightarrow> bytes) \<Rightarrow> json \<Rightarrow> bytes" where
  "json_text num stamp (J_str s) = json_string s"
| "json_text num stamp (J_int n) = itoa n"
| "json_text num stamp (J_bool b) = (if b then ''true'' else ''false'')"
| "json_text num stamp J_null = ''null''"
| "json_text num stamp (J_time t) = CHR 0x22 # stamp t @ [CHR 0x22]"
| "json_text num stamp (J_row r) = json_value num (AObj r)"
| "json_text num stamp (J_list vs) = ''['' @ join '','' (map (json_text num stamp) vs) @ '']''"
| "json_text num stamp (J_map kvs) = json_object (map (\<lambda>(k, v). (k, json_text num stamp v)) kvs)"
| "json_text num stamp (J_struct kvs) = json_struct (map (\<lambda>(k, v). (k, json_text num stamp v)) kvs)"

text \<open>A member that is left out when it is empty.\<close>

definition omit_empty :: "bytes \<Rightarrow> bytes \<Rightarrow> (bytes \<times> json) list" where
  "omit_empty k v = (if v = [] then [] else [(k, J_str v)])"

definition capabilities_json :: "capabilities \<Rightarrow> json" where
  "capabilities_json c = J_struct
     ([(''backend'', J_str (cp_backend c)), (''full_text'', J_bool (cp_full_text c)),
       (''field_discovery'', J_bool (cp_field_discovery c)), (''facets'', J_bool (cp_facets c)),
       (''statistics'', J_bool (cp_statistics c)), (''live_tail'', J_bool (cp_live_tail c))]
      @ omit_empty ''native_dialect'' (cp_native_dialect c))"

definition query_result_json :: "query_result \<Rightarrow> json" where
  "query_result_json r = J_struct
     ([(''data'', J_list (map J_row (qr_data r)))] @ omit_empty ''next_cursor'' (qr_next_cursor r)
      @ [(''truncated'', J_bool (qr_truncated r))])"

definition bucket_json :: "bucket \<Rightarrow> json" where
  "bucket_json b = J_struct [(''timestamp'', J_time (bk_timestamp b)), (''count'', J_int (bk_count b))]"

definition value_count_json :: "value_count \<Rightarrow> json" where
  "value_count_json v = J_struct [(''value'', J_str (vc_value v)), (''count'', J_int (vc_count v))]"

text \<open>\<^verbatim>\<open>Stats\<close> leaves the slice of the volume nil when there are no buckets; the other lists are made.\<close>

definition stats_json :: "stats_result \<Rightarrow> json" where
  "stats_json s = J_struct
     [(''total'', J_int (sr_total s)),
      (''volume'', if sr_volume s = [] then J_null else J_list (map bucket_json (sr_volume s))),
      (''severities'', J_list (map value_count_json (sr_severities s))),
      (''top_hosts'', J_list (map value_count_json (sr_top_hosts s))),
      (''top_applications'', J_list (map value_count_json (sr_top_applications s)))]"

definition field_info_json :: "field_info \<Rightarrow> json" where
  "field_info_json f = J_struct
     ([(''name'', J_str (fi_name f))] @ (if fi_count f = 0 then [] else [(''count'', J_int (fi_count f))]))"

definition saved_search_json :: "saved_search \<Rightarrow> json" where
  "saved_search_json v = J_struct
     [(''id'', J_str (sv_id v)), (''name'', J_str (sv_name v)), (''description'', J_str (sv_description v)),
      (''query'', J_str (sv_query v)), (''default_time_range'', J_str (sv_default_range v)),
      (''created_by'', J_str (sv_created_by v)), (''created_at'', J_time (sv_created_at v)), (''updated_at'', J_time (sv_updated_at v))]"

definition source_view_json :: "source_view \<Rightarrow> json" where
  "source_view_json v = J_struct
     [(''id'', J_str (vw_id v)), (''name'', J_str (vw_name v)), (''protocol'', J_str (vw_protocol v)),
      (''address'', J_str (vw_address v)), (''parser'', J_str (vw_parser v)), (''enabled'', J_bool (vw_enabled v)),
      (''status'', J_str (vw_status v))]"

definition readiness_json :: "readiness \<Rightarrow> json" where
  "readiness_json r = J_map
     [(''status'', J_str (rd_status r)),
      (''checks'', J_map
        ([(''ingestion'', J_str (rd_ingestion r)), (''storage'', J_map [(''healthy'', J_bool (rd_storage_healthy r))])]
         @ (case rd_control_store r of None \<Rightarrow> [] | Some v \<Rightarrow> [(''control_store'', J_str v)])))]"

definition data_json :: "('a \<Rightarrow> json) \<Rightarrow> 'a list \<Rightarrow> json" where
  "data_json f vs = J_map [(''data'', J_list (map f vs))]"

definition code_json :: "bytes \<Rightarrow> json" where
  "code_json code = J_map [(''code'', J_str code)]"

record http_response =
  rs_status :: int
  rs_headers :: "(bytes \<times> bytes) list"
  rs_body :: bytes

text \<open>
  What the handlers take from outside: among others the text of an error, the page of the
  Prometheus handler, and what an export that fails has written before it did.
\<close>

record api_env =
  ev_world :: world
  ev_visit :: "log_entry \<Rightarrow> (bytes \<times> any_value) list \<times> (bytes \<times> bytes) list"
  ev_early :: bool
  ev_compare :: "bytes \<Rightarrow> bytes \<Rightarrow> bool"
  ev_stamp :: "instant \<Rightarrow> bytes"
  ev_message :: bytes
  ev_metrics_page :: http_response
  ev_partial :: bytes
  ev_control_up :: bool
  ev_db_fails :: bool
  ev_collate :: "bytes \<Rightarrow> bytes \<Rightarrow> bool"
  ev_less :: "bytes \<Rightarrow> bytes \<Rightarrow> bool"
  ev_ticks :: "instant list"

definition write_json :: "api_env \<Rightarrow> int \<Rightarrow> json \<Rightarrow> http_response" where
  "write_json env status v =
     \<lparr>rs_status = status, rs_headers = [(''Content-Type'', ''application/json''), (''X-Content-Type-Options'', ''nosniff'')],
      rs_body = json_text (wd_number (ev_world env)) (ev_stamp env) v @ [CHR 0x0A]\<rparr>"

subsection \<open>Requests\<close>

text \<open>
  A request, with the segments of its clean path (the multiplexer redirects others), the parameters of
  its query, its session cookie, and its body as the decoders of the handlers see it.
\<close>

record http_call =
  ht_method :: bytes
  ht_path :: "bytes list"
  ht_format :: bytes
  ht_text :: bytes
  ht_limit :: bytes
  ht_cookie :: "bytes option"
  ht_tls :: bool
  ht_query :: "log_query option"
  ht_login :: "(bytes \<times> bytes) option"
  ht_saved :: "saved_search option"
  ht_ingest :: ingest_body
  ht_token_bytes :: bytes
  ht_id_bytes :: "u8 list option"
  ht_now :: instant
  ht_elapsed :: duration

text \<open>
  What requests change: the sessions, the saved searches in memory and in the database, the batches
  handed to storage and the metrics.
\<close>

record api_state =
  as_auth :: auth_manager
  as_saved :: memory_store
  as_table :: table
  as_appended :: "log_entry list list"
  as_http :: http_metrics

text \<open>The replies of the handlers that run a query; only \<^verbatim>\<open>searchLogs\<close> says why a request is invalid.\<close>

fun query_reply :: "api_env \<Rightarrow> bool \<Rightarrow> ('a \<Rightarrow> json) \<Rightarrow> 'a reply \<Rightarrow> http_response" where
  "query_reply env verbose f (Failed status code) =
     write_json env status (if code = ''query_error'' \<or> verbose \<and> code = ''invalid_request''
       then J_map [(''code'', J_str code), (''message'', J_str (ev_message env))] else code_json code)"
| "query_reply env verbose f (Failed_at status code i) = write_json env status (J_map [(''code'', J_str code), (''index'', J_int (int i))])"
| "query_reply env verbose f (Sent status v) = write_json env status (f v)"

definition export_reply :: "api_env \<Rightarrow> (bytes \<times> bytes \<times> (client_error + bytes)) reply \<Rightarrow> http_response" where
  "export_reply env r =
     (case r of
        Sent status (t, disposition, out) \<Rightarrow>
          \<lparr>rs_status = status, rs_headers = [(''Content-Type'', t), (''Content-Disposition'', disposition)],
           rs_body = (case out of Inl e \<Rightarrow> ev_partial env | Inr b \<Rightarrow> b)\<rparr>
      | Failed status code \<Rightarrow> write_json env status (code_json code)
      | Failed_at status code i \<Rightarrow> write_json env status (code_json code))"

definition tail_reply :: "api_env \<Rightarrow> bytes reply \<Rightarrow> http_response" where
  "tail_reply env r =
     (case r of
        Sent status out \<Rightarrow>
          \<lparr>rs_status = status, rs_headers = [(''Content-Type'', ''text/event-stream''), (''Cache-Control'', ''no-cache''),
             (''X-Accel-Buffering'', ''no'')], rs_body = out\<rparr>
      | Failed status code \<Rightarrow> write_json env status (code_json code)
      | Failed_at status code i \<Rightarrow> write_json env status (code_json code))"

text \<open>The cookies of \<^verbatim>\<open>login\<close> and \<^verbatim>\<open>logout\<close>, as \<^verbatim>\<open>http.SetCookie\<close> writes them.\<close>

definition session_cookie :: "bool \<Rightarrow> bytes \<Rightarrow> bytes" where
  "session_cookie tls token =
     ''syslogx_session='' @ token @ ''; Path=/; Max-Age=43200; HttpOnly'' @ (if tls then ''; Secure'' else []) @ ''; SameSite=Strict''"

definition expired_cookie :: bytes where
  "expired_cookie = ''syslogx_session=; Path=/; Max-Age=0; HttpOnly''"

definition handle_login :: "api_env \<Rightarrow> http_call \<Rightarrow> api_state \<Rightarrow> api_state \<times> http_response" where
  "handle_login env req st =
     (case login (ev_compare env) (as_auth st) (ht_login req) (ht_token_bytes req) (ht_now req) of
        (a, None) \<Rightarrow> (st\<lparr>as_auth := a\<rparr>, write_json env 401 (code_json ''invalid_credentials''))
      | (a, Some token) \<Rightarrow>
          (let r = write_json env 200 (J_map [(''username'', J_str ''admin''), (''role'', J_str ''admin'')]) in
           (st\<lparr>as_auth := a\<rparr>, r\<lparr>rs_headers := (''Set-Cookie'', session_cookie (ht_tls req) token) # rs_headers r\<rparr>)))"

definition handle_logout :: "http_call \<Rightarrow> api_state \<Rightarrow> api_state \<times> http_response" where
  "handle_logout req st =
     (st\<lparr>as_auth := logout (as_auth st) (ht_cookie req)\<rparr>,
      \<lparr>rs_status = 204, rs_headers = [(''Set-Cookie'', expired_cookie)], rs_body = []\<rparr>)"

definition handle_me :: "api_env \<Rightarrow> http_call \<Rightarrow> api_state \<Rightarrow> http_response" where
  "handle_me env req st =
     (case me (as_auth st) (ht_cookie req) (ht_now req) of
        None \<Rightarrow> write_json env 401 (code_json ''unauthorized'')
      | Some (user, role, enabled) \<Rightarrow>
          write_json env 200 (J_map [(''username'', J_str user), (''role'', J_str role), (''auth_enabled'', J_bool enabled)]))"

text \<open>The handlers of saved searches on one of the two stores.\<close>

definition saved_error :: "int \<Rightarrow> bytes" where
  "saved_error status =
     (if status = 400 then ''invalid_saved_search'' else if status = 500 then ''internal_error''
      else if status = 404 then ''not_found'' else ''control_store_unavailable'')"

definition list_reply :: "api_env \<Rightarrow> int \<times> saved_search list \<Rightarrow> http_response" where
  "list_reply env r =
     (case r of (status, vs) \<Rightarrow> write_json env status (if status = 200 then data_json saved_search_json vs else code_json (saved_error status)))"

definition create_reply :: "api_env \<Rightarrow> http_call \<Rightarrow> bytes \<Rightarrow> int \<Rightarrow> http_response" where
  "create_reply env req owner status =
     write_json env status
       (case (ht_saved req, ht_id_bytes req) of
          (Some v, Some bs) \<Rightarrow>
            if status = 201 then saved_search_json (new_saved v bs owner (ht_now req)) else code_json (saved_error status)
        | _ \<Rightarrow> code_json (saved_error status))"

definition delete_reply :: "api_env \<Rightarrow> int \<Rightarrow> http_response" where
  "delete_reply env status =
     (if status = 204 then \<lparr>rs_status = 204, rs_headers = [], rs_body = []\<rparr> else write_json env status (code_json (saved_error status)))"

definition path_value :: "route \<Rightarrow> http_call \<Rightarrow> bytes" where
  "path_value r req =
     (case List.find (\<lambda>(p, v). case p of Wild w \<Rightarrow> True | Lit l \<Rightarrow> False) (zip (rt_pattern r) (ht_path req)) of
        None \<Rightarrow> []
      | Some (p, v) \<Rightarrow> v)"

definition health_reply :: "api_env \<Rightarrow> http_response" where
  "health_reply env = write_json env 200 (J_map [(''status'', J_str ''ok'')])"

definition capabilities_reply :: "api_env \<Rightarrow> http_response" where
  "capabilities_reply env = write_json env 200 (capabilities_json client_capabilities)"

text \<open>A route's handler.\<close>

definition run_handler ::
  "api_env \<Rightarrow> bool \<Rightarrow> server \<Rightarrow> client \<Rightarrow> route \<Rightarrow> http_call \<Rightarrow> api_state \<Rightarrow> api_state \<times> http_response" where
  "run_handler env accepting sv c r req st =
     (let wd = ev_world env; can = sr_query sv; q = ht_query req; now = ht_now req;
          owner = owner_of (as_auth st) (ht_cookie req) now; pg = postgres_ops (ev_collate env) (ev_db_fails env);
          mem = memory_ops (ev_less env) in
      case rt_handler r of
        H_health \<Rightarrow> (st, health_reply env)
      | H_ready \<Rightarrow>
          (let rd = ready accepting (check_health wd c) (if sr_control sv then Some (ev_control_up env) else None)
           in (st, write_json env (rd_code rd) (readiness_json rd)))
      | H_metrics \<Rightarrow> (st, ev_metrics_page env)
      | H_capabilities \<Rightarrow> (st, capabilities_reply env)
      | H_recent \<Rightarrow> (st, query_reply env False (data_json J_row) (recent_logs wd (ev_early env) (sr_recent sv) (ht_limit req)))
      | H_ingest \<Rightarrow>
          (case ingest_json (client_append wd (ev_visit env) c) now (ht_ingest req) of
             (reply, batch) \<Rightarrow>
               (st\<lparr>as_appended := as_appended st @ (case batch of None \<Rightarrow> [] | Some b \<Rightarrow> [b])\<rparr>,
                query_reply env False (\<lambda>n. J_map [(''accepted'', J_int n)]) reply))
      | H_search \<Rightarrow> (st, query_reply env True query_result_json (search_logs wd c can q))
      | H_stats \<Rightarrow> (st, query_reply env False stats_json (log_stats wd c can q))
      | H_fields \<Rightarrow> (st, query_reply env False (data_json field_info_json) (api_field_names wd c can q))
      | H_field_values \<Rightarrow>
          (st, query_reply env False (data_json value_count_json) (api_field_values wd c can q (path_value r req)))
      | H_export \<Rightarrow> (st, export_reply env (export_logs wd (ev_early env) c can q (ht_format req)))
      | H_tail \<Rightarrow> (st, tail_reply env (tail_logs wd c can True (ht_text req) (ev_ticks env)))
      | H_login \<Rightarrow> handle_login env req st
      | H_logout \<Rightarrow> handle_logout req st
      | H_me \<Rightarrow> (st, handle_me env req st)
      | H_list_saved \<Rightarrow>
          (st, list_reply env (if sr_saved_store sv then list_saved pg (as_table st) owner else list_saved mem (as_saved st) owner))
      | H_create_saved \<Rightarrow>
          if sr_saved_store sv
          then (case create_saved pg (as_table st) (ht_saved req) (ht_id_bytes req) owner now of
                  (t, status) \<Rightarrow> (st\<lparr>as_table := t\<rparr>, create_reply env req owner status))
          else (case create_saved mem (as_saved st) (ht_saved req) (ht_id_bytes req) owner now of
                  (m, status) \<Rightarrow> (st\<lparr>as_saved := m\<rparr>, create_reply env req owner status))
      | H_delete_saved \<Rightarrow>
          if sr_saved_store sv
          then (case delete_saved pg (as_table st) owner (path_value r req) of
                  (t, status) \<Rightarrow> (st\<lparr>as_table := t\<rparr>, delete_reply env status))
          else (case delete_saved mem (as_saved st) owner (path_value r req) of
                  (m, status) \<Rightarrow> (st\<lparr>as_saved := m\<rparr>, delete_reply env status))
      | H_sources \<Rightarrow> (st, write_json env 200 (data_json source_view_json (list_sources accepting (sr_address sv) (sr_sources sv)))))"

text \<open>The multiplexer without a route: \<^verbatim>\<open>http.Error\<close>, with the methods that would do if there are any.\<close>

definition plain_error :: "int \<Rightarrow> bytes \<Rightarrow> http_response" where
  "plain_error status message =
     \<lparr>rs_status = status, rs_headers = [(''Content-Type'', ''text/plain; charset=utf-8''), (''X-Content-Type-Options'', ''nosniff'')],
      rs_body = message @ [CHR 0x0A]\<rparr>"

definition no_route :: "http_call \<Rightarrow> http_response" where
  "no_route req =
     (let allowed = filter (\<lambda>verb. find_route verb (ht_path req) \<noteq> None) [''DELETE'', ''GET'', ''HEAD'', ''POST''] in
      if allowed = [] then plain_error 404 ''404 page not found''
      else (let r = plain_error 405 ''Method Not Allowed'' in r\<lparr>rs_headers := (''Allow'', join '', '' allowed) # rs_headers r\<rparr>))"

text \<open>A request from end to end: \<^verbatim>\<open>requestLog\<close> around \<^verbatim>\<open>authMiddleware\<close> around the multiplexer.\<close>

definition handle_request ::
  "api_env \<Rightarrow> bool \<Rightarrow> server \<Rightarrow> client \<Rightarrow> http_call \<Rightarrow> api_state \<Rightarrow> api_state \<times> http_response" where
  "handle_request env accepting sv c req st =
     (let sv' = serve (as_auth st) (ht_method req) (ht_path req) (ht_cookie req) (ht_now req) in
      case (case sv' of
              Unauthorized \<Rightarrow> (st, write_json env 401 (code_json ''unauthorized''))
            | No_route \<Rightarrow> (st, no_route req)
            | Handled r \<Rightarrow> run_handler env accepting sv c r req st) of
        (st', resp) \<Rightarrow> (st'\<lparr>as_http := request_log (ht_method req) sv' [rs_status resp] (ht_elapsed req) (as_http st')\<rparr>, resp))"

section \<open>Without a session\<close>

text \<open>The handlers that need no session see only this of the world and of the server.\<close>

definition public_view :: "api_env \<Rightarrow> server \<Rightarrow> client \<Rightarrow> (bytes \<Rightarrow> bytes) \<times> (instant \<Rightarrow> bytes) \<times> (bytes \<Rightarrow> bytes \<Rightarrow> bool) \<times> http_response \<times> bool \<times> bool option" where
  "public_view env sv c =
     (wd_number (ev_world env), ev_stamp env, ev_compare env, ev_metrics_page env, check_health (ev_world env) c,
      if sr_control sv then Some (ev_control_up env) else None)"

lemma write_json_view:
  "wd_number (ev_world env') = wd_number (ev_world env) \<Longrightarrow> ev_stamp env' = ev_stamp env \<Longrightarrow> write_json env' = write_json env"
  by (intro ext) (simp add: write_json_def)

text \<open>What a public handler changes: at most the sessions, and these only with the password.\<close>

definition keeps_data :: "api_state \<Rightarrow> api_state \<Rightarrow> bool" where
  "keeps_data st st' \<longleftrightarrow> as_saved st' = as_saved st \<and> as_table st' = as_table st \<and> as_appended st' = as_appended st"

definition may_login :: "api_env \<Rightarrow> http_call \<Rightarrow> auth_manager \<Rightarrow> auth_manager \<Rightarrow> bool" where
  "may_login env req a a' \<longleftrightarrow>
     a' = a \<or> (\<exists>password. ht_login req = Some (''admin'', password) \<and> ev_compare env (am_hash a) password
                 \<and> a' = fst (issue a (ht_token_bytes req) (ht_now req)))"

lemma login_changes: "may_login env req a (fst (login (ev_compare env) a (ht_login req) (ht_token_bytes req) (ht_now req)))"
  by (auto simp: may_login_def login_def split: option.splits prod.splits)

lemma public_handler:
  assumes "public (rt_handler r)"
  shows "keeps_data st (fst (run_handler env accepting sv c r req st))"
    and "may_login env req (as_auth st) (as_auth (fst (run_handler env accepting sv c r req st)))"
    and "public_view env' sv' c' = public_view env sv c \<Longrightarrow> as_auth st' = as_auth st \<Longrightarrow>
      snd (run_handler env' accepting sv' c' r req st') = snd (run_handler env accepting sv c r req st)"
proof -
  note defs = run_handler_def health_reply_def Let_def handle_login_def
  from assms consider "rt_handler r = H_health" | "rt_handler r = H_ready" | "rt_handler r = H_metrics" | "rt_handler r = H_login"
    by (auto simp: public_def)
  then have "keeps_data st (fst (run_handler env accepting sv c r req st))
      \<and> may_login env req (as_auth st) (as_auth (fst (run_handler env accepting sv c r req st)))
      \<and> (public_view env' sv' c' = public_view env sv c \<longrightarrow> as_auth st' = as_auth st \<longrightarrow>
          snd (run_handler env' accepting sv' c' r req st') = snd (run_handler env accepting sv c r req st))"
  proof cases
    case 4
    then show ?thesis
      using login_changes [of env req "as_auth st"] write_json_view [of env' env]
      by (auto simp: defs keeps_data_def public_view_def split: prod.splits option.splits)
  qed (use write_json_view [of env' env] in \<open>simp_all add: defs keeps_data_def may_login_def public_view_def\<close>)
  then show "keeps_data st (fst (run_handler env accepting sv c r req st))"
    "may_login env req (as_auth st) (as_auth (fst (run_handler env accepting sv c r req st)))"
    "public_view env' sv' c' = public_view env sv c \<Longrightarrow> as_auth st' = as_auth st \<Longrightarrow>
      snd (run_handler env' accepting sv' c' r req st') = snd (run_handler env accepting sv c r req st)"
    by blast+
qed

lemma served_public:
  assumes "am_enabled a" and "get_session a cookie now = None" and "serve a verb segs cookie now = Handled r"
  shows "public (rt_handler r)"
proof (rule ccontr)
  assume h: "\<not> public (rt_handler r)"
  have adm: "admits a (path_of segs) cookie now" and f: "find_route verb segs = Some r"
    using assms(3) by (auto simp: serve_def split: if_splits option.splits)
  have "r \<in> set routes" "list_all2 seg_match (rt_pattern r) segs" using find_route_in [OF f] by (auto simp: route_match_def)
  from private_path [OF this(1) h this(2)] adm assms(1,2) show False by (simp add: admits_def)
qed


section \<open>Sessions over HTTP\<close>

text \<open>A request that reaches its route, and what becomes of the rest of the state.\<close>

lemma handled_request:
  assumes "serve (as_auth st) (ht_method req) (ht_path req) (ht_cookie req) (ht_now req) = Handled r"
    and "run_handler env accepting sv c r req st = (t, resp)"
  obtains m where "handle_request env accepting sv c req st = (t\<lparr>as_http := m\<rparr>, resp)"
  using assms by (auto simp: handle_request_def Let_def)

definition is_login :: "http_call \<Rightarrow> bool" where
  "is_login req \<longleftrightarrow> ht_method req = ''POST'' \<and> ht_path req = [''api'', ''v1'', ''auth'', ''login'']"

definition is_logout :: "http_call \<Rightarrow> bool" where
  "is_logout req \<longleftrightarrow> ht_method req = ''POST'' \<and> ht_path req = [''api'', ''v1'', ''auth'', ''logout'']"

lemma auth_routes:
  "find_route ''POST'' [''api'', ''v1'', ''auth'', ''login''] = Some (route ''POST'' (api [Lit ''auth'', Lit ''login'']) H_login)"
  "find_route ''POST'' [''api'', ''v1'', ''auth'', ''logout''] = Some (route ''POST'' (api [Lit ''auth'', Lit ''logout'']) H_logout)"
  by (simp_all add: find_route_def routes_defs)

lemma login_request:
  assumes "is_login req" and "handle_request env accepting sv c req st = (st1, resp)" and "rs_status resp = 200"
  shows "am_enabled (as_auth st)" and "as_auth st1 = fst (issue (as_auth st) (ht_token_bytes req) (ht_now req))"
    and "(''Set-Cookie'', session_cookie (ht_tls req) (base64_encode (ht_token_bytes req))) \<in> set (rs_headers resp)"
proof -
  let ?r = "route ''POST'' (api [Lit ''auth'', Lit ''login'']) H_login"
  have "serve (as_auth st) (ht_method req) (ht_path req) (ht_cookie req) (ht_now req) = Handled ?r"
    using assms(1) auth_routes(1) by (simp add: is_login_def serve_def admits_def path_of_def)
  moreover have "run_handler env accepting sv c ?r req st = handle_login env req st" by (simp add: run_handler_def Let_def route_def)
  ultimately obtain t where "handle_login env req st = (t, resp)" "as_auth st1 = as_auth t"
    using assms(2) by (auto simp: handle_request_def Let_def split: prod.splits)
  then show "am_enabled (as_auth st)" "as_auth st1 = fst (issue (as_auth st) (ht_token_bytes req) (ht_now req))"
    "(''Set-Cookie'', session_cookie (ht_tls req) (base64_encode (ht_token_bytes req))) \<in> set (rs_headers resp)"
    using assms(3)
    by (auto simp: handle_login_def login_def issue_def Let_def write_json_def split: option.splits prod.splits if_splits)
qed

lemma no_session_unauthorized:
  assumes "am_enabled a" and "get_session a cookie now = None" and "find_route verb segs = Some r" and "\<not> public (rt_handler r)"
  shows "serve a verb segs cookie now = Unauthorized"
proof (rule ccontr)
  assume "serve a verb segs cookie now \<noteq> Unauthorized"
  then have "serve a verb segs cookie now = Handled r" using assms(3) by (auto simp: serve_def split: if_splits)
  from served_public [OF assms(1,2) this] assms(4) show False by simp
qed


section \<open>The record of requests\<close>

lemma run_handler_http: "as_http (fst (run_handler env accepting sv c r req st)) = as_http st"
  by (cases "rt_handler r")
    (simp_all add: run_handler_def Let_def handle_login_def handle_logout_def split: prod.splits option.splits)

text \<open>Every request is counted and timed once, under its route and with the status that was sent.\<close>

lemma request_counted:
  assumes "handle_request env accepting sv c req st = (st', resp)"
    and "label = (case serve (as_auth st) (ht_method req) (ht_path req) (ht_cookie req) (ht_now req) of
                    Handled r \<Rightarrow> pattern_text r | _ \<Rightarrow> ''unmatched'')"
  shows "hm_requests (as_http st') = counter_add (ht_method req, label, itoa (rs_status resp)) 1 (hm_requests (as_http st))
     \<and> hm_duration (as_http st') = histogram_observe (ht_method req, label) (ht_elapsed req) (hm_duration (as_http st))"
proof (cases "serve (as_auth st) (ht_method req) (ht_path req) (ht_cookie req) (ht_now req)")
  case (Handled r)
  obtain t out where t: "run_handler env accepting sv c r req st = (t, out)" by fastforce
  have "as_http t = as_http st" using run_handler_http [of env accepting sv c r req st] by (simp add: t)
  then show ?thesis
    using assms Handled t by (auto simp: handle_request_def Let_def request_log_def recorded_status_def observe_def pattern_text_def)
qed (use assms in \<open>auto simp: handle_request_def Let_def request_log_def recorded_status_def observe_def\<close>)

section \<open>Witnesses\<close>

definition sample_api_env :: api_env where
  "sample_api_env = \<lparr>ev_world = sample_world [], ev_visit = (\<lambda>_. ([], [])), ev_early = False, ev_compare = (\<lambda>h p. h = p),
     ev_stamp = (\<lambda>_. []), ev_message = [], ev_metrics_page = \<lparr>rs_status = 200, rs_headers = [], rs_body = []\<rparr>, ev_partial = [],
     ev_control_up = True, ev_db_fails = False, ev_collate = (\<lambda>_ _. False), ev_less = (\<lambda>_ _. False), ev_ticks = []\<rparr>"

definition sample_call :: "bytes \<Rightarrow> bytes list \<Rightarrow> http_call" where
  "sample_call verb path = \<lparr>ht_method = verb, ht_path = path, ht_format = [], ht_text = [], ht_limit = [], ht_cookie = None, ht_tls = True,
     ht_query = None, ht_login = Some (''admin'', ''secret''), ht_saved = None, ht_ingest = Document None, ht_token_bytes = ''abc'',
     ht_id_bytes = None, ht_now = 0, ht_elapsed = 5\<rparr>"

definition sample_api_state :: api_state where
  "sample_api_state = \<lparr>as_auth = new_auth_manager (\<lambda>p. Some p) ''secret'', as_saved = [], as_table = [], as_appended = [], as_http = new_http\<rparr>"

definition sample_server :: server where
  "sample_server = new_server (cf_http default_config) (Vl_backend sample_client) False (new_auth_manager (\<lambda>p. Some p) ''secret'') []"



text \<open>
  Statistics over a range without entries: the volume in the reply is null and not an empty list,
  which the frontend does not expect.
\<close>

theorem empty_volume_null:
  "rs_body (query_reply sample_api_env False stats_json (Sent 200 \<lparr>sr_total = 0, sr_volume = [], sr_severities = [], sr_top_hosts = [], sr_top_applications = []\<rparr>))
   = ''{'' @ [CHR 0x22] @ ''total'' @ [CHR 0x22] @ '':0,'' @ [CHR 0x22] @ ''volume'' @ [CHR 0x22] @ '':null,'' @ [CHR 0x22] @ ''severities'' @ [CHR 0x22]
     @ '':[],'' @ [CHR 0x22] @ ''top_hosts'' @ [CHR 0x22] @ '':[],'' @ [CHR 0x22] @ ''top_applications'' @ [CHR 0x22] @ '':[]}'' @ [CHR 0x0A]"
  by code_simp

end
