(* ===== verification/Parser_3164.thy ===== *)
theory Parser_3164
  imports Parser_Correct
begin

text \<open>
  RFC 3164 in depth: the year that \<^verbatim>\<open>nearestRFC3164Time\<close> infers, the tag that \<^verbatim>\<open>parseTag\<close>
  splits, and the regular expression of the header.
\<close>

section \<open>Inferring the year\<close>

text \<open>What the stamp says apart from the year: month, day, hour, minute, second, fraction.\<close>

definition stamp_fields :: "bytes \<Rightarrow> (int \<times> int \<times> int \<times> int \<times> int \<times> int) option" where
  "stamp_fields v =
     Option.bind (scan_month (trim_left v '' '')) (\<lambda>(m, s3).
     Option.bind (skip_layout s3 '' '') (\<lambda>s4.
     Option.bind (getnum False s4) (\<lambda>(d, s5).
     Option.bind (skip_layout s5 '' '') (\<lambda>s6.
     Option.bind (scan_clock s6) (\<lambda>((h, mi, sec, ns), s7).
     if s7 = [] then Some (m, d, h, mi, sec, ns) else None)))))"

definition stamp_at :: "location \<Rightarrow> int \<Rightarrow> bytes \<Rightarrow> instant option" where
  "stamp_at loc y v =
     (if 1000 \<le> y \<and> y \<le> 9999
      then Option.bind (stamp_fields v) (\<lambda>(m, d, h, mi, sec, ns).
        if valid_day y m d
        then Some (date_in loc \<lparr>dt_year = y, dt_month = m, dt_day = d, dt_hour = h,
               dt_min = mi, dt_sec = sec, dt_nsec = ns\<rparr>)
        else None)
      else None)"

lemma itoa_length:
  "0 \<le> y \<Longrightarrow> y < 1000 \<Longrightarrow> length (itoa y) < 4"
  "10000 \<le> y \<Longrightarrow> 4 < length (itoa y)"
  "1000 \<le> y \<Longrightarrow> y \<le> 9999 \<Longrightarrow> length (itoa y) = 4"
proof -
  have big: "k < length (dec_digits n)" if "10 ^ k \<le> n" "0 \<le> n" for k n
  proof -
    have "n < 10 ^ length (dec_digits n)"
      using digits_val_less [OF dec_digits_is_digit [OF that(2)]] that(2) by simp
    then have "(10 :: int) ^ k < 10 ^ length (dec_digits n)" using that(1) by linarith
    then show ?thesis by simp
  qed
  show "0 \<le> y \<Longrightarrow> y < 1000 \<Longrightarrow> length (itoa y) < 4"
    using dec_digits_length [of y 3] by (simp add: itoa_def)
  show "10000 \<le> y \<Longrightarrow> 4 < length (itoa y)" using big [of 4 y] by (simp add: itoa_def)
  show "1000 \<le> y \<Longrightarrow> y \<le> 9999 \<Longrightarrow> length (itoa y) = 4"
    using big [of 3 y] dec_digits_length [of y 4] by (simp add: itoa_def)
qed

lemma itoa_digits: "0 \<le> y \<Longrightarrow> list_all is_digit (itoa y)"
  by (simp add: itoa_def dec_digits_is_digit)

lemma scan_year_itoa:
  "Option.bind (scan_year (itoa y @ CHR '' '' # v)) (\<lambda>(z, s). Option.bind (skip_layout s '' '') (f z))
     = (if 1000 \<le> y \<and> y \<le> 9999 then f y (trim_left v '' '') else None)"
proof -
  consider "y < 0" | "0 \<le> y" "y < 1000" | "10000 \<le> y" | "1000 \<le> y" "y \<le> 9999" by linarith
  then show ?thesis
  proof cases
    case 1
    then show ?thesis by (simp add: scan_year_def itoa_def is_digit_def)
  next
    case 2
    then obtain k where "4 - length (itoa y) = Suc k"
      using itoa_length(1) by (metis Suc_diff_Suc)
    then have "\<not> list_all is_digit (take 4 (itoa y @ CHR '' '' # v))"
      by (simp add: is_digit_def)
    then have "scan_year (itoa y @ CHR '' '' # v) = None" by (simp only: scan_year_def if_False simp_thms)
    then show ?thesis using 2 by simp
  next
    case 3
    then have "4 < length (itoa y)" "list_all is_digit (itoa y)"
      using itoa_length itoa_digits by simp_all
    then have "drop 4 (itoa y) \<noteq> []" "is_digit (hd (drop 4 (itoa y)))"
      by (simp_all add: list_all_length hd_drop_conv_nth)
    then show ?thesis
      using 3 by (auto simp: scan_year_def)
  next
    case 4
    then have "take 4 (itoa y) = itoa y" "drop 4 (itoa y) = []" "list_all is_digit (itoa y)"
      "digits_val (itoa y) = y" "length (itoa y) = 4"
      using itoa_length itoa_digits by (simp_all add: itoa_def)
    then show ?thesis using 4 by (simp add: scan_year_def trim_left_def)
  qed
qed

lemma parse_stamp_in_itoa: "parse_stamp_in loc (itoa y @ CHR '' '' # v) = stamp_at loc y v"
  unfolding parse_stamp_in_def scan_year_itoa
  by (simp add: stamp_at_def stamp_fields_def split_def if_distrib [of "\<lambda>x. Option.bind x f" for f]
      if_if_eq_conj cong: if_cong)

text \<open>Every candidate stamp lies within 1466 days of the receive time.\<close>

lemma take_sum_le:
  assumes "list_all (\<lambda>l. 0 \<le> (l :: int)) ls" and "k < length ls" and "1 \<le> d" and "d \<le> ls ! k"
  shows "0 \<le> sum_list (take k ls) + d - 1" and "sum_list (take k ls) + d - 1 < sum_list ls"
proof -
  have nn: "0 \<le> sum_list (take j ls)" "0 \<le> sum_list (drop j ls)" for j
    using assms(1) by (auto simp: list_all_iff intro!: sum_list_nonneg dest: in_set_takeD in_set_dropD)
  have "sum_list ls = sum_list (take k ls) + (ls ! k + sum_list (drop (Suc k) ls))"
    using assms(2) by (metis id_take_nth_drop sum_list.append sum_list.Cons)
  then show "0 \<le> sum_list (take k ls) + d - 1" "sum_list (take k ls) + d - 1 < sum_list ls"
    using nn [of k] nn [of "Suc k"] assms(3,4) by linarith+
qed

lemma civil_sec_bounds:
  assumes "1 \<le> dt_month x" "dt_month x \<le> 12" "valid_day (dt_year x) (dt_month x) (dt_day x)"
    and "0 \<le> dt_hour x" "dt_hour x < 24" "0 \<le> dt_min x" "dt_min x < 60" "0 \<le> dt_sec x" "dt_sec x < 60"
  shows "(days_before_year (dt_year x) - unix_epoch_days) * 86400 \<le> civil_sec x"
    and "civil_sec x < (days_before_year (dt_year x + 1) - unix_epoch_days) * 86400"
proof -
  define D where "D = sum_list (take (nat (dt_month x - 1)) (month_lengths (dt_year x))) + dt_day x - 1"
  have "list_all (\<lambda>l. 0 \<le> l) (month_lengths (dt_year x))" by (simp add: month_lengths_def)
  then have "0 \<le> D" and "D < sum_list (month_lengths (dt_year x))"
    unfolding D_def
    using take_sum_le [of "month_lengths (dt_year x)" "nat (dt_month x - 1)" "dt_day x"] assms(1-3)
    by (auto simp: valid_day_def)
  moreover have "sum_list (month_lengths (dt_year x))
      = days_before_year (dt_year x + 1) - days_before_year (dt_year x)"
    by (simp add: month_lengths_sum days_before_year_Suc)
  moreover have "civil_sec x = (days_before_year (dt_year x) - unix_epoch_days + D) * 86400
      + (dt_hour x * 3600 + dt_min x * 60 + dt_sec x)"
    by (simp add: civil_sec_def D_def algebra_simps)
  ultimately show "(days_before_year (dt_year x) - unix_epoch_days) * 86400 \<le> civil_sec x"
    and "civil_sec x < (days_before_year (dt_year x + 1) - unix_epoch_days) * 86400"
    using assms(4-9) unfolding distrib_right left_diff_distrib by - linarith+
qed

text \<open>Time zones are at most a day away from UTC.\<close>

definition location_ok :: "location \<Rightarrow> bool" where
  "location_ok loc \<longleftrightarrow> (\<forall>s. \<bar>zone_offset (loc s)\<bar> \<le> 86400)"

lemma zone_adjust_near: "location_ok loc \<Longrightarrow> \<bar>zone_adjust loc s - s\<bar> \<le> 86400"
  unfolding location_ok_def zone_adjust_def Let_def
  by (smt (verit))

lemma year_in_bounds:
  assumes "location_ok loc" and "year_in loc t = y"
  shows "(days_before_year y - unix_epoch_days) * 86400 - 86400 \<le> unix_sec t"
    and "unix_sec t < (days_before_year (y + 1) - unix_epoch_days) * 86400 + 86400"
proof -
  define s where "s = unix_sec t + zone_offset (loc (unix_sec t))"
  have "days_before_year y \<le> s div 86400 + unix_epoch_days"
    "s div 86400 + unix_epoch_days < days_before_year (y + 1)"
    using assms(2) year_of_days_bounds [of "s div 86400 + unix_epoch_days"]
    by (auto simp: year_in_def Let_def s_def)
  moreover have "s = s div 86400 * 86400 + s mod 86400" "0 \<le> s mod 86400" "s mod 86400 < 86400"
    by simp_all
  moreover have "\<bar>s - unix_sec t\<bar> \<le> 86400" using assms(1) by (simp add: s_def location_ok_def)
  ultimately show "(days_before_year y - unix_epoch_days) * 86400 - 86400 \<le> unix_sec t"
    "unix_sec t < (days_before_year (y + 1) - unix_epoch_days) * 86400 + 86400"
    unfolding distrib_right left_diff_distrib by - linarith+
qed

lemma scan_month_from_bounds:
  "scan_month_from m ns s = Some (k, r) \<Longrightarrow> m \<le> k \<and> k < m + int (length ns)"
  by (induction m ns s rule: scan_month_from.induct) (auto split: if_splits)

lemma scan_month_bounds: "scan_month s = Some (m, r) \<Longrightarrow> 1 \<le> m \<and> m \<le> 12"
  using scan_month_from_bounds [of 1 short_month_names s m r]
  by (simp add: scan_month_def short_month_names_def)

lemma getnum_nonneg: "getnum b s = Some (n, r) \<Longrightarrow> 0 \<le> n"
  by (auto simp: getnum_def split: list.splits if_splits)

lemma in_range_getnum: "in_range b (getnum f s) = Some (n, r) \<Longrightarrow> 0 \<le> n \<and> n < b"
  by (auto simp: in_range_def split: option.splits if_splits prod.splits dest: getnum_nonneg)

lemma scan_fraction_bounds:
  assumes "scan_fraction s = (n, r)"
  shows "0 \<le> n" and "n < second"
proof -
  define ds where "ds = take 9 (takeWhile is_digit (tl s))"
  have ds: "list_all is_digit ds" "length ds \<le> 9"
    unfolding ds_def by (auto simp: list_all_iff dest!: in_set_takeD dest: set_takeWhileD)
  then have "0 \<le> digits_val ds" "digits_val ds < 10 ^ length ds"
    by (simp_all add: digits_val_nonneg digits_val_less)
  moreover from this have "digits_val ds * 10 ^ (9 - length ds) < 10 ^ length ds * 10 ^ (9 - length ds)"
    by (intro mult_strict_right_mono) simp_all
  moreover have "(10 :: int) ^ length ds * 10 ^ (9 - length ds) = second"
    using ds(2) by (simp flip: power_add)
  moreover have "n = 0 \<or> n = digits_val ds * 10 ^ (9 - length ds)"
    using assms by (auto simp: scan_fraction_def Let_def ds_def split: if_splits)
  ultimately show "0 \<le> n" "n < second" by auto
qed

lemma scan_clock_bounds:
  assumes "scan_clock s = Some ((h, mi, sec, ns), r)"
  shows "0 \<le> h \<and> h < 24 \<and> 0 \<le> mi \<and> mi < 60 \<and> 0 \<le> sec \<and> sec < 60 \<and> 0 \<le> ns \<and> ns < second"
proof -
  obtain s1 s2 s3 where "in_range 24 (getnum False s) = Some (h, s1)"
    "in_range 60 (getnum True s2) = Some (mi, s3)"
    "\<exists>s4 s5. in_range 60 (getnum True s4) = Some (sec, s5) \<and> scan_fraction s5 = (ns, r)"
    using assms unfolding scan_clock_def Option.bind_eq_Some_conv
    by (clarsimp simp: Option.bind_eq_Some_conv split: prod.split_asm simp del: skip_layout.simps)
      (metis surj_pair)
  then show ?thesis using in_range_getnum scan_fraction_bounds by blast
qed

lemma stamp_fields_bounds:
  assumes "stamp_fields v = Some (m, d, h, mi, sec, ns)"
  shows "1 \<le> m \<and> m \<le> 12 \<and> 0 \<le> h \<and> h < 24 \<and> 0 \<le> mi \<and> mi < 60 \<and> 0 \<le> sec \<and> sec < 60
         \<and> 0 \<le> ns \<and> ns < second"
proof -
  obtain s1 s2 where "scan_month (trim_left v '' '') = Some (m, s1)"
    "\<exists>r. scan_clock s2 = Some ((h, mi, sec, ns), r)"
    using assms unfolding stamp_fields_def Option.bind_eq_Some_conv
    by (clarsimp simp: Option.bind_eq_Some_conv split: if_split_asm simp del: skip_layout.simps) blast
  then show ?thesis using scan_month_bounds scan_clock_bounds by blast
qed

lemma days_before_year_step:
  "days_before_year (y + 1) \<le> days_before_year y + 366"
  "days_before_year y + 365 \<le> days_before_year (y + 1)"
  by (simp_all add: days_before_year_Suc)

lemma stamp_at_date:
  assumes "stamp_at loc y v = Some t"
  obtains x where "t = date_in loc x" "dt_year x = y" "0 \<le> dt_nsec x" "dt_nsec x < second"
    "(days_before_year y - unix_epoch_days) * 86400 \<le> civil_sec x"
    "civil_sec x < (days_before_year (y + 1) - unix_epoch_days) * 86400"
proof -
  obtain m d h mi s n where f: "stamp_fields v = Some (m, d, h, mi, s, n)" and d: "valid_day y m d"
    and t: "t = date_in loc \<lparr>dt_year = y, dt_month = m, dt_day = d, dt_hour = h, dt_min = mi, dt_sec = s, dt_nsec = n\<rparr>"
    using assms by (auto simp: stamp_at_def Option.bind_eq_Some_conv split: if_split_asm)
  let ?x = "\<lparr>dt_year = y, dt_month = m, dt_day = d, dt_hour = h, dt_min = mi, dt_sec = s, dt_nsec = n\<rparr>"
  show thesis
    using stamp_fields_bounds [OF f] d civil_sec_bounds [of ?x] by (intro that [of ?x]) (auto simp: t)
qed

lemma stamp_at_near:
  assumes "location_ok loc" and "stamp_at loc y v = Some t"
    and "year_in loc received - 1 \<le> y" "y \<le> year_in loc received + 1"
  shows "\<bar>t - received\<bar> < 1000 * 86400 * second"
proof -
  define Y where "Y = year_in loc received"
  obtain x where t: "t = date_in loc x" and x: "0 \<le> dt_nsec x" "dt_nsec x < second"
    and b: "(days_before_year y - unix_epoch_days) * 86400 \<le> civil_sec x"
      "civil_sec x < (days_before_year (y + 1) - unix_epoch_days) * 86400"
    using assms(2) by (rule stamp_at_date)
  have dist: "days_before_year (y + 1) - days_before_year Y \<le> 732"
    "days_before_year (Y + 1) - days_before_year y \<le> 732"
    using assms(3,4) days_before_year_step [of "Y - 1"] days_before_year_step [of Y]
      days_before_year_step [of "Y + 1"]
    by (fold Y_def, cases "y = Y - 1"; cases "y = Y"; cases "y = Y + 1"; simp)+
  have r: "received = unix_sec received * second + received mod second"
    "0 \<le> received mod second" "received mod second < second"
    by (simp_all add: unix_sec_def)
  have "\<bar>zone_adjust loc (civil_sec x) - unix_sec received\<bar> \<le> 800 * 86400"
    using zone_adjust_near [OF assms(1), of "civil_sec x"] b dist
      year_in_bounds [OF assms(1) Y_def [symmetric]]
    unfolding left_diff_distrib by linarith
  then show ?thesis using r x unfolding t date_in_def by linarith
qed

text \<open>The loop picks the first of the candidates nearest to the base.\<close>

lemma nearest_loop_argmin:
  assumes "nearest_loop loc v base ys (best, bd) = Some t"
    and "\<forall>y \<in> set ys. \<forall>u. stamp_at loc y v = Some u \<longrightarrow> \<bar>u - base\<bar> < max_duration"
  shows "(\<forall>y \<in> set ys. \<exists>u. stamp_at loc y v = Some u)
    \<and> (t = best \<and> (\<forall>y \<in> set ys. \<forall>u. stamp_at loc y v = Some u \<longrightarrow> bd \<le> \<bar>u - base\<bar>)
       \<or> (\<exists>y \<in> set ys. stamp_at loc y v = Some t) \<and> \<bar>t - base\<bar> < bd
         \<and> (\<forall>y \<in> set ys. \<forall>u. stamp_at loc y v = Some u \<longrightarrow> \<bar>t - base\<bar> \<le> \<bar>u - base\<bar>))"
  using assms
proof (induction ys arbitrary: best bd)
  case (Cons y ys)
  from Cons.prems(1) obtain u where u: "stamp_at loc y v = Some u"
    by (auto simp: parse_stamp_in_itoa split: option.splits)
  define delta where "delta = \<bar>u - base\<bar>"
  have small: "delta < max_duration" using Cons.prems(2) u by (simp add: delta_def)
  then have "time_sub u base = u - base" "int64_range (- (u - base))"
    by (auto simp: delta_def int64_range_def max_duration_def intro!: time_sub_exact)
  then have "(if time_sub u base < 0 then wrap64 (- time_sub u base) else time_sub u base) = delta"
    by (simp add: delta_def)
  then have *: "nearest_loop loc v base ys (if delta < bd then (u, delta) else (best, bd)) = Some t"
    using Cons.prems(1) u by (simp add: parse_stamp_in_itoa Let_def cong: if_cong)
  have small': "\<forall>y \<in> set ys. \<forall>u. stamp_at loc y v = Some u \<longrightarrow> \<bar>u - base\<bar> < max_duration"
    using Cons.prems(2) by simp
  show ?case
  proof (cases "delta < bd")
    case True
    then have "nearest_loop loc v base ys (u, delta) = Some t" using * by simp
    from Cons.IH [OF this small'] True u show ?thesis
      by (simp add: delta_def) (elim conjE disjE; simp; linarith)
  next
    case False
    then have "nearest_loop loc v base ys (best, bd) = Some t" using * by simp
    from Cons.IH [OF this small'] False u show ?thesis
      by (simp add: delta_def) (elim conjE disjE; simp; linarith)
  qed
qed simp

lemma nearest_loop_all:
  "nearest_loop loc v base ys b = Some t \<Longrightarrow> y \<in> set ys \<Longrightarrow> stamp_at loc y v \<noteq> None"
  by (induction loc v base ys b rule: nearest_loop.induct)
    (auto simp: parse_stamp_in_itoa Let_def split: option.splits)

lemma nearest_loop_total:
  "\<forall>y \<in> set ys. stamp_at loc y v \<noteq> None \<Longrightarrow> \<exists>t. nearest_loop loc v base ys b = Some t"
proof (induction ys arbitrary: b)
  case (Cons y ys)
  then show ?case by (cases b) (auto simp: parse_stamp_in_itoa Let_def)
next
  case Nil
  then show ?case by (cases b) simp
qed

lemma nearest_stamp:
  assumes "location_ok l" and years: "ys = [year_in l received - 1, year_in l received, year_in l received + 1]"
    and loop: "nearest_loop l v received ys (zero_time, max_duration) = Some t"
  shows "(\<exists>y \<in> set ys. stamp_at l y v = Some t)
         \<and> (\<forall>y \<in> set ys. \<exists>u. stamp_at l y v = Some u \<and> \<bar>t - received\<bar> \<le> \<bar>u - received\<bar>)"
proof -
  have near: "\<forall>y \<in> set ys. \<forall>u. stamp_at l y v = Some u \<longrightarrow> \<bar>u - received\<bar> < max_duration"
    using stamp_at_near [OF assms(1), of _ v _ received] by (fastforce simp: years max_duration_def)
  note min = nearest_loop_argmin [OF loop near]
  have "hd ys \<in> set ys" by (simp add: years)
  then obtain u where "stamp_at l (hd ys) v = Some u" using min by blast
  then have "\<not> (\<forall>y \<in> set ys. \<forall>u. stamp_at l y v = Some u \<longrightarrow> max_duration \<le> \<bar>u - received\<bar>)"
    using near \<open>hd ys \<in> set ys\<close> by (meson not_less)
  with min show ?thesis by blast
qed

text \<open>
  The year RFC 3164 leaves out is inferred as the nearest one.  The stamp returned is one
  of the three readings with the year of the receive time (in the source's zone), the year
  before and the year after, and none of the three is closer to the receive time.  The
  saturating subtraction and the negation on 64 bits do not distort the comparison.
\<close>

theorem nearest_year:
  assumes "nearest_rfc3164_time month day clock received loc = Some t"
    and "l = (case loc of None \<Rightarrow> utc | Some l \<Rightarrow> l)" and "location_ok l"
    and "candidate = (\<lambda>y. parse_stamp_in l (itoa y @ '' '' @ month @ '' '' @ day @ '' '' @ clock))"
    and "years = {year_in l received - 1, year_in l received, year_in l received + 1}"
  shows "(\<exists>y \<in> years. candidate y = Some t)
         \<and> (\<forall>y \<in> years. \<exists>u. candidate y = Some u \<and> \<bar>t - received\<bar> \<le> \<bar>u - received\<bar>)"
proof -
  let ?v = "month @ '' '' @ day @ '' '' @ clock" and ?y = "year_in l received"
  have "nearest_loop l ?v received [?y - 1, ?y, ?y + 1] (zero_time, max_duration) = Some t"
    using assms(1,2) by (simp add: nearest_rfc3164_time_def Let_def)
  from nearest_stamp [OF assms(3) refl this] show ?thesis
    by (simp add: assms(4,5) parse_stamp_in_itoa)
qed

lemma not_all_leap:
  assumes "is_leap (y - 1)" and "is_leap y"
  shows False
proof -
  have "(y - 1) mod 4 = 0" "y mod 4 = 0" using assms by (simp_all add: is_leap_def)
  then show False by presburger
qed

lemma stamp_at_feb29:
  assumes "stamp_at loc y (''Feb '' @ ''29 '' @ clock) \<noteq> None"
  shows "is_leap y"
proof -
  have "scan_month (trim_left (''Feb '' @ ''29 '' @ clock) '' '') = Some (2, '' 29 '' @ clock)"
    by (simp add: scan_month_def short_month_names_def trim_left_def ascii_lower_def is_upper_def)
  moreover have "getnum False (''29 '' @ clock) = Some (29, '' '' @ clock)"
    by (simp add: getnum_def is_digit_def digit_val_def)
  ultimately have "valid_day y 2 29"
    using assms
    by (auto simp: stamp_at_def stamp_fields_def trim_left_def Option.bind_eq_Some_conv split: if_splits)
  then show ?thesis by (simp add: valid_day_def month_lengths_def split: if_splits)
qed

text \<open>
  A message stamped on the 29th of February never parses.  The stamp is read with three
  consecutive years, one of which has no such day, and the first failing reading rejects
  the message, also when the message is sent and received on a 29th of February.
\<close>

theorem february_29_rejected:
  "nearest_rfc3164_time ''Feb'' ''29'' clock received loc = None"
proof (rule ccontr)
  assume "nearest_rfc3164_time ''Feb'' ''29'' clock received loc \<noteq> None"
  then obtain l y t where "nearest_loop l (''Feb '' @ ''29 '' @ clock) received [y - 1, y, y + 1]
      (zero_time, max_duration) = Some t"
    by (auto simp: nearest_rfc3164_time_def Let_def)
  then have "is_leap (y - 1)" "is_leap y"
    using nearest_loop_all stamp_at_feb29 by (metis list.set_intros)+
  then show False by (rule not_all_leap)
qed

section \<open>The header pattern\<close>

lemma first_success_SomeD:
  "first_success f lo n = Some r \<Longrightarrow> \<exists>k. lo \<le> k \<and> k \<le> n \<and> f k = Some r"
proof (induction f lo n rule: first_success.induct)
  case (2 f lo n)
  then show ?case by (auto split: if_splits option.splits intro: exI [of _ "Suc n"] le_SucI)
qed (auto split: if_splits)

lemma run_length_all: "k \<le> run_length cls hi s \<Longrightarrow> list_all cls (take k s) \<and> k \<le> length s"
proof -
  have *: "list_all cls (take k u) \<and> k \<le> length u" if "k \<le> length (takeWhile cls u)" for u
  proof -
    have "take k u = take k (takeWhile cls u)"
      using that by (metis append_take_drop_id le_refl min.absorb1 take_append take_take takeWhile_eq_take)
    then show ?thesis
      using that length_takeWhile_le [of cls u]
      by (auto simp: list_all_iff dest!: in_set_takeD dest: set_takeWhileD)
  qed
  assume k: "k \<le> run_length cls hi s"
  show ?thesis
  proof (cases hi)
    case None
    then show ?thesis using * [of s] k by (simp add: run_length_def)
  next
    case (Some h)
    then have "list_all cls (take k (take h s)) \<and> k \<le> length (take h s)"
      using * [of "take h s"] k by (auto simp: run_length_def)
    then show ?thesis by (auto simp: min.absorb1)
  qed
qed

text \<open>A match cuts the text into segments, each of the class of its piece.\<close>

definition piece_ok :: "piece \<Rightarrow> bytes \<Rightarrow> bool" where
  "piece_ok p seg = (case p of Rep cls lo hi \<Rightarrow> list_all cls seg \<and> lo \<le> length seg)"

lemma match_pieces_sound:
  "match_pieces ps s = Some ns \<Longrightarrow>
   list_all2 piece_ok ps (split_lengths ns s) \<and> concat (split_lengths ns s) = s"
proof (induction ps arbitrary: s ns)
  case (Cons p ps)
  obtain cls lo hi where p: "p = Rep cls lo hi" by (cases p)
  obtain k ks where k: "lo \<le> k" "k \<le> run_length cls hi s" "match_pieces ps (drop k s) = Some ks"
    "ns = k # ks"
    using Cons.prems by (auto simp: p dest!: first_success_SomeD)
  then show ?case
    using Cons.IH [OF k(3)] run_length_all [OF k(2)] by (simp add: p piece_ok_def)
qed (simp split: if_splits)

lemma first_success_top: "lo \<le> n \<Longrightarrow> f n = Some r \<Longrightarrow> first_success f lo n = Some r"
  by (cases n) auto

text \<open>A greedy run that cannot go further is what the piece takes, if the rest matches.\<close>

lemma match_pieces_step:
  assumes "list_all cls a" and "lo \<le> length a"
    and "r = [] \<or> \<not> cls (hd r) \<or> hi = Some (length a)"
    and "case hi of None \<Rightarrow> True | Some h \<Rightarrow> length a \<le> h"
    and "match_pieces ps r = Some ns"
  shows "match_pieces (Rep cls lo hi # ps) (a @ r) = Some (length a # ns)"
proof -
  have tw: "takeWhile cls (a @ u) = a" if "u = [] \<or> \<not> cls (hd u)" for u
    using that assms(1) by (cases u) (auto simp: takeWhile_append list_all_iff takeWhile_eq_all_conv)
  have "run_length cls hi (a @ r) = length a"
  proof (cases hi)
    case None
    then show ?thesis using assms(3) tw [of r] by (simp add: run_length_def)
  next
    case (Some h)
    then have "take (h - length a) r = [] \<or> \<not> cls (hd (take (h - length a) r))"
      using assms(3,4) by (cases r; cases "h - length a") auto
    then show ?thesis using Some assms(4) tw by (simp add: run_length_def)
  qed
  then show ?thesis
    using assms(2,5) by (simp add: first_success_top)
qed

lemma numeral_18_Suc: "18 = Suc 17"
  by simp

lemma rfc3164_submatch_newline:
  assumes "rfc3164_submatch (s @ [CHR 0x0A]) = Some (m1, m2, m3, m4, m5, m6)"
  shows "m6 = []"
proof -
  let ?s = "s @ [CHR 0x0A]"
  obtain ns where ns: "match_pieces rfc3164_pattern ?s = Some ns" and m6: "m6 = split_lengths ns ?s ! 17"
    using assms by (auto simp: rfc3164_submatch_def Let_def)
  define segs where "segs = split_lengths ns ?s"
  have segs: "list_all2 piece_ok rfc3164_pattern segs" "concat segs = ?s"
    using match_pieces_sound [OF ns] by (simp_all add: segs_def)
  have len: "length segs = 18"
    using list_all2_lengthD [OF segs(1)] by (simp add: rfc3164_pattern_def)
  have "piece_ok (rfc3164_pattern ! 17) (segs ! 17)"
    using segs(1) len by (simp add: list_all2_conv_all_nth)
  then have no: "CHR 0x0A \<notin> set (segs ! 17)"
    by (auto simp: rfc3164_pattern_def piece_ok_def list_all_iff)
  have "segs \<noteq> []" using len by auto
  then have "segs = butlast segs @ [segs ! 17]" using len 
    by (metis append_butlast_last_id last_conv_nth diff_Suc_1 numeral_18_Suc)
  then have "concat (butlast segs) @ segs ! 17 = ?s" using segs(2) by (metis concat_append concat.simps append_Nil2)
  then have "segs ! 17 = []"
    using no by (metis last_append last_in_set last_snoc)
  then show ?thesis by (simp add: m6 segs_def)
qed

text \<open>
  A newline at the end of a datagram hides an RFC 3164 message from detection.  The
  parser strips trailing newlines before it matches, so it reads the message all the same;
  but detection matches the unstripped text, in which \<^verbatim>\<open>.\<close> does not match the newline, and so
  succeeds only if the text after the host is empty.
\<close>

theorem trailing_newline:
  "rfc3164_parse (s @ [CHR 0x0A]) received loc = rfc3164_parse s received loc
   \<and> (detect (s @ [CHR 0x0A]) = ''rfc3164'' \<longrightarrow>
      (\<exists>m1 m2 m3 m4 m5. rfc3164_submatch (s @ [CHR 0x0A]) = Some (m1, m2, m3, m4, m5, [])))"
proof (intro conjI impI)
  show "rfc3164_parse (s @ [CHR 0x0A]) received loc = rfc3164_parse s received loc"
    by (simp add: rfc3164_parse_def trim_right_append_cut)
  assume "detect (s @ [CHR 0x0A]) = ''rfc3164''"
  then have "rfc3164_submatch (s @ [CHR 0x0A]) \<noteq> None"
    by (auto simp: detect_def Let_def split: option.splits if_splits)
  then show "\<exists>m1 m2 m3 m4 m5. rfc3164_submatch (s @ [CHR 0x0A]) = Some (m1, m2, m3, m4, m5, [])"
    using rfc3164_submatch_newline by fastforce
qed

theorem nearest_year_witness:
  "nearest_rfc3164_time ''Oct'' ''11'' ''22:14:15'' 1700000000000000000 None = Some 1697062455000000000
   \<and> (\<exists>u. parse_stamp_in utc (itoa 2022 @ '' '' @ ''Oct'' @ '' '' @ ''11'' @ '' '' @ ''22:14:15'') = Some u
         \<and> \<bar>1697062455000000000 - 1700000000000000000\<bar> \<le> \<bar>u - 1700000000000000000\<bar>)
   \<and> (\<exists>u. parse_stamp_in utc (itoa 2024 @ '' '' @ ''Oct'' @ '' '' @ ''11'' @ '' '' @ ''22:14:15'') = Some u
         \<and> \<bar>1697062455000000000 - 1700000000000000000\<bar> \<le> \<bar>u - 1700000000000000000\<bar>)"
proof -
  have r: "nearest_rfc3164_time ''Oct'' ''11'' ''22:14:15'' 1700000000000000000 None
      = Some 1697062455000000000"
    by code_simp
  have y: "year_in utc 1700000000000000000 = 2023" by code_simp
  have "location_ok utc" by (simp add: location_ok_def utc_def)
  from nearest_year [OF r _ this refl refl] r show ?thesis by (simp add: y)
qed

theorem trailing_newline_witness:
  "detect ''<13>Oct 11 22:14:15 host app: hi'' = ''rfc3164''
   \<and> detect (''<13>Oct 11 22:14:15 host app: hi'' @ [CHR 0x0A]) = ''unknown''
   \<and> (\<exists>m1 m2 m3 m4 m5. rfc3164_submatch (''<13>Oct 11 22:14:15 host'' @ [CHR 0x0A])
        = Some (m1, m2, m3, m4, m5, []))"
proof -
  have "detect ''<13>Oct 11 22:14:15 host app: hi'' = ''rfc3164''" by code_simp
  moreover have "detect (''<13>Oct 11 22:14:15 host app: hi'' @ [CHR 0x0A]) = ''unknown''"
    by code_simp
  moreover have "detect (''<13>Oct 11 22:14:15 host'' @ [CHR 0x0A]) = ''rfc3164''" by code_simp
  ultimately show ?thesis
    using trailing_newline [of "''<13>Oct 11 22:14:15 host''"] by blast
qed

section \<open>Rendering and parsing RFC 3164\<close>

text \<open>
  The text a sender writes, as \<^verbatim>\<open>cmd/loggen\<close> does: the stamp is \<^verbatim>\<open>Jan _2 15:04:05\<close> in UTC,
  the tag is the application with the process id in brackets.
\<close>

definition clock_text :: "datetime \<Rightarrow> bytes" where
  "clock_text x = pad_digits 2 (dt_hour x) @ '':'' @ pad_digits 2 (dt_min x) @ '':'' @ pad_digits 2 (dt_sec x)"

definition month_text :: "datetime \<Rightarrow> bytes" where
  "month_text x = short_month_names ! nat (dt_month x - 1)"

definition day_text :: "datetime \<Rightarrow> bytes" where
  "day_text x = (if dt_day x < 10 then '' '' else []) @ dec_digits (dt_day x)"

definition tag_text :: "bytes \<Rightarrow> bytes \<Rightarrow> bytes" where
  "tag_text app pid = app @ (if pid = [] then [] else ''['' @ pid @ '']'') @ '': ''"

definition render_rfc3164 :: "int \<Rightarrow> instant \<Rightarrow> bytes \<Rightarrow> bytes \<Rightarrow> bytes \<Rightarrow> bytes \<Rightarrow> bytes" where
  "render_rfc3164 n t host app pid msg =
     ''<'' @ dec_digits n @ ''>'' @ month_text (civil_of t) @ '' '' @ day_text (civil_of t) @ '' ''
     @ clock_text (civil_of t) @ '' '' @ host @ '' '' @ tag_text app pid @ msg"

definition wf_host :: "bytes \<Rightarrow> bool" where
  "wf_host h \<longleftrightarrow> h \<noteq> [] \<and> list_all (\<lambda>c. \<not> re_space c) h"

definition wf_app :: "bytes \<Rightarrow> bool" where
  "wf_app a \<longleftrightarrow> a \<noteq> [] \<and> list_all (\<lambda>c. solid c \<and> c \<noteq> CHR '':'' \<and> c \<noteq> CHR ''['') a"

definition wf_pid :: "bytes \<Rightarrow> bool" where
  "wf_pid p \<longleftrightarrow> list_all (\<lambda>c. solid c \<and> c \<noteq> CHR '':'' \<and> c \<noteq> CHR ''['') p"

definition wf_text :: "bytes \<Rightarrow> bool" where
  "wf_text m \<longleftrightarrow> m \<noteq> [] \<and> solid (hd m) \<and> solid (last m) \<and> CHR 0x0A \<notin> set m"

lemma parse_tag_render:
  assumes "wf_app app" and "wf_pid pid" and "wf_text msg"
  shows "parse_tag (tag_text app pid @ msg) = (app, pid, msg)"
proof -
  define head where "head = app @ (if pid = [] then [] else ''['' @ pid @ '']'')"
  have txt': "tag_text app pid @ msg = head @ CHR '':'' # CHR '' '' # msg"
    by (simp add: tag_text_def head_def)
  have trim: "trim_space (head @ CHR '':'' # CHR '' '' # msg) = head @ CHR '':'' # CHR '' '' # msg"
    using assms(1,3) by (intro trim_space_id) (cases app; auto simp: head_def wf_app_def wf_text_def)+
  have "CHR '':'' \<notin> set head" using assms(1,2) by (auto simp: head_def wf_app_def wf_pid_def list_all_iff)
  then have cut: "cut_byte (CHR '':'') (head @ CHR '':'' # CHR '' '' # msg) = (head, CHR '' '' # msg, True)"
    by (rule cut_byte_found)
  have msg: "trim_space (CHR '' '' # msg) = msg"
    using assms(3) by (simp add: trim_space_lead trim_space_id wf_text_def)
  have app: "CHR ''['' \<notin> set app" "app \<noteq> []" using assms(1) by (auto simp: wf_app_def list_all_iff)
  have pid: "CHR ''['' \<notin> set pid" using assms(2) by (auto simp: wf_pid_def list_all_iff)
  show ?thesis
  proof (cases "pid = []")
    case True
    then have "last_index_byte (CHR ''['') head = None" using app by (simp add: head_def last_index_byte_def)
    then show ?thesis
      unfolding parse_tag_def txt' trim cut msg Let_def using True by (simp add: msg) (simp add: head_def)
  next
    case False
    have "index_byte (CHR ''['') (rev head) = Some (Suc (length pid))"
      using False pid index_byte_append [of "CHR ''[''" "CHR '']'' # rev pid" "rev app"]
      by (simp add: head_def)
    then have "last_index_byte (CHR ''['') head = Some (length app)"
      using False by (simp add: last_index_byte_def) (simp add: head_def)
    moreover have "has_suffix head '']''" using False by (auto simp: head_def has_suffix_iff)
    ultimately show ?thesis
      using False app by (simp add: parse_tag_def txt' trim cut msg Let_def) (simp add: head_def)
  qed
qed

lemma month_text_chars:
  assumes "1 \<le> dt_month x" "dt_month x \<le> 12"
  obtains a b c where "month_text x = [a, b, c]" "is_upper a" "is_lower b" "is_lower c"
proof -
  have "list_all (\<lambda>m. length m = 3 \<and> is_upper (m ! 0) \<and> is_lower (m ! 1) \<and> is_lower (m ! 2)) short_month_names"
    by (simp add: short_month_names_def is_upper_def is_lower_def)
  moreover have "nat (dt_month x - 1) < length short_month_names"
    using assms by (simp add: short_month_names_def)
  ultimately have m: "length (month_text x) = 3" "is_upper (month_text x ! 0)" "is_lower (month_text x ! 1)"
    "is_lower (month_text x ! 2)"
    by (simp_all add: month_text_def list_all_length)
  then obtain a b c where "month_text x = [a, b, c]" by (auto simp: length_Suc_conv numeral_eq_Suc)
  with m show thesis by (intro that [of a b c]) auto
qed


lemma stamp_fields_render:
  assumes "1 \<le> dt_month x" "dt_month x \<le> 12" "1 \<le> dt_day x" "dt_day x \<le> 31"
    "0 \<le> dt_hour x" "dt_hour x < 24" "0 \<le> dt_min x" "dt_min x < 60" "0 \<le> dt_sec x" "dt_sec x < 60"
  shows "stamp_fields (month_text x @ '' '' @ dec_digits (dt_day x) @ '' '' @ clock_text x)
     = Some (dt_month x, dt_day x, dt_hour x, dt_min x, dt_sec x, 0)"
proof -
  obtain a b c where abc: "month_text x = [a, b, c]" "is_upper a" "is_lower b" "is_lower c"
    using assms(1,2) by (rule month_text_chars)
  then have "a \<noteq> CHR '' ''" by (auto simp: is_upper_def)
  have "dt_month x \<in> {1, 2, 3, 4, 5, 6, 7, 8, 9, 10, 11, 12}"
    using assms(1,2) by simp presburger
  then have mon: "scan_month (month_text x @ r) = Some (dt_month x, r)" for r
    by (elim insertE emptyE)
      (simp_all add: month_text_def scan_month_def short_month_names_def ascii_lower_def is_upper_def)
  have day: "getnum False (dec_digits (dt_day x) @ CHR '' '' # r) = Some (dt_day x, CHR '' '' # r)" for r
  proof (cases "dt_day x < 10")
    case True
    moreover have "\<not> is_digit (CHR '' '')" by (simp add: is_digit_def)
    ultimately show ?thesis using assms(3) by (subst dec_digits.simps) (simp add: getnum_def)
  next
    case False
    then have "dec_digits (dt_day x) = pad_digits 2 (dt_day x)"
      using assms(4) by (simp add: pad_digits_2) (subst dec_digits.simps, simp add: dec_digits.simps)
    then show ?thesis using assms(3,4) by simp
  qed
  have dhd: "is_digit (hd (dec_digits (dt_day x)))"
    using assms(3) dec_digits_digit [of "hd (dec_digits (dt_day x))" "dt_day x"] by simp
  have clock: "scan_clock (clock_text x) = Some ((dt_hour x, dt_min x, dt_sec x, 0), [])"
    using assms getnum_pad [of "dt_sec x" True "[]"]
    by (simp add: scan_clock_def clock_text_def in_range_def scan_fraction_def)
  have ck: "hd (clock_text x) \<noteq> CHR '' ''" "clock_text x \<noteq> []"
    using assms(5,6) by (simp_all add: clock_text_def pad_digits_2)
  have trim: "trim_left (month_text x @ r) '' '' = month_text x @ r"
    "trim_left (dec_digits (dt_day x) @ r) '' '' = dec_digits (dt_day x) @ r"
    "trim_left (clock_text x) '' '' = clock_text x" for r
    using abc \<open>a \<noteq> CHR '' ''\<close> dhd ck by (auto intro!: trim_left_id simp: hd_append)
  have sk: "trim_left (CHR '' '' # r) '' '' = trim_left r '' ''" for r by (simp add: trim_left_def)
  show ?thesis
    unfolding stamp_fields_def append_Cons append_Nil trim mon
    by (simp add: sk trim day clock)
qed


text \<open>The same civil time a year later is at least 365 days later.\<close>

lemma month_prefix_step:
  "sum_list (take k (month_lengths y)) \<le>
     sum_list (take k (month_lengths (y + 1))) + (if is_leap y then 1 else 0)"
proof (cases k)
  case (Suc j)
  then show ?thesis by (cases j) (simp_all add: month_lengths_def)
qed simp

lemma civil_sec_next_year:
  "civil_sec (x\<lparr>dt_year := y\<rparr>) + 365 * 86400 \<le> civil_sec (x\<lparr>dt_year := y + 1\<rparr>)"
  using month_prefix_step [of "nat (dt_month x - 1)" y] days_before_year_Suc [of y]
  by (simp add: civil_sec_def split: if_splits)

lemma civil_sec_later_year:
  assumes "y < z"
  shows "civil_sec (x\<lparr>dt_year := y\<rparr>) + 365 * 86400 \<le> civil_sec (x\<lparr>dt_year := z\<rparr>)"
  using assms
proof (induction "nat (z - y)" arbitrary: z)
  case (Suc n)
  show ?case
  proof (cases "z = y + 1")
    case False
    then have "n = nat (z - 1 - y)" "y < z - 1" using Suc.hyps(2) Suc.prems by simp_all
    from Suc.hyps(1) [OF this] civil_sec_next_year [of "z - 1" x] show ?thesis by simp
  qed (use civil_sec_next_year in simp)
qed simp

lemma year_of_near:
  assumes "\<bar>t - received\<bar> \<le> 182 * 86400 * second"
  shows "\<bar>dt_year (civil_of t) - year_in utc received\<bar> \<le> 1"
proof -
  define d e where "d = unix_sec t div 86400 + unix_epoch_days"
    and "e = unix_sec received div 86400 + unix_epoch_days"
  have y: "dt_year (civil_of t) = year_of_days d" "year_in utc received = year_of_days e"
    by (simp_all add: civil_of_def year_in_def d_def e_def Let_def utc_def split: prod.split)
  have "\<bar>unix_sec t - unix_sec received\<bar> \<le> 182 * 86400"
    using assms unfolding unix_sec_def by linarith
  then have "\<bar>d - e\<bar> \<le> 182" unfolding d_def e_def by linarith
  have far: "\<not> a + 1 < b" if "x < days_before_year (a + 1)" "days_before_year b \<le> z" "z \<le> x + 182" for a b x z
    using that days_before_year_mono [of "a + 1" b] days_before_year_step(2) [of "a + 1"] by linarith
  show ?thesis
    unfolding y using far [of e "year_of_days e" "year_of_days d" d] far [of d "year_of_days d" "year_of_days e" e]
      year_of_days_bounds [of d] year_of_days_bounds [of e] \<open>\<bar>d - e\<bar> \<le> 182\<close>
    by linarith
qed

text \<open>No backtracking: each segment is a longest run of its piece.\<close>

fun greedy_ok :: "piece list \<Rightarrow> bytes list \<Rightarrow> bool" where
  "greedy_ok [] [] = True"
| "greedy_ok (Rep cls lo hi # ps) (a # as) =
     (list_all cls a \<and> lo \<le> length a
      \<and> (concat as = [] \<or> \<not> cls (hd (concat as)) \<or> hi = Some (length a))
      \<and> (case hi of None \<Rightarrow> True | Some h \<Rightarrow> length a \<le> h) \<and> greedy_ok ps as)"
| "greedy_ok _ _ = False"

lemma match_pieces_greedy:
  "greedy_ok ps segs \<Longrightarrow> match_pieces ps (concat segs) = Some (map length segs)"
proof (induction ps segs rule: greedy_ok.induct)
  case (2 cls lo hi ps a as)
  then show ?case by (simp del: match_pieces.simps add: match_pieces_step)
qed simp_all

lemma split_lengths_concat: "split_lengths (map length segs) (concat segs) = segs"
  by (induction segs) auto

definition rfc3164_segments :: "int \<Rightarrow> datetime \<Rightarrow> bytes \<Rightarrow> bytes \<Rightarrow> bytes list" where
  "rfc3164_segments n x host rest =
     [''<'', dec_digits n, ''>'', take 1 (month_text x), drop 1 (month_text x),
      if dt_day x < 10 then ''  '' else '' '',
      take 1 (dec_digits (dt_day x)), drop 1 (dec_digits (dt_day x)), '' '',
      pad_digits 2 (dt_hour x), '':'', pad_digits 2 (dt_min x), '':'', pad_digits 2 (dt_sec x), '' '',
      host, '' '', rest]"

lemma day_digits:
  assumes "1 \<le> d" "d \<le> 31"
  obtains a where "dec_digits d = [a]" "is_digit a" | a b where "dec_digits d = [a, b]" "is_digit a" "is_digit b"
proof -
  have "length (dec_digits d) \<le> 2" using assms dec_digits_length [of d 2] by simp
  moreover have "list_all is_digit (dec_digits d)" using assms by (simp add: dec_digits_is_digit)
  moreover have "dec_digits d \<noteq> []" by simp
  ultimately show thesis
    using that by (cases "dec_digits d" rule: remdups_adj.cases) (auto simp: numeral_eq_Suc)
qed

lemma is_digit_classes:
  "is_digit c \<Longrightarrow> \<not> re_space c" "is_digit c \<Longrightarrow> c \<noteq> CHR ''<''" "\<not> is_digit (CHR '' '')"
  "\<not> is_digit (CHR ''>'')" "solid c \<Longrightarrow> \<not> re_space c"
  by (auto simp: is_digit_def re_space_def solid_def)

lemma rfc3164_submatch_render:
  assumes "0 \<le> n" "n \<le> 191" and "1 \<le> dt_month x" "dt_month x \<le> 12" "1 \<le> dt_day x" "dt_day x \<le> 31"
    and "0 \<le> dt_hour x" "dt_hour x < 24" "0 \<le> dt_min x" "dt_min x < 60" "0 \<le> dt_sec x" "dt_sec x < 60"
    and "wf_host host" and "rest \<noteq> []" "solid (hd rest)" "CHR 0x0A \<notin> set rest"
  shows "rfc3164_submatch (concat (rfc3164_segments n x host rest))
     = Some (dec_digits n, month_text x, dec_digits (dt_day x), clock_text x, host, rest)"
proof -
  obtain a b c where m: "month_text x = [a, b, c]" "is_upper a" "is_lower b" "is_lower c"
    using assms(3,4) by (rule month_text_chars)
  have n: "list_all is_digit (dec_digits n)" "length (dec_digits n) \<le> 3" "Suc 0 \<le> length (dec_digits n)"
    using assms(1,2) dec_digits_length [of n 3] by (simp_all add: dec_digits_is_digit Suc_le_eq)
  have p: "\<exists>d e. pad_digits 2 k = [d, e] \<and> is_digit d \<and> is_digit e" if "0 \<le> k" "k < 60" for k
    using that by (simp add: pad_digits_2)
  obtain h1 h2 i1 i2 s1 s2 where c: "pad_digits 2 (dt_hour x) = [h1, h2]" "is_digit h1" "is_digit h2"
    "pad_digits 2 (dt_min x) = [i1, i2]" "is_digit i1" "is_digit i2"
    "pad_digits 2 (dt_sec x) = [s1, s2]" "is_digit s1" "is_digit s2"
    using p [of "dt_hour x"] p [of "dt_min x"] p [of "dt_sec x"] assms(7-12) by auto
  have rest: "list_all (\<lambda>c. c \<noteq> CHR 0x0A) rest" "\<not> re_space (hd rest)"
    using assms(14-16) is_digit_classes by (auto simp: list_all_iff)
  have host: "host \<noteq> []" "list_all (\<lambda>c. \<not> re_space c) host" "\<not> re_space (hd host)"
    using assms(13) by (cases host; simp add: wf_host_def)+
  have sp: "re_space (CHR '' '')" "\<not> re_space (CHR '':'')" by (simp_all add: re_space_def)
  have "greedy_ok rfc3164_pattern (rfc3164_segments n x host rest)"
    using assms(5,6)
  proof (cases rule: day_digits)
    case (1 d)
    show ?thesis
      unfolding rfc3164_pattern_def rfc3164_segments_def lit_def two_digits_def greedy_ok.simps
      using m n c rest host 1 is_digit_classes sp assms(14) by (simp add: Suc_le_eq)
  next
    case (2 d e)
    show ?thesis
      unfolding rfc3164_pattern_def rfc3164_segments_def lit_def two_digits_def greedy_ok.simps
      using m n c rest host 2 is_digit_classes sp assms(14) by (simp add: Suc_le_eq)
  qed
  then have "match_pieces rfc3164_pattern (concat (rfc3164_segments n x host rest))
      = Some (map length (rfc3164_segments n x host rest))"
    by (rule match_pieces_greedy)
  then show ?thesis
    by (simp add: rfc3164_submatch_def split_lengths_concat del: concat.simps)
      (simp add: rfc3164_segments_def clock_text_def)
qed

lemma valid_day_any_year:
  assumes "1 \<le> m" "m \<le> 12" "valid_day y m d" "\<not> (m = 2 \<and> d = 29)"
  shows "valid_day z m d"
proof (cases "m = 2")
  case False
  then have "month_lengths y ! nat (m - 1) = month_lengths z ! nat (m - 1)"
    using assms(1,2) by (cases "nat (m - 1)"; cases "nat (m - 1) - 1") (auto simp: month_lengths_def)
  then show ?thesis using assms(3) by (simp add: valid_day_def)
qed (use assms in \<open>auto simp: valid_day_def month_lengths_def split: if_splits\<close>)

lemma nearest_time_render:
  assumes "\<bar>t - received\<bar> \<le> 182 * 86400 * second" and "t mod second = 0"
    and "1001 \<le> year_in utc received" "year_in utc received \<le> 9998"
    and "x = civil_of t" and "\<not> (dt_month x = 2 \<and> dt_day x = 29)"
  shows "nearest_rfc3164_time (month_text x) (dec_digits (dt_day x)) (clock_text x) received None = Some t"
proof -
  let ?v = "month_text x @ '' '' @ dec_digits (dt_day x) @ '' '' @ clock_text x"
  let ?Y = "year_in utc received" let ?ys = "[?Y - 1, ?Y, ?Y + 1]"
  note f = civil_of_fields [of t, folded assms(5)]
  have d31: "1 \<le> dt_day x" "dt_day x \<le> 31"
    using f(1-3) month_lengths_le_31 [of "dt_month x" "dt_year x"] by (auto simp: valid_day_def)
  have fields: "stamp_fields ?v = Some (dt_month x, dt_day x, dt_hour x, dt_min x, dt_sec x, 0)"
    using f(1-9) d31 by (intro stamp_fields_render) auto
  have valid: "valid_day y (dt_month x) (dt_day x)" for y
    using f(1-3) assms(6) by (rule valid_day_any_year)
  have at: "stamp_at utc y ?v = Some (civil_sec (x\<lparr>dt_year := y\<rparr>) * second)" if "y \<in> set ?ys" for y
    using that assms(3,4) fields valid by (auto simp: stamp_at_def date_in_utc civil_sec_def)
  have t: "t = civil_sec (x\<lparr>dt_year := dt_year x\<rparr>) * second"
    using f(12) assms(2) div_mult_mod_eq [of t second] by (simp add: unix_sec_def)
  have yt: "dt_year x \<in> set ?ys"
    using year_of_near [OF assms(1)] by (auto simp: assms(5) abs_le_iff)
  obtain u where u: "nearest_loop utc ?v received ?ys (zero_time, max_duration) = Some u"
    using nearest_loop_total [of ?ys utc ?v received] at by fastforce
  obtain y where y: "y \<in> set ?ys" "stamp_at utc y ?v = Some u"
    and le: "\<bar>u - received\<bar> \<le> \<bar>t - received\<bar>"
    using nearest_stamp [OF _ refl u] at [OF yt] yt t by (fastforce simp: location_ok_def utc_def)
  have "y = dt_year x"
  proof (rule ccontr)
    assume "y \<noteq> dt_year x"
    then have "365 * 86400 * second \<le> \<bar>u - t\<bar>"
      using civil_sec_later_year [of y "dt_year x" x] civil_sec_later_year [of "dt_year x" y x]
        y at [OF y(1)] t by (cases "y < dt_year x") auto
    then show False using le assms(1) by linarith
  qed
  then show ?thesis
    using u y at [OF y(1)] t by (simp add: nearest_rfc3164_time_def Let_def)
qed

lemma not_solid_newline: "\<not> solid (CHR 0x0A)" "\<not> solid (CHR 0x0D)"
  by (simp_all add: solid_def)

lemma month_text_letters: "\<exists>a b. month_text (civil_of t) = a # b \<and> \<not> byte_val a \<le> byte_val (CHR ''9'') \<and> b \<noteq> []"
proof -
  have "list_all (\<lambda>m. case m of [] \<Rightarrow> False | a # b \<Rightarrow> \<not> byte_val a \<le> byte_val (CHR ''9'') \<and> b \<noteq> []) short_month_names"
    by code_simp
  moreover have "nat (dt_month (civil_of t) - 1) < length short_month_names"
    using civil_of_fields(1,2) [of t] by (simp add: short_month_names_def)
  ultimately show ?thesis
    by (cases "month_text (civil_of t)") (auto simp: month_text_def list_all_length dest!: spec)
qed

text \<open>What the pattern finds in a rendered message.\<close>

lemma rfc3164_render_submatch:
  assumes "0 \<le> n" "n \<le> 191" and "wf_host host" "wf_app app" "wf_pid pid" "wf_text msg"
  shows "rfc3164_submatch (render_rfc3164 n t host app pid msg)
      = Some (dec_digits n, month_text (civil_of t), dec_digits (dt_day (civil_of t)), clock_text (civil_of t), host,
          tag_text app pid @ msg)"
    and "trim_right (render_rfc3164 n t host app pid msg) [CHR 0x0D, CHR 0x0A] = render_rfc3164 n t host app pid msg"
proof -
  define x where "x = civil_of t"
  define rest where "rest = tag_text app pid @ msg"
  let ?s = "render_rfc3164 n t host app pid msg"
  note f = civil_of_fields [of t, folded x_def]
  have d31: "1 \<le> dt_day x" "dt_day x \<le> 31"
    using f(1-3) month_lengths_le_31 [of "dt_month x" "dt_year x"] by (auto simp: valid_day_def)
  have "rest \<noteq> [] \<and> solid (hd rest)"
    using assms(4) by (cases app) (simp_all add: rest_def tag_text_def wf_app_def)
  moreover have "CHR 0x0A \<notin> set app" "CHR 0x0A \<notin> set pid" "CHR 0x0A \<notin> set msg" "msg \<noteq> []"
    using assms(4-6) not_solid_newline unfolding wf_app_def wf_pid_def wf_text_def list_all_iff by blast+
  ultimately have rest: "rest \<noteq> []" "solid (hd rest)" "CHR 0x0A \<notin> set rest" "last rest = last msg"
    by (simp_all add: rest_def tag_text_def)
  have s: "?s = concat (rfc3164_segments n x host rest)"
    by (cases "month_text x") (simp_all add: render_rfc3164_def rfc3164_segments_def rest_def day_text_def
        clock_text_def x_def)
  have "?s \<noteq> []" "last ?s = last msg"
    using rest(1,4) by (simp_all add: s rfc3164_segments_def)
  then show "trim_right ?s [CHR 0x0D, CHR 0x0A] = ?s"
    using assms(6) not_solid_newline
    by (intro trim_right_id) (auto simp: wf_text_def)
  have "rfc3164_submatch ?s
      = Some (dec_digits n, month_text x, dec_digits (dt_day x), clock_text x, host, rest)"
    unfolding s using f(1-9) d31 assms(1-3) rest by (intro rfc3164_submatch_render) auto
  then show "rfc3164_submatch ?s = Some (dec_digits n, month_text (civil_of t), dec_digits (dt_day (civil_of t)),
      clock_text (civil_of t), host, tag_text app pid @ msg)"
    by (simp add: x_def rest_def)
qed

lemma rfc3164_parse_render:
  assumes "0 \<le> n" "n \<le> 191" and "\<bar>t - received\<bar> \<le> 182 * 86400 * second" and "t mod second = 0"
    and "1001 \<le> year_in utc received" "year_in utc received \<le> 9998"
    and "\<not> (dt_month (civil_of t) = 2 \<and> dt_day (civil_of t) = 29)"
    and "wf_host host" "wf_app app" "wf_pid pid" "wf_text msg"
  shows "rfc3164_parse (render_rfc3164 n t host app pid msg) received None =
     Inr \<lparr>ev_timestamp = t, ev_timestamp_inferred = True, ev_message = msg, ev_hostname = host,
          ev_facility = Some (word_of_int (n div 8)), ev_severity = Some (word_of_int (n mod 8)),
          ev_priority = Some (word_of_int n), ev_app_name = app, ev_process_id = pid,
          ev_message_id = [], ev_format = ''rfc3164'', ev_fields = Some Map.empty\<rparr>"
proof -
  let ?x = "civil_of t"
  note f = civil_of_fields [of t]
  have d31: "1 \<le> dt_day ?x" "dt_day ?x \<le> 31"
    using f(1-3) month_lengths_le_31 [of "dt_month ?x" "dt_year ?x"] by (auto simp: valid_day_def)
  have "trim_space (dec_digits (dt_day ?x)) = dec_digits (dt_day ?x)"
    using d31 dec_digits_digit [of _ "dt_day ?x"] by (intro trim_space_id) (auto intro: is_digit_solid)
  moreover have "nearest_rfc3164_time (month_text ?x) (dec_digits (dt_day ?x)) (clock_text ?x) received None = Some t"
    using assms(3-7) by (intro nearest_time_render) simp_all
  moreover have "parse_tag (tag_text app pid @ msg) = (app, pid, msg)"
    using assms(9-11) by (rule parse_tag_render)
  ultimately show ?thesis
    using assms(1,2) rfc3164_render_submatch [OF assms(1,2,8-11), of t]
    by (simp add: rfc3164_parse_def priority_digits)
qed

lemma detect_rfc3164:
  assumes "0 \<le> n" "n \<le> 191" and "wf_host host" "wf_app app" "wf_pid pid" "wf_text msg"
  shows "detect (render_rfc3164 n t host app pid msg) = ''rfc3164''"
proof -
  let ?d = "dec_digits n" and ?s = "render_rfc3164 n t host app pid msg"
  define tl' where "tl' = '' '' @ day_text (civil_of t) @ '' '' @ clock_text (civil_of t) @ '' '' @ host @ '' '' @ tag_text app pid @ msg"
  obtain a b where m: "month_text (civil_of t) = a # b" "\<not> byte_val a \<le> byte_val (CHR ''9'')" "b \<noteq> []"
    using month_text_letters [of t] by blast
  have s: "?s = (CHR ''<'' # ?d) @ CHR ''>'' # a # b @ tl'"
    by (simp add: render_rfc3164_def tl'_def m)
  have "CHR ''>'' \<notin> set (CHR ''<'' # ?d)"
    using dec_digits_digit [of "CHR ''>''" n] assms(1) by (auto simp: is_digit_def)
  then have idx: "index_byte (CHR ''>'') ?s = Some (Suc (length ?d))"
    unfolding s by (subst index_byte_append) simp_all
  have len: "1 \<le> length ?d" "length ?d \<le> 3" using dec_digits_length [of n 3] assms(1,2) by (simp_all add: Suc_le_eq)
  have "hd ?s = CHR ''<''" "4 \<le> length ?s" "take (length ?d) (drop 1 ?s) = ?d" "drop (Suc (length ?d) + 1) ?s = a # b @ tl'"
    using len m(3) by (simp_all add: s Suc_le_eq)
  then show ?thesis
    unfolding detect_def idx option.case
    using len assms(1,2) m(2) rfc3164_render_submatch(1) [OF assms, of t] by (simp add: atoi_dec_digits Let_def)
qed



end
