(* ===== verification/Loggen.thy ===== *)
theory Loggen
  imports Parser_3164 Server
begin

text \<open>
  The load generator of \<^verbatim>\<open>backend/cmd/loggen/main.go\<close>: its options, the messages it makes and the
  loop that sends them.  The numbers drawn from \<^verbatim>\<open>math/rand\<close>, the clock and the results of the
  network are arguments.

  Shown are that every line it makes is detected and parsed to the parts it was made of, that
  its JSON batches are accepted by the ingestion handler, and that it sends each message once,
  in order, in requests of at most 1000, and ends when its count is reached.
\<close>

section \<open>Definitions\<close>

record options =
  op_target :: bytes
  op_protocol :: bytes
  op_format :: bytes
  op_path :: bytes
  op_port :: int
  op_rate :: int
  op_count :: int
  op_seed :: int

text \<open>The options of a call without flags.\<close>

definition default_options :: options where
  "default_options =
     \<lparr>op_target = ''127.0.0.1'', op_protocol = ''udp'', op_format = ''rfc5424'', op_path = ''/api/v1/ingest'',
      op_port = 514, op_rate = 1000, op_count = 1000, op_seed = 1\<rparr>"

datatype options_error = Out_of_range | Bad_protocol | Bad_format | Bad_pairing | Bad_target

definition validate_options :: "options \<Rightarrow> options_error option" where
  "validate_options opt =
     (if op_rate opt < 1 \<or> 1000000 < op_rate opt \<or> op_count opt < 1 \<or> op_port opt < 1 \<or> 65535 < op_port opt
      then Some Out_of_range
      else if op_protocol opt \<noteq> ''udp'' \<and> op_protocol opt \<noteq> ''tcp'' \<and> op_protocol opt \<noteq> ''http'' then Some Bad_protocol
      else if op_format opt \<noteq> ''rfc3164'' \<and> op_format opt \<noteq> ''rfc5424'' \<and> op_format opt \<noteq> ''json'' then Some Bad_format
      else if (op_protocol opt = ''http'') \<noteq> (op_format opt = ''json'') then Some Bad_pairing
      else if trim_space (op_target opt) = [] \<or> \<not> has_prefix (op_path opt) ''/'' then Some Bad_target
      else None)"

subsection \<open>Messages\<close>

definition hosts :: "bytes list" where
  "hosts = [''fw01'', ''fw02'', ''web01'', ''db01'']"

definition apps :: "bytes list" where
  "apps = [''vpn'', ''firewall'', ''nginx'', ''sshd'']"

definition levels :: "bytes list" where
  "levels = [''debug'', ''info'', ''notice'', ''warning'', ''error'', ''critical'', ''alert'', ''emergency'']"

text \<open>
  The draws a message takes from the generator, counted from 0; \<^verbatim>\<open>Intn\<close> brings each into its range.
\<close>

type_synonym draws = "nat \<Rightarrow> int"

definition intn :: "draws \<Rightarrow> nat \<Rightarrow> int \<Rightarrow> int" where
  "intn d k n = d k mod n"

definition pick :: "bytes list \<Rightarrow> draws \<Rightarrow> nat \<Rightarrow> bytes" where
  "pick names d k = names ! nat (intn d k (int (length names)))"

definition synthetic :: "bytes \<Rightarrow> int \<Rightarrow> bytes" where
  "synthetic app i = ''synthetic '' @ app @ '' event '' @ itoa i"

definition private_ip :: "int \<Rightarrow> int \<Rightarrow> bytes" where
  "private_ip a b = ''10.10.'' @ itoa a @ ''.'' @ itoa b"

record json_log =
  jl_timestamp :: bytes
  jl_hostname :: bytes
  jl_level :: bytes
  jl_service :: bytes
  jl_message :: bytes
  jl_source_ip :: bytes
  jl_vendor :: bytes
  jl_device_type :: bytes
  jl_event_id :: int

definition make_json :: "draws \<Rightarrow> instant \<Rightarrow> int \<Rightarrow> json_log" where
  "make_json d now i =
     (let host = pick hosts d 0; app = pick apps d 1 in
      \<lparr>jl_timestamp = format_rfc3339 now, jl_hostname = host, jl_level = pick levels d 2, jl_service = app,
       jl_message = synthetic app i, jl_source_ip = private_ip (intn d 3 256) (1 + intn d 4 254),
       jl_vendor = ''syslogx'', jl_device_type = ''synthetic'', jl_event_id = i\<rparr>)"

text \<open>The object the encoder makes of one.\<close>

definition json_item :: "json_log \<Rightarrow> row" where
  "json_item l =
     [(''timestamp'', AStr (jl_timestamp l)), (''hostname'', AStr (jl_hostname l)), (''level'', AStr (jl_level l)),
      (''service'', AStr (jl_service l)), (''message'', AStr (jl_message l)), (''source_ip'', AStr (jl_source_ip l)),
      (''vendor'', AStr (jl_vendor l)), (''device_type'', AStr (jl_device_type l)),
      (''event_id'', ANum (itoa (jl_event_id l)))]"

text \<open>The layout \<^verbatim>\<open>Jan _2 15:04:05\<close> of the wall clock.\<close>

definition format_stamp :: "instant \<Rightarrow> bytes" where
  "format_stamp wall =
     (let x = civil_of wall in month_text x @ '' '' @ day_text x @ '' '' @ clock_text x)"

text \<open>\<open>offset\<close> is the offset of the local time zone at \<open>now\<close>.\<close>

definition syslog_line :: "(nat \<Rightarrow> bool) \<Rightarrow> draws \<Rightarrow> bytes \<Rightarrow> instant \<Rightarrow> duration \<Rightarrow> int \<Rightarrow> bytes" where
  "syslog_line printable d format now offset i =
     (let host = pick hosts d 0; app = pick apps d 1; severity = intn d 2 8; facility = 16 + intn d 3 8;
          priority = facility * 8 + severity; msg = synthetic app i in
      if format = ''rfc3164''
      then ''<'' @ itoa priority @ ''>'' @ format_stamp (now + offset) @ '' '' @ host @ '' '' @ app
             @ ''['' @ itoa (1000 + i mod 9000) @ '']: '' @ msg
      else (let ip = private_ip (intn d 4 256) (1 + intn d 5 254) in
            ''<'' @ itoa priority @ ''>1 '' @ format_rfc3339 now @ '' '' @ host @ '' '' @ app @ '' ''
              @ itoa (1000 + i mod 9000) @ '' synthetic [syslogx@32473 source_ip='' @ strconv_quote printable ip
              @ '' event_id='' @ strconv_quote printable (itoa i) @ ''] '' @ msg))"

subsection \<open>The loop\<close>

text \<open>
  What is handed to the network: a datagram, a line for the buffered writer, or a request with
  a batch.  A send fails with the error of the call, or with the status of an answer that is
  not \<^verbatim>\<open>202 Accepted\<close>.
\<close>

datatype payload = Datagram bytes | Stream_line bytes | Post "json_log list"

datatype gen_error = Gen_options options_error | Gen_dial | Gen_context | Gen_send | Gen_status int | Gen_flush

text \<open>
  The world around a run: in each round of the outer loop, the number of messages due by the
  clock (\<^verbatim>\<open>int(elapsed * rate)\<close>), whether the context is done, and the result of the flush; for
  each message the draws, the time and the local offset; and the status of each request, if it
  is answered, and whether each write succeeds.
\<close>

record gen_env =
  ge_dial :: bool
  ge_due :: "nat \<Rightarrow> int"
  ge_done :: "nat \<Rightarrow> int \<Rightarrow> bool"
  ge_flush :: "nat \<Rightarrow> bool"
  ge_draws :: "int \<Rightarrow> draws"
  ge_now :: "int \<Rightarrow> instant"
  ge_offset :: "int \<Rightarrow> duration"
  ge_printable :: "nat \<Rightarrow> bool"
  ge_post :: "int \<Rightarrow> int option"
  ge_write :: "int \<Rightarrow> bool"

definition json_batch :: "gen_env \<Rightarrow> int \<Rightarrow> int \<Rightarrow> json_log list" where
  "json_batch env sent n = map (\<lambda>k. make_json (ge_draws env (sent + int k)) (ge_now env (sent + int k)) (sent + int k)) [0..<nat n]"

definition message_for :: "gen_env \<Rightarrow> options \<Rightarrow> int \<Rightarrow> payload" where
  "message_for env opt sent =
     (let line = syslog_line (ge_printable env) (ge_draws env sent) (op_format opt) (ge_now env sent) (ge_offset env sent) sent in
      if op_protocol opt = ''tcp'' then Stream_line (line @ [CHR 0x0A]) else Datagram line)"

text \<open>
  The inner loop of round \<open>k\<close>, up to \<open>target\<close>: the messages sent, their number and the error.
\<close>

function send_until :: "gen_env \<Rightarrow> options \<Rightarrow> nat \<Rightarrow> int \<Rightarrow> int \<Rightarrow> payload list \<times> int \<times> gen_error option" where
  "send_until env opt k target sent =
     (if target \<le> sent then ([], sent, None)
      else if ge_done env k sent then ([], sent, Some Gen_context)
      else if op_protocol opt = ''http'' then
        (let n = min 1000 (target - sent) in
         case ge_post env sent of
           None \<Rightarrow> ([], sent, Some Gen_send)
         | Some status \<Rightarrow>
             if status \<noteq> 202 then ([], sent, Some (Gen_status status))
             else (case send_until env opt k target (sent + n) of (out, r) \<Rightarrow> (Post (json_batch env sent n) # out, r)))
      else if \<not> ge_write env sent then ([], sent, Some Gen_send)
      else (case send_until env opt k target (sent + 1) of (out, r) \<Rightarrow> (message_for env opt sent # out, r)))"
  by pat_completeness auto
termination
  by (relation "measure (\<lambda>(env, opt, k, target, sent). nat (target - sent))") auto

declare send_until.simps [simp del]

definition target_by_now :: "gen_env \<Rightarrow> options \<Rightarrow> nat \<Rightarrow> int" where
  "target_by_now env opt k = min (op_count opt) (ge_due env k + max 1 (op_rate opt div 10))"

text \<open>The outer loop, for at most \<open>fuel\<close> rounds; \<^term>\<open>None\<close> if it is still running then.\<close>

fun gen_loop :: "gen_env \<Rightarrow> options \<Rightarrow> nat \<Rightarrow> nat \<Rightarrow> int \<Rightarrow> (payload list \<times> int \<times> gen_error option) option" where
  "gen_loop env opt 0 k sent = (if op_count opt \<le> sent then Some ([], sent, None) else None)"
| "gen_loop env opt (Suc fuel) k sent =
     (if op_count opt \<le> sent then Some ([], sent, None)
      else
        (let target = target_by_now env opt k in
         if target \<le> sent then
           (if ge_done env k sent then Some ([], sent, Some Gen_context) else gen_loop env opt fuel (Suc k) sent)
         else
           (case send_until env opt k target sent of
              (out, sent', Some e) \<Rightarrow> Some (out, sent', Some e)
            | (out, sent', None) \<Rightarrow>
                if op_protocol opt = ''tcp'' \<and> \<not> ge_flush env k then Some (out, sent', Some Gen_flush)
                else map_option (\<lambda>(out', r). (out @ out', r)) (gen_loop env opt fuel (Suc k) sent'))))"

definition run_loggen :: "gen_env \<Rightarrow> options \<Rightarrow> nat \<Rightarrow> (payload list \<times> int \<times> gen_error option) option" where
  "run_loggen env opt fuel =
     (case validate_options opt of
        Some e \<Rightarrow> Some ([], 0, Some (Gen_options e))
      | None \<Rightarrow>
          if op_protocol opt \<noteq> ''http'' \<and> \<not> ge_dial env then Some ([], 0, Some Gen_dial)
          else gen_loop env opt fuel 0 0)"

text \<open>The exit code of the process; the report it prints is left out.\<close>

definition loggen_exit :: "payload list \<times> int \<times> gen_error option \<Rightarrow> int" where
  "loggen_exit r = (case snd (snd r) of None \<Rightarrow> 0 | Some _ \<Rightarrow> 1)"

section \<open>The lines\<close>

lemma intn_range: "0 < n \<Longrightarrow> 0 \<le> intn d k n \<and> intn d k n < n"
  by (simp add: intn_def)

lemma pick_in: "names \<noteq> [] \<Longrightarrow> pick names d k \<in> set names"
  using intn_range [of "int (length names)" d k] by (simp add: pick_def nat_less_iff)

lemma itoa_nonneg: "0 \<le> n \<Longrightarrow> itoa n = dec_digits n"
  by (simp add: itoa_def)

text \<open>Text that needs no escapes.\<close>

definition bare :: "bytes \<Rightarrow> bool" where
  "bare s \<longleftrightarrow> list_all (\<lambda>c. is_digit c \<or> c = CHR ''.'') s"

lemma bare_itoa [simp]: "0 \<le> n \<Longrightarrow> bare (itoa n)"
  using dec_digits_is_digit [of n] by (auto simp: bare_def itoa_nonneg list_all_iff)

lemma bare_private_ip: "0 \<le> a \<Longrightarrow> 0 \<le> b \<Longrightarrow> bare (private_ip a b)"
  using bare_itoa [of a] bare_itoa [of b] by (simp add: private_ip_def bare_def is_digit_def)

lemma quote_bare: "bare s \<Longrightarrow> strconv_quote printable s = CHR 0x22 # sd_escape s @ [CHR 0x22]"
proof -
  have "quote_body printable s = s" if "bare s" for s
    using that
  proof (induction s)
    case (Cons c s)
    then have c: "is_digit c \<or> c = CHR ''.''" and "quote_body printable s = s" by (simp_all add: bare_def)
    moreover from c have b: "46 \<le> byte_val c" "byte_val c \<le> 57" by (auto simp: is_digit_def)
    moreover from b have "utf8_width (c # s) = 1" by (simp add: utf8_width_ascii)
    moreover from this b have "escape_rune printable (rune_at (c # s)) = [c]"
      by (simp add: rune_at_def escape_rune_def encode_rune_def)
    ultimately show ?case by (subst quote_body.simps) simp
  qed (subst quote_body.simps, simp)
  moreover have "sd_escape s = s" if "bare s" for s
    using that by (induction s) (auto simp: bare_def sd_escape_def is_digit_def)
  ultimately show "bare s \<Longrightarrow> ?thesis" by (simp add: strconv_quote_def)
qed

lemma names_ok:
  "list_all (\<lambda>h. wf_host h \<and> wf_token h) hosts" "list_all (\<lambda>a. wf_app a \<and> wf_token a) apps" "wf_token ''synthetic''"
  by code_simp+

lemma host_ok: "wf_host (pick hosts d k)" "wf_token (pick hosts d k)"
  and app_ok: "wf_app (pick apps d k)" "wf_token (pick apps d k)"
  using names_ok pick_in [of hosts d k] pick_in [of apps d k] by (auto simp: list_all_iff hosts_def apps_def)

lemma synthetic_ok:
  assumes "0 \<le> i" and "wf_app app"
  shows "wf_text (synthetic app i)" and "wf_message es (synthetic app i)"
proof -
  have d: "list_all is_digit (dec_digits i)" "dec_digits i \<noteq> []" using assms(1) dec_digits_is_digit [of i] by simp_all
  then have l: "is_digit (last (dec_digits i))" by (simp add: list_all_iff)
  have "\<not> is_digit (CHR 0x0A)" by (simp add: is_digit_def)
  then have nl: "CHR 0x0A \<notin> set app" "CHR 0x0A \<notin> set (dec_digits i)"
    using assms(2) d(1) not_solid_newline unfolding wf_app_def list_all_iff by blast+
  show "wf_text (synthetic app i)"
    using d(2) l nl by (simp add: wf_text_def synthetic_def itoa_nonneg assms(1) is_digit_solid) (simp add: solid_def)
  show "wf_message es (synthetic app i)"
    using d(2) l by (auto simp: wf_message_def synthetic_def itoa_nonneg assms(1) has_prefix_def byte_order_mark_def is_digit_def)
qed

lemma pid_ok:
  assumes "0 \<le> i"
  shows "wf_pid (itoa i)" and "wf_token (itoa i)" and "itoa i \<noteq> []"
proof -
  have d: "list_all is_digit (dec_digits i)" "dec_digits i \<noteq> []" using assms dec_digits_is_digit [of i] by simp_all
  then show "wf_pid (itoa i)"
    using is_digit_solid by (auto simp: wf_pid_def itoa_nonneg assms list_all_iff is_digit_def)
  show "wf_token (itoa i)"
    using d by (auto simp: wf_token_def itoa_nonneg assms list_all_iff is_digit_def)
  show "itoa i \<noteq> []" using d(2) by (simp add: itoa_nonneg assms)
qed

text \<open>What a line is made of.\<close>

definition line_priority :: "draws \<Rightarrow> int" where
  "line_priority d = (16 + intn d 3 8) * 8 + intn d 2 8"

definition line_elements :: "draws \<Rightarrow> int \<Rightarrow> sd_element list" where
  "line_elements d i =
     [(''syslogx@32473'', [(''source_ip'', private_ip (intn d 4 256) (1 + intn d 5 254)), (''event_id'', itoa i)])]"

lemma line_priority_range: "128 \<le> line_priority d \<and> line_priority d \<le> 191"
  using intn_range [of 8 d 3] intn_range [of 8 d 2] by (simp add: line_priority_def)

lemma line_priority_text: "itoa (128 + intn d 3 8 * 8 + intn d 2 8) = dec_digits (line_priority d)"
  using intn_range [of 8 d 3] intn_range [of 8 d 2] by (simp add: itoa_nonneg line_priority_def)

lemma line_elements_ok: "list_all wf_element (line_elements d i)"
proof -
  have "list_all sd_id_char ''syslogx@32473''" "list_all sd_name_char ''source_ip''" "list_all sd_name_char ''event_id''"
    by code_simp+
  then show ?thesis by (simp add: line_elements_def wf_element_def wf_param_def)
qed

lemma syslog_line_rfc5424:
  assumes "0 \<le> i" and "format \<noteq> ''rfc3164''"
  shows "syslog_line printable d format now offset i
    = render_rfc5424 (line_priority d) (Some now) (pick hosts d 0) (pick apps d 1) (itoa (1000 + i mod 9000)) ''synthetic''
        (line_elements d i) (synthetic (pick apps d 1) i)"
proof -
  have ip: "bare (private_ip (intn d 4 256) (1 + intn d 5 254))"
    using intn_range [of 256 d 4] intn_range [of 254 d 5] by (intro bare_private_ip) simp_all
  have n: "nil_text (pick hosts d 0) = pick hosts d 0" "nil_text (pick apps d 1) = pick apps d 1"
    "nil_text (itoa (1000 + i mod 9000)) = itoa (1000 + i mod 9000)"
    using host_ok(1) app_ok(1) pid_ok(3) assms(1) by (auto simp: nil_text_def wf_host_def wf_app_def)
  show ?thesis
    using assms n
    by (simp add: syslog_line_def Let_def render_rfc5424_def header_text_def stamp_text_def nil_text_def [of "''synthetic''"]
        line_priority_text line_elements_def render_sd_def render_element_def render_param_def
        quote_bare [OF ip] quote_bare [OF bare_itoa])
qed

lemma syslog_line_rfc3164:
  "0 \<le> i \<Longrightarrow> syslog_line printable d ''rfc3164'' now offset i
    = render_rfc3164 (line_priority d) (now + offset) (pick hosts d 0) (pick apps d 1) (itoa (1000 + i mod 9000))
        (synthetic (pick apps d 1) i)"
  using pid_ok(3) [of "1000 + i mod 9000"]
  by (simp add: syslog_line_def Let_def render_rfc3164_def format_stamp_def tag_text_def line_priority_text)

section \<open>The loop\<close>

text \<open>The single messages of what is sent, and the ones expected.\<close>

fun unpack :: "payload \<Rightarrow> (payload + json_log) list" where
  "unpack (Post ls) = map Inr ls"
| "unpack p = [Inl p]"

definition expected :: "gen_env \<Rightarrow> options \<Rightarrow> int \<Rightarrow> payload + json_log" where
  "expected env opt i =
     (if op_protocol opt = ''http'' then Inr (make_json (ge_draws env i) (ge_now env i) i) else Inl (message_for env opt i))"

fun small_post :: "payload \<Rightarrow> bool" where
  "small_post (Post ls) \<longleftrightarrow> ls \<noteq> [] \<and> length ls \<le> 1000"
| "small_post p \<longleftrightarrow> True"

lemma upto_map: "[a..a + int m - 1] = map (\<lambda>k. a + int k) [0..<m]"
proof (induction m)
  case (Suc m)
  have "[a..a + int (Suc m) - 1] = [a..a + int m - 1] @ [a + int m..a + int m]"
    by (subst upto_split1 [of a "a + int m"]) simp_all
  then show ?case using Suc by simp
qed simp

lemma json_batch_unpack:
  "op_protocol opt = ''http'' \<Longrightarrow> 0 \<le> n \<Longrightarrow> unpack (Post (json_batch env sent n)) = map (expected env opt) [sent..sent + n - 1]"
  using upto_map [of sent "nat n"] by (simp add: json_batch_def expected_def comp_def)

lemma message_unpack: "op_protocol opt \<noteq> ''http'' \<Longrightarrow> unpack (message_for env opt sent) = [expected env opt sent]"
  by (simp add: message_for_def expected_def Let_def)

lemma message_small: "small_post (message_for env opt sent)"
  by (simp add: message_for_def Let_def)

text \<open>Messages \<open>a\<close> up to \<open>b\<close>, excluding \<open>b\<close>, were sent.\<close>

definition sent_range :: "gen_env \<Rightarrow> options \<Rightarrow> payload list \<Rightarrow> int \<Rightarrow> int \<Rightarrow> bool" where
  "sent_range env opt out a b \<longleftrightarrow>
     a \<le> b \<and> concat (map unpack out) = map (expected env opt) [a..b - 1] \<and> list_all small_post out"

lemma sent_range_refl [simp]: "sent_range env opt [] a a"
  by (simp add: sent_range_def)

lemma sent_range_append:
  assumes "sent_range env opt out a b" and "sent_range env opt out' b c"
  shows "sent_range env opt (out @ out') a c"
proof -
  have "[a..c - 1] = [a..b - 1] @ [b..c - 1]"
    using assms by (cases "b = c") (auto simp: sent_range_def upto_split1 [of a b "c - 1"])
  then show ?thesis using assms by (simp add: sent_range_def)
qed

lemma sent_range_Cons:
  "sent_range env opt [p] a b \<Longrightarrow> sent_range env opt out b c \<Longrightarrow> sent_range env opt (p # out) a c"
  using sent_range_append [of env opt "[p]"] by simp

lemma sent_range_post:
  "op_protocol opt = ''http'' \<Longrightarrow> 0 < n \<Longrightarrow> n \<le> 1000 \<Longrightarrow> sent_range env opt [Post (json_batch env sent n)] sent (sent + n)"
  using json_batch_unpack [of opt n env sent] by (simp add: sent_range_def) (simp add: json_batch_def)

lemma sent_range_message:
  "op_protocol opt \<noteq> ''http'' \<Longrightarrow> sent_range env opt [message_for env opt sent] sent (sent + 1)"
  by (simp add: sent_range_def message_unpack message_small)

lemma send_until_sent:
  assumes "send_until env opt k target sent = (out, sent', err)"
  shows "sent_range env opt out sent sent' \<and> sent' \<le> max sent target \<and> (err = None \<longrightarrow> target \<le> sent')"
  using assms
proof (induction env opt k target sent arbitrary: out rule: send_until.induct)
  case (1 env opt k target sent)
  note until = send_until.simps [of env opt k target sent] and prems = "1.prems"
  consider (stop) "target \<le> sent \<or> ge_done env k sent"
    | (http) "\<not> target \<le> sent" "\<not> ge_done env k sent" "op_protocol opt = ''http''"
    | (line) "\<not> target \<le> sent" "\<not> ge_done env k sent" "op_protocol opt \<noteq> ''http''" by blast
  then show ?case
  proof cases
    case stop
    then show ?thesis using prems by (auto simp: until split: if_splits)
  next
    case http
    let ?n = "min 1000 (target - sent)"
    show ?thesis
    proof (cases "ge_post env sent = Some 202")
      case True
      obtain out' where r: "send_until env opt k target (sent + ?n) = (out', sent', err)"
        and out: "out = Post (json_batch env sent ?n) # out'"
        using prems http True by (auto simp: until Let_def split: prod.splits)
      have "sent_range env opt [Post (json_batch env sent ?n)] sent (sent + ?n)" using http by (intro sent_range_post) auto
      with "1.IH"(1) [OF http refl True _ r] show ?thesis using http by (auto simp: out intro: sent_range_Cons)
    next
      case False
      then show ?thesis using prems http by (auto simp: until Let_def split: option.splits if_splits)
    qed
  next
    case line
    show ?thesis
    proof (cases "ge_write env sent")
      case True
      obtain out' where r: "send_until env opt k target (sent + 1) = (out', sent', err)"
        and out: "out = message_for env opt sent # out'"
        using prems line True by (auto simp: until split: prod.splits)
      with "1.IH"(2) [OF line _ r] True sent_range_message [OF line(3), of env sent] show ?thesis
        using line by (auto simp: out intro: sent_range_Cons)
    qed (use prems line in \<open>auto simp: until\<close>)
  qed
qed

lemma gen_loop_sent:
  assumes "gen_loop env opt fuel k sent = Some (out, sent', err)" and "sent \<le> op_count opt"
  shows "sent_range env opt out sent sent' \<and> sent' \<le> op_count opt \<and> (err = None \<longrightarrow> sent' = op_count opt)"
  using assms
proof (induction env opt fuel k sent arbitrary: out rule: gen_loop.induct)
  case (2 env opt fuel k sent)
  let ?t = "target_by_now env opt k"
  show ?case
  proof (cases "op_count opt \<le> sent \<or> ?t \<le> sent")
    case True
    then show ?thesis using 2 by (auto simp: Let_def split: if_splits)
  next
    case False
    obtain out1 s1 e1 where u: "send_until env opt k ?t sent = (out1, s1, e1)" by (rule prod_cases3)
    have s1: "sent_range env opt out1 sent s1" "s1 \<le> op_count opt"
      using send_until_sent [OF u] False by (auto simp: target_by_now_def)
    show ?thesis
    proof (cases "e1 = None \<and> \<not> (op_protocol opt = ''tcp'' \<and> \<not> ge_flush env k)")
      case True
      then obtain out2 where r: "gen_loop env opt fuel (Suc k) s1 = Some (out2, sent', err)" and out: "out = out1 @ out2"
        using "2.prems"(1) False u by (auto simp: Let_def)
      have "sent_range env opt out2 s1 sent' \<and> sent' \<le> op_count opt \<and> (err = None \<longrightarrow> sent' = op_count opt)"
        using "2.IH"(2) [OF _ refl _ u [symmetric] refl] True False r s1(2) by auto
      then show ?thesis using s1(1) by (auto simp: out intro: sent_range_append)
    next
      case failed: False
      then have "out = out1" "sent' = s1" "err \<noteq> None"
        using "2.prems"(1) False u by (auto simp: Let_def split: option.splits if_splits)
      then show ?thesis using s1 by auto
    qed
  qed
qed (auto split: if_splits)

text \<open>An environment in which nothing fails.\<close>

definition all_well :: "gen_env \<Rightarrow> bool" where
  "all_well env \<longleftrightarrow> ge_dial env \<and> (\<forall>k s. \<not> ge_done env k s) \<and> (\<forall>k. ge_flush env k) \<and> (\<forall>s. ge_post env s = Some 202) \<and> (\<forall>s. ge_write env s)"

lemma send_until_well:
  "all_well env \<Longrightarrow> \<exists>out s. send_until env opt k target sent = (out, s, None)"
proof (induction env opt k target sent rule: send_until.induct)
  case (1 env opt k target sent)
  have w: "\<not> ge_done env k sent" "ge_post env sent = Some 202" "ge_write env sent" using "1.prems" by (simp_all add: all_well_def)
  show ?case
  proof (cases "target \<le> sent")
    case False
    show ?thesis
    proof (cases "op_protocol opt = ''http''")
      case True
      from "1.IH"(1) [OF False w(1) True refl w(2) _ "1.prems"] show ?thesis
        using False True w by (subst send_until.simps) (auto simp: Let_def)
    next
      case http: False
      from "1.IH"(2) [OF False w(1) http _ "1.prems"] show ?thesis
        using False http w by (subst send_until.simps) auto
    qed
  qed (subst send_until.simps, simp)
qed

lemma gen_loop_returns:
  assumes "all_well env" and "op_count opt \<le> ge_due env K" and "k \<le> K" and "K < k + fuel"
  shows "\<exists>out s. gen_loop env opt fuel k sent = Some (out, s, None)"
  using assms
proof (induction env opt fuel k sent rule: gen_loop.induct)
  case (2 env opt fuel k sent)
  let ?t = "target_by_now env opt k"
  show ?case
  proof (cases "op_count opt \<le> sent")
    case False
    obtain out s where u: "send_until env opt k ?t sent = (out, s, None)" using send_until_well [OF "2.prems"(1)] by blast
    have w: "\<not> ge_done env k sent" "ge_flush env k" using "2.prems"(1) by (simp_all add: all_well_def)
    show ?thesis
    proof (cases "k = K")
      case True
      then have t: "?t = op_count opt" using "2.prems"(2) by (simp add: target_by_now_def)
      have "op_count opt \<le> s" using send_until_sent [OF u] t by simp
      then have "gen_loop env opt fuel (Suc k) s = Some ([], s, None)" by (cases fuel) simp_all
      then show ?thesis using False t u w by (simp add: Let_def)
    next
      case less: False
      then have "Suc k \<le> K" "K < Suc k + fuel" using "2.prems"(3,4) by simp_all
      then show ?thesis
        using "2.IH"(1) [OF False refl _ w(1) "2.prems"(1,2)] "2.IH"(2) [OF False refl _ u [symmetric] refl refl _ "2.prems"(1,2)] False u w
        by (cases "?t \<le> sent") (auto simp: Let_def)
    qed
  qed simp
qed simp

section \<open>The properties\<close>

text \<open>The layout of the stamp drops the fraction of the second.\<close>

lemma render_rfc3164_second: "render_rfc3164 n t host app pid msg = render_rfc3164 n (t - t mod second) host app pid msg"
proof -
  have s: "unix_sec (t - t mod second) = unix_sec t" by (simp add: unix_sec_def minus_mod_eq_mult_div)
  have "civil_of (t - t mod second) = (civil_of t)\<lparr>dt_nsec := (t - t mod second) mod second\<rparr>"
    by (simp add: civil_of_def Let_def s split: prod.splits)
  then show ?thesis by (simp add: render_rfc3164_def month_text_def day_text_def clock_text_def)
qed


text \<open>
  C29: the generator sends what it is asked for.  With valid options, whatever fails, what it
  has counted as sent are the messages 0, 1, 2, ... in order and each once, in requests of
  one to 1000 messages over HTTP; it never exceeds its count, and without an error it has
  reached it.  If nothing fails, it ends once the clock has reached the time for its count.
\<close>

theorem loggen_sends:
  assumes "validate_options opt = None"
  shows "(\<forall>fuel out sent err. run_loggen env opt fuel = Some (out, sent, err) \<longrightarrow>
            concat (map unpack out) = map (expected env opt) [0..sent - 1] \<and> list_all small_post out
            \<and> 0 \<le> sent \<and> sent \<le> op_count opt \<and> (err = None \<longrightarrow> sent = op_count opt))
       \<and> (\<forall>K. all_well env \<longrightarrow> op_count opt \<le> ge_due env K \<longrightarrow>
            (\<exists>out. run_loggen env opt (Suc K) = Some (out, op_count opt, None)))"
proof -
  have c: "0 \<le> op_count opt" using assms by (simp add: validate_options_def split: if_splits)
  have *: "sent_range env opt out 0 sent \<and> sent \<le> op_count opt \<and> (err = None \<longrightarrow> sent = op_count opt)"
    if "run_loggen env opt fuel = Some (out, sent, err)" for fuel out sent err
    using that assms c gen_loop_sent [of env opt fuel 0 0 out sent err]
    by (auto simp: run_loggen_def split: if_splits)
  moreover have "\<exists>out. run_loggen env opt (Suc K) = Some (out, op_count opt, None)"
    if w: "all_well env" "op_count opt \<le> ge_due env K" for K
  proof -
    obtain out s where "gen_loop env opt (Suc K) 0 0 = Some (out, s, None)"
      using gen_loop_returns [OF w, of 0 "Suc K" 0] by auto
    then have r: "run_loggen env opt (Suc K) = Some (out, s, None)"
      using assms w(1) by (simp add: run_loggen_def all_well_def)
    with * [OF r] show ?thesis by blast
  qed
  ultimately show ?thesis by (auto simp: sent_range_def)
qed

text \<open>A call without flags is valid, and exit code 0 tells that all of its 1000 messages were sent.\<close>

lemma default_options_valid: "validate_options default_options = None"
  by code_simp

lemma loggen_exit_0:
  assumes "run_loggen env default_options fuel = Some (out, sent, err)"
  shows "loggen_exit (out, sent, err) = 0 \<Longrightarrow> concat (map unpack out) = map (expected env default_options) [0..999]"
proof -
  assume "loggen_exit (out, sent, err) = 0"
  then have "err = None" by (simp add: loggen_exit_def split: option.splits)
  moreover have "sent_range env default_options out 0 sent \<and> (err = None \<longrightarrow> sent = op_count default_options)"
    using assms default_options_valid gen_loop_sent [of env default_options fuel 0 0 out sent err]
    by (auto simp: run_loggen_def default_options_def split: if_splits)
  ultimately show ?thesis by (simp add: sent_range_def default_options_def)
qed

section \<open>Batches and the ingestion handler\<close>

lemma json_item_get:
  "row_get (json_item l) ''message'' = AStr (jl_message l)" "row_get (json_item l) ''timestamp'' = AStr (jl_timestamp l)"
  "row_get (json_item l) ''hostname'' = AStr (jl_hostname l)" "row_get (json_item l) ''severity'' = ANull"
  "row_get (json_item l) ''level'' = AStr (jl_level l)" "row_get (json_item l) ''app_name'' = ANull"
  "row_get (json_item l) ''service'' = AStr (jl_service l)"
  by (simp_all add: json_item_def row_get_def)

text \<open>What the handler keeps of a message of the generator.\<close>

definition keeps_log :: "instant \<Rightarrow> json_log \<Rightarrow> log_entry \<Rightarrow> bool" where
  "keeps_log t l e \<longleftrightarrow>
     le_message e = jl_message l \<and> le_hostname e = jl_hostname l \<and> le_severity_name e = jl_level l
     \<and> le_app_name e = jl_service l \<and> le_timestamp e = t
     \<and> le_fields e ''source_ip'' = Some (AStr (jl_source_ip l)) \<and> le_fields e ''event_id'' = Some (ANum (itoa (jl_event_id l)))"

lemma ingest_json_item:
  assumes "wf_stamp (Some t)"
  shows "\<exists>e. ingest_entry now k (json_item (make_json d t i)) = Inr e \<and> keeps_log t (make_json d t i) e"
proof -
  define l where "l = make_json d t i"
  have l: "jl_message l = synthetic (pick apps d 1) i" "jl_timestamp l = format_rfc3339 t" "jl_hostname l = pick hosts d 0"
    by (simp_all add: l_def make_json_def Let_def)
  have msg: "jl_message l \<noteq> ''<nil>'' \<and> jl_message l \<noteq> []" by (simp add: l synthetic_def)
  have host: "jl_hostname l \<noteq> ''<nil>''" using pick_in [of hosts d 0] by (auto simp: l hosts_def)
  have "format_rfc3339 t \<noteq> []" using format_rfc3339_chars(2) [of t] assms by auto
  then have stamp: "item_stamp now (json_item l) = Some t"
    using parse_format_rfc3339 [of t] assms by (simp add: item_stamp_def json_item_get l wf_stamp_def)
  have fs: "item_fields (json_item l) ''source_ip'' = Some (AStr (jl_source_ip l))"
    "item_fields (json_item l) ''event_id'' = Some (ANum (itoa (jl_event_id l)))"
    by (simp_all add: item_fields_def own_keys_def json_item_def)
  show ?thesis
    unfolding l_def [symmetric] ingest_entry_def text_of_def json_item_get stamp Let_def
    using msg host fs by (simp add: keeps_log_def)
qed

lemma ingest_json_items:
  assumes "list_all (\<lambda>(d, t, i). wf_stamp (Some t)) xs"
  shows "\<exists>es. ingest_entries now k (map (\<lambda>(d, t, i). json_item (make_json d t i)) xs) = Inr es
     \<and> list_all2 (\<lambda>(d, t, i) e. keeps_log t (make_json d t i) e) xs es"
  using assms
proof (induction xs arbitrary: k)
  case (Cons x xs)
  obtain d t i where x: "x = (d, t, i)" by (rule prod_cases3)
  obtain e where "ingest_entry now k (json_item (make_json d t i)) = Inr e" "keeps_log t (make_json d t i) e"
    using ingest_json_item [of t now k d i] Cons.prems x by auto
  moreover obtain es where "ingest_entries now (Suc k) (map (\<lambda>(d, t, i). json_item (make_json d t i)) xs) = Inr es"
    "list_all2 (\<lambda>(d, t, i) e. keeps_log t (make_json d t i) e) xs es"
    using Cons.IH [of "Suc k"] Cons.prems by auto
  ultimately show ?case by (simp add: x)
qed simp

text \<open>
  C30: the ingestion handler accepts the generator's batches.  A batch of at most 1000 messages
  that storage takes is answered with 202, and the entries handed to storage keep, in order, the
  message, host, level, service, time, address and event number of each message.
\<close>

theorem loggen_accepted:
  assumes "length xs \<le> 1000" and "list_all (\<lambda>(d, t, i). wf_stamp (Some t)) xs"
    and "\<And>es. length es = length xs \<Longrightarrow> \<exists>size. store es = Inr (int (length es), size)"
  shows "\<exists>es. ingest_json store now (Document (Some (AArr (map (\<lambda>(d, t, i). AObj (json_item (make_json d t i))) xs))))
        = (Sent 202 (int (length xs)), Some es)
     \<and> list_all2 (\<lambda>(d, t, i) e. keeps_log t (make_json d t i) e) xs es"
proof -
  let ?items = "map (\<lambda>(d, t, i). json_item (make_json d t i)) xs"
  have "ingest_items (Document (Some (AArr (map (\<lambda>(d, t, i). AObj (json_item (make_json d t i))) xs)))) = Inr ?items"
    by (simp add: ingest_items_def document_items_def as_object_def list_all_iff case_prod_unfold comp_def)
  moreover obtain es where es: "ingest_entries now 0 ?items = Inr es"
    "list_all2 (\<lambda>(d, t, i) e. keeps_log t (make_json d t i) e) xs es"
    using ingest_json_items [OF assms(2)] by blast
  moreover have len: "length es = length xs" using es(2) by (simp add: list_all2_lengthD)
  moreover obtain size where "store es = Inr (int (length es), size)" using assms(3) [OF len] by blast
  ultimately show ?thesis using assms(1) by (simp add: ingest_json_def)
qed

section \<open>Witnesses\<close>


definition sample_options :: options where
  "sample_options = \<lparr>op_target = ''127.0.0.1'', op_protocol = ''udp'', op_format = ''rfc5424'', op_path = ''/'', op_port = 514,
     op_rate = 10, op_count = 3, op_seed = 1\<rparr>"

definition sample_gen :: gen_env where
  "sample_gen = \<lparr>ge_dial = True, ge_due = (\<lambda>k. int k), ge_done = (\<lambda>_ _. False), ge_flush = (\<lambda>_. True), ge_draws = (\<lambda>_ _. 0),
     ge_now = (\<lambda>_. 0), ge_offset = (\<lambda>_. 0), ge_printable = (\<lambda>_. True), ge_post = (\<lambda>_. Some 202), ge_write = (\<lambda>_. True)\<rparr>"

theorem loggen_sends_witness:
  "\<exists>out. run_loggen sample_gen sample_options 4 = Some (out, 3, None)
     \<and> concat (map unpack out) = map (expected sample_gen sample_options) [0, 1, 2]"
proof -
  have "validate_options sample_options = None" by code_simp
  note s = loggen_sends [OF this, of sample_gen]
  have "all_well sample_gen" "op_count sample_options \<le> ge_due sample_gen 3" "op_count sample_options = 3"
    by (simp_all add: all_well_def sample_gen_def sample_options_def)
  then obtain out where out: "run_loggen sample_gen sample_options (Suc 3) = Some (out, 3, None)" using s by metis
  moreover have "[0..3 - 1 :: int] = [0, 1, 2]" by code_simp
  ultimately show ?thesis using s by (metis eval_nat_numeral(3) numeral_eq_Suc pred_numeral_simps(2) semiring_norm(26,27,28))
qed

theorem loggen_accepted_witness:
  "\<exists>es. ingest_json (\<lambda>es. Inr (int (length es), 0)) 5 (Document (Some (AArr [AObj (json_item (make_json (\<lambda>_. 1) 0 3))])))
        = (Sent 202 1, Some es) \<and> map le_message es = [''synthetic firewall event 3'']"
proof -
  have "list_all (\<lambda>(d, t, i). wf_stamp (Some t)) [((\<lambda>_. 1) :: draws, 0, 3 :: int)]" by code_simp
  moreover have "jl_message (make_json (\<lambda>_. 1) 0 3) = ''synthetic firewall event 3''" by code_simp
  ultimately show ?thesis
    using loggen_accepted [of "[((\<lambda>_. 1) :: draws, 0, 3 :: int)]" "\<lambda>es. Inr (int (length es), 0)" 5]
    by (auto simp: list_all2_Cons1 keeps_log_def)
qed

end
