(* ===== verification/Backend.thy ===== *)
theory Backend
  imports Pipeline_Correct Victoria
begin

text \<open>
  The parts put together: the pipeline of \<^verbatim>\<open>ingestion/pipeline.go\<close> on the storage client of
  \<^verbatim>\<open>storage/victorialogs/client.go\<close> behind it, and under the listeners of
  \<^verbatim>\<open>transport/syslog/manager.go\<close> in front of it.
\<close>

section \<open>Definitions\<close>

text \<open>The backend the pipeline is given: the client, in the world as it is at each attempt.\<close>

definition append_outcome :: "'e + (int \<times> int) \<Rightarrow> append_result" where
  "append_outcome r = (case r of Inl e \<Rightarrow> Append_err | Inr (accepted, n) \<Rightarrow> Append_ok accepted n)"

definition storage_append ::
  "(int \<Rightarrow> world) \<Rightarrow> (log_entry \<Rightarrow> (bytes \<times> any_value) list \<times> (bytes \<times> bytes) list) \<Rightarrow> client
   \<Rightarrow> int \<Rightarrow> log_entry list \<Rightarrow> append_result" where
  "storage_append worlds visit c k batch = append_outcome (client_append (worlds k) visit c batch)"

section \<open>The client as the pipeline's backend\<close>

lemma append_outcome_ok: "append_outcome r = Append_ok a n \<longleftrightarrow> r = Inr (a, n)"
  by (auto simp: append_outcome_def split: sum.splits)

text \<open>Every storage is a backend of the pipeline, whatever the attempt.\<close>

sublocale appender < attempts: append_backend "\<lambda>k batch. append_outcome (store batch)"
  by unfold_locales (simp add: append_outcome_ok accepts_all)

lemma storage_append_ok:
  assumes "storage_append worlds visit c k batch = Append_ok a n"
  shows "a = int (length batch)"
    and "batch \<noteq> [] \<Longrightarrow> \<exists>status answer broken. status div 100 = 2
      \<and> wd_do (worlds k) (append_request c (append_body (wd_number (worlds k)) visit batch)) = Http_answer status answer broken"
  using assms vl_store.accepts_all
  by (auto simp: storage_append_def append_outcome_ok client_append_def Let_def split: http_result.splits if_splits)

interpretation vl: append_backend "storage_append worlds visit c" for worlds visit c
  by unfold_locales (rule storage_append_ok(1))

text \<open>How the loop of \<^verbatim>\<open>appendWithRetry\<close> ends.\<close>

lemma append_loop_cases:
  assumes "attempt \<le> rc_max_attempts cfg"
  shows "(\<exists>k a n. attempt \<le> k \<and> k \<le> rc_max_attempts cfg \<and> re_append env k batch = Append_ok a n
            \<and> stored_total (fst (append_loop name cfg env batch attempt backoff m)) = stored_total m + a
            \<and> mt_dropped (fst (append_loop name cfg env batch attempt backoff m)) = mt_dropped m)
       \<or> stored_total (fst (append_loop name cfg env batch attempt backoff m)) = stored_total m
            \<and> mt_dropped (fst (append_loop name cfg env batch attempt backoff m))
               = mt_dropped (drop_event ''storage'' ''retry_exhausted'' (int (length batch)) m)"
  using assms
proof (induction name cfg env batch attempt backoff m rule: append_loop.induct)
  case (1 name cfg env batch attempt backoff m)
  note loop = append_loop.simps [of name cfg env batch attempt backoff m]
  show ?case
  proof (cases "re_append env attempt batch")
    case (Append_ok a n)
    then show ?thesis using "1.prems" by (intro disjI1 exI [of _ attempt] exI [of _ a] exI [of _ n]) (simp add: loop)
  next
    case err: Append_err
    show ?thesis
    proof (cases "attempt = rc_max_attempts cfg \<or> re_ctx_done env attempt")
      case True
      then show ?thesis using err "1.prems" by (simp add: loop drop_event_def)
    next
      case False
      define b where "b = (if re_slept env attempt then min (wrap64 (backoff * 2)) (rc_max_backoff cfg) else backoff)"
      define m1 where "m1 = retry_event name (time_append name ''error'' (re_elapsed env attempt) m)"
      have next_loop: "fst (append_loop name cfg env batch attempt backoff m) = fst (append_loop name cfg env batch (attempt + 1) b m1)"
        using False err "1.prems" by (simp add: loop b_def m1_def Let_def split: prod.splits)
      have "attempt + 1 \<le> rc_max_attempts cfg" using False "1.prems" by simp
      from "1.IH" [OF _ err refl False b_def this] "1.prems" next_loop show ?thesis
        by (fastforce simp: m1_def drop_event_def)
    qed
  qed
qed

section \<open>The properties\<close>

text \<open>
  C40: a batch is stored whole or dropped whole.  When \<^verbatim>\<open>appendWithRetry\<close> has run over the client,
  either the server has answered with a 2xx status to a request with the whole batch in one of
  the attempts, and the whole batch is counted as stored, or nothing is counted as stored and
  the whole batch as dropped.
\<close>

theorem storage_settles:
  assumes "0 < rc_max_attempts (ic_retry (pl_cfg p))" and "re_append env = storage_append worlds visit c" and "batch \<noteq> []"
  shows "(\<exists>k status answer broken. 1 \<le> k \<and> k \<le> rc_max_attempts (ic_retry (pl_cfg p)) \<and> status div 100 = 2
            \<and> wd_do (worlds k) (append_request c (append_body (wd_number (worlds k)) visit batch))
                = Http_answer status answer broken
            \<and> stored_total (pl_metrics (append_with_retry env batch p)) = stored_total (pl_metrics p) + int (length batch)
            \<and> mt_dropped (pl_metrics (append_with_retry env batch p)) = mt_dropped (pl_metrics p))
       \<or> stored_total (pl_metrics (append_with_retry env batch p)) = stored_total (pl_metrics p)
            \<and> mt_dropped (pl_metrics (append_with_retry env batch p))
               = counter_add (''storage'', ''retry_exhausted'') (int (length batch)) (mt_dropped (pl_metrics p))"
proof -
  let ?cfg = "ic_retry (pl_cfg p)" and ?m = "pl_metrics p"
  let ?m' = "fst (append_loop (pl_backend_name p) ?cfg env batch 1 (rc_initial_backoff ?cfg) ?m)"
  have m': "pl_metrics (append_with_retry env batch p) = ?m'" by (simp add: append_with_retry_def on_metrics_def)
  from assms(1) append_loop_cases [of 1 ?cfg env batch "pl_backend_name p" "rc_initial_backoff ?cfg" ?m]
  consider (ok) k a n where "1 \<le> k" "k \<le> rc_max_attempts ?cfg" "re_append env k batch = Append_ok a n"
      "stored_total ?m' = stored_total ?m + a" "mt_dropped ?m' = mt_dropped ?m"
    | (err) "stored_total ?m' = stored_total ?m"
      "mt_dropped ?m' = counter_add (''storage'', ''retry_exhausted'') (int (length batch)) (mt_dropped ?m)"
    by (auto simp: drop_event_def)
  then show ?thesis
  proof cases
    case ok
    from ok(3) have s: "storage_append worlds visit c k batch = Append_ok a n" by (simp add: assms(2))
    from storage_append_ok(2) [OF s assms(3)] ok vl.takes_whole [OF s] show ?thesis
      unfolding m' by (intro disjI1) blast
  qed (simp add: m')
qed

text \<open>
  The listeners keep the books.  From every state of a started pipeline, whatever one TCP
  connection sends and whatever datagrams one UDP socket receives, every message is in the
  counters afterwards: received is accepted, refused or waiting, and accepted is in flight,
  stored or dropped.
\<close>

theorem transport_keeps_books:
  assumes "started cfg p" and "reaches p q"
    and "q' \<in> {handle_tcp pipeline_port clock source addr k r q, handle_udp pipeline_port source datagrams q}"
  shows "received_total q'
           = accepted_total q' + dropped_total (\<lambda>s. s = ''admission'') q' + int (length (pl_waiting q'))
     \<and> accepted_total q'
           = in_flight q' + stored_total (pl_metrics q') + dropped_total (\<lambda>s. s \<noteq> ''admission'') q'"
proof -
  have "pipeline_inv q" using reaches_inv [OF assms(2) started_inv [OF assms(1)]] .
  then have "pipeline_inv q'" using assms(3) port.tcp_keeps port.udp_keeps by auto
  then show ?thesis by (simp_all add: pipeline_inv_def books_def)
qed

section \<open>Witnesses\<close>

definition failing_env :: retry_env where
  "failing_env = \<lparr>re_append = storage_append (\<lambda>k. (sample_world [])\<lparr>wd_do := (\<lambda>_. if k < 2 then Http_failed else Http_answer 200 [] False)\<rparr>)
      (\<lambda>_. ([], [])) sample_client, re_elapsed = (\<lambda>_. 0), re_ctx_done = (\<lambda>_. False), re_slept = (\<lambda>_. True), re_random = (\<lambda>_. 0)\<rparr>"

theorem storage_settles_witness:
  "stored_total (pl_metrics (append_with_retry failing_env [sample_entry ''a''] sample_pipeline)) \<in> {0, 1}
   \<and> 0 < rc_max_attempts (ic_retry (pl_cfg sample_pipeline))"
proof -
  have a: "0 < rc_max_attempts (ic_retry (pl_cfg sample_pipeline))"
    and m: "stored_total (pl_metrics sample_pipeline) = 0"
    by code_simp+
  note s = storage_settles [OF a, of failing_env _ "\<lambda>_. ([], [])" sample_client "[sample_entry ''a'']"]
  from s [OF _ ] a m show ?thesis by (auto simp: failing_env_def)
qed

theorem transport_keeps_books_witness:
  "\<exists>q'. q' = handle_udp pipeline_port sample_source [(''<13>hello'', ''10.0.0.1'', 514, 0)] sample_pipeline
     \<and> received_total q' = 1
     \<and> 1 = accepted_total q' + dropped_total (\<lambda>s. s = ''admission'') q' + int (length (pl_waiting q'))"
proof -
  let ?q = "handle_udp pipeline_port sample_source [(''<13>hello'', ''10.0.0.1'', 514, 0)] sample_pipeline"
  have "received_total ?q = 1" by code_simp
  with transport_keeps_books [OF sample_started reaches_refl insertI2 [OF insertI1],
      of sample_source "[(''<13>hello'', ''10.0.0.1'', 514, 0)]"]
  show ?thesis by simp
qed

end
