(* ===== verification/Service.thy ===== *)
theory Service
  imports Backend Saved_Searches
begin

text \<open>
  The life of the service: the PostgreSQL connection of
  \<^verbatim>\<open>backend/internal/controlstore/postgres/store.go\<close> and the entry point of
  \<^verbatim>\<open>backend/cmd/syslogx/main.go\<close>, which puts the components together, and takes them down again.

  Shown are that a start leaves all enabled listeners open over a started pipeline or nothing
  at all, and that a shutdown drains the pipeline.
\<close>

section \<open>Definitions\<close>

subsection \<open>The PostgreSQL connection\<close>

datatype pg_error = Pg_pool | Pg_ping | Pg_migrate

text \<open>The tables of the control store; \<^term>\<open>None\<close> while a table does not exist.\<close>

record pg_schema =
  pg_versions :: "int list option"
  pg_saved :: "table option"

text \<open>\<^verbatim>\<open>Open\<close>: the pools that stay open, and the error.\<close>

definition pg_ping :: "bool \<Rightarrow> pg_error option" where
  "pg_ping reachable = (if reachable then None else Some Pg_ping)"

definition open_store :: "bool \<Rightarrow> bool \<Rightarrow> nat \<times> pg_error option" where
  "open_store pool_ok reachable =
     (if \<not> pool_ok then (0, Some Pg_pool)
      else (case pg_ping reachable of Some e \<Rightarrow> (0, Some e) | None \<Rightarrow> (1, None)))"

text \<open>The statements of \<^verbatim>\<open>Migrate\<close> in order, as one transaction.\<close>

definition insert_version :: "int \<Rightarrow> pg_schema \<Rightarrow> pg_schema" where
  "insert_version v s =
     s\<lparr>pg_versions := map_option (\<lambda>vs. if v \<in> set vs then vs else vs @ [v]) (pg_versions s)\<rparr>"

definition create_versions :: "pg_schema \<Rightarrow> pg_schema" where
  "create_versions s = (case pg_versions s of None \<Rightarrow> s\<lparr>pg_versions := Some []\<rparr> | Some _ \<Rightarrow> s)"

definition create_saved_table :: "pg_schema \<Rightarrow> pg_schema" where
  "create_saved_table s = (case pg_saved s of None \<Rightarrow> s\<lparr>pg_saved := Some []\<rparr> | Some _ \<Rightarrow> s)"

definition migrate :: "bool \<Rightarrow> pg_schema \<Rightarrow> pg_error + pg_schema" where
  "migrate ok s =
     (if ok then Inr (insert_version 2 (create_saved_table (insert_version 1 (create_versions s)))) else Inl Pg_migrate)"

subsection \<open>Starting\<close>

record flags =
  fl_config :: bytes
  fl_http_address :: bytes
  fl_storage_endpoint :: bytes
  fl_version :: bool

definition default_flags :: flags where
  "default_flags = \<lparr>fl_config = ''config/syslogx.yaml'', fl_http_address = [], fl_storage_endpoint = [], fl_version = False\<rparr>"

datatype run_error =
    Run_config config_error
  | Run_endpoint
  | Run_dsn
  | Run_store pg_error
  | Run_location
  | Run_listen start_error

text \<open>The operating system, the network, the database and the libraries as the start meets them.\<close>

record service_env =
  se_read_file :: "bytes \<Rightarrow> bytes option"
  se_decode :: "bytes \<Rightarrow> config \<Rightarrow> config option"
  se_frac :: "int \<Rightarrow> int \<Rightarrow> int \<Rightarrow> int"
  se_url_parts :: "bytes \<Rightarrow> (bytes \<times> bytes) option"
  se_url_parse :: "bytes \<Rightarrow> url option"
  se_load_location :: "bytes \<Rightarrow> location option"
  se_environ :: "bytes list"
  se_pool :: "bytes \<Rightarrow> bool"
  se_reachable :: bool
  se_migrate :: bool
  se_schema :: pg_schema
  se_procs :: nat
  se_listen :: "source_config \<Rightarrow> bool"

record service =
  sv_config :: config
  sv_client :: client
  sv_pools :: nat
  sv_schema :: pg_schema
  sv_pipeline :: pipeline
  sv_manager :: manager
  sv_sources :: "source_config list"
  sv_errors :: "bytes list"

text \<open>
  The control store, if one is configured: the number of open pools and the schema.  When
  \<^verbatim>\<open>run\<close> returns, the deferred \<^verbatim>\<open>Close\<close> has closed the pool.
\<close>

definition connect_store :: "service_env \<Rightarrow> config \<Rightarrow> run_error + (nat \<times> pg_schema)" where
  "connect_store env cfg =
     (if \<not> cs_enabled (cf_control_store cfg) then Inr (0, se_schema env)
      else
        (case control_dsn (se_read_file env) cfg of
           None \<Rightarrow> Inl Run_dsn
         | Some dsn \<Rightarrow>
             (case open_store (se_pool env dsn) (se_reachable env) of
                (n, Some e) \<Rightarrow> Inl (Run_store e)
              | (n, None) \<Rightarrow>
                  (case migrate (se_migrate env) (se_schema env) of
                     Inl e \<Rightarrow> Inl (Run_store e)
                   | Inr s \<Rightarrow> Inr (n, s)))))"

text \<open>
  How a start ends: the version is printed, \<^verbatim>\<open>run\<close> returns an error and leaves the given
  pipeline and listeners behind, or the service runs.
\<close>

datatype launch = Printed | Halted run_error "pipeline option" "manager option" | Running service

definition start_service :: "service_env \<Rightarrow> flags \<Rightarrow> launch" where
  "start_service env fl =
     (if fl_version fl then Printed
      else
        (case load_config (se_read_file env) (se_decode env) (se_frac env) (se_url_parts env) (se_load_location env)
                (fl_config fl) (se_environ env)
                \<lparr>ov_http_address = fl_http_address fl, ov_storage_endpoint = fl_storage_endpoint fl\<rparr> of
           Inl e \<Rightarrow> Halted (Run_config e) None None
         | Inr cfg \<Rightarrow>
             (case new_client (se_url_parse env) (st_endpoint (cf_storage cfg)) (st_stream_fields (cf_storage cfg)) of
                None \<Rightarrow> Halted Run_endpoint None None
              | Some c \<Rightarrow>
                  (case connect_store env cfg of
                     Inl e \<Rightarrow> Halted e None None
                   | Inr (pools, schema) \<Rightarrow>
                       (case new_pipeline (se_load_location env) (cf_ingestion cfg) (cp_backend client_capabilities) of
                          None \<Rightarrow> Halted Run_location None None
                        | Some p0 \<Rightarrow>
                            (let p = start_pipeline (max 2 (se_procs env)) p0 in
                             case start_manager (se_listen env) (ic_sources (cf_ingestion cfg)) new_manager of
                               (m, Some e) \<Rightarrow> Halted (Run_listen e) (Some (stop_pipeline p)) (Some m)
                             | (m, None) \<Rightarrow>
                                 Running \<lparr>sv_config = cfg, sv_client = c, sv_pools = pools, sv_schema = schema,
                                   sv_pipeline = p, sv_manager = m, sv_sources = ic_sources (cf_ingestion cfg),
                                   sv_errors = []\<rparr>))))))"

subsection \<open>Stopping\<close>

text \<open>Why the main goroutine goes on: a signal, or the end of the HTTP server.\<close>

datatype end_cause = Signalled | Server_closed | Server_failed

text \<open>
  The steps of the shutdown up to the wait in \<^verbatim>\<open>pipeline.Stop\<close>, in order: refuse new work, close
  the listeners and connections, close the queue.
\<close>

definition refuse_work :: "service \<Rightarrow> service" where
  "refuse_work sv = sv\<lparr>sv_pipeline := (sv_pipeline sv)\<lparr>pl_accepting := False\<rparr>\<rparr>"

definition close_sources :: "service \<Rightarrow> service" where
  "close_sources sv = sv\<lparr>sv_manager := close_manager (sv_manager sv)\<rparr>"

definition stop_ingestion :: "service \<Rightarrow> service" where
  "stop_ingestion sv = sv\<lparr>sv_pipeline := stop_pipeline (sv_pipeline sv)\<rparr>"

definition begin_shutdown :: "end_cause \<Rightarrow> service \<Rightarrow> service" where
  "begin_shutdown cause sv =
     stop_ingestion (close_sources (refuse_work
       (if cause = Server_failed then sv\<lparr>sv_errors := sv_errors sv @ [''server'']\<rparr> else sv)))"

text \<open>
  The rest: \<open>late\<close> if the deadline passed before the pipeline was done, in which case its context
  is cancelled, and whether \<^verbatim>\<open>server.Shutdown\<close> succeeded; the deferred calls close the pool.
\<close>

definition end_shutdown :: "bool \<Rightarrow> bool \<Rightarrow> service \<Rightarrow> service" where
  "end_shutdown late server_ok sv =
     sv\<lparr>sv_errors := sv_errors sv @ (if late then [''pipeline''] else []) @ (if server_ok then [] else [''shutdown'']),
        sv_pools := 0\<rparr>"

definition exit_code :: "launch \<Rightarrow> int" where
  "exit_code l =
     (case l of Printed \<Rightarrow> 0 | Halted e p m \<Rightarrow> 1 | Running sv \<Rightarrow> if sv_errors sv = [] then 0 else 1)"

section \<open>Starting\<close>

lemma load_locations_total:
  "list_all (\<lambda>s. load_location (sc_timezone s) \<noteq> None) ss \<Longrightarrow> load_locations load_location ss m \<noteq> None"
  by (induction ss arbitrary: m) auto

lemma new_pipeline_total: "ingestion_ok load_location cfg \<Longrightarrow> new_pipeline load_location cfg name \<noteq> None"
  using load_locations_total [of load_location "ic_sources cfg" Map.empty]
  by (auto simp: new_pipeline_def ingestion_ok_def source_ok_def list_all_iff)

lemma started_of_config:
  assumes "ingestion_ok load_location cfg" and "qc_max_bytes (ic_queue cfg) < 2 ^ 62"
    and "new_pipeline load_location cfg name = Some p"
  shows "started cfg (start_pipeline n p)"
  using assms unfolding started_def ingestion_ok_def by auto

text \<open>Migrating keeps the rows and changes nothing the second time.\<close>

lemma migrate_idempotent:
  assumes "migrate True s = Inr s'"
  shows "migrate True s' = Inr s'" and "pg_saved s' = Some (case pg_saved s of None \<Rightarrow> [] | Some t \<Rightarrow> t)"
    and "\<exists>vs. pg_versions s' = Some vs \<and> {1, 2} \<subseteq> set vs"
  using assms
  by (auto simp: migrate_def insert_version_def create_versions_def create_saved_table_def split: option.splits)

lemma connect_store_pools:
  "connect_store env cfg = Inr (n, s) \<Longrightarrow> n = (if cs_enabled (cf_control_store cfg) then 1 else 0)"
  by (auto simp: connect_store_def open_store_def pg_ping_def split: if_splits option.splits sum.splits)

lemma start_service_cases:
  assumes "start_service env fl = l"
  obtains (printed) "l = Printed" "fl_version fl"
  | (early) e where "l = Halted e None None" "e \<noteq> Run_location"
  | (listen) cfg p m e where "config_ok (se_url_parts env) (se_load_location env) cfg"
      "start_manager (se_listen env) (ic_sources (cf_ingestion cfg)) new_manager = (m, Some e)"
      "l = Halted (Run_listen e) (Some (stop_pipeline p)) (Some m)"
  | (running) sv p0 where "l = Running sv" "config_ok (se_url_parts env) (se_load_location env) (sv_config sv)"
      "new_pipeline (se_load_location env) (cf_ingestion (sv_config sv)) (cp_backend client_capabilities) = Some p0"
      "sv_pipeline sv = start_pipeline (max 2 (se_procs env)) p0"
      "start_manager (se_listen env) (ic_sources (cf_ingestion (sv_config sv))) new_manager = (sv_manager sv, None)"
      "sv_pools sv = (if cs_enabled (cf_control_store (sv_config sv)) then 1 else 0)"
      "sv_sources sv = ic_sources (cf_ingestion (sv_config sv))" "sv_errors sv = []"
proof (cases "fl_version fl")
  case True
  then show thesis using assms printed by (simp add: start_service_def)
next
  case version: False
  let ?load = "load_config (se_read_file env) (se_decode env) (se_frac env) (se_url_parts env) (se_load_location env)
    (fl_config fl) (se_environ env) \<lparr>ov_http_address = fl_http_address fl, ov_storage_endpoint = fl_storage_endpoint fl\<rparr>"
  show thesis
  proof (cases ?load)
    case (Inl e)
    then have "l = Halted (Run_config e) None None" using assms version by (simp add: start_service_def)
    then show thesis by (rule early) simp
  next
    case (Inr cfg)
    note ok = load_config_config_ok [OF Inr]
    let ?c = "new_client (se_url_parse env) (st_endpoint (cf_storage cfg)) (st_stream_fields (cf_storage cfg))"
    show thesis
    proof (cases "?c = None \<or> (\<exists>e. connect_store env cfg = Inl e)")
      case True
      moreover have "connect_store env cfg \<noteq> Inl Run_location"
        by (simp add: connect_store_def split: option.split prod.split sum.split)
      ultimately show thesis using assms version Inr early
        by (cases ?c) (auto simp: start_service_def)
    next
      case False
      then obtain c pools schema where c: "?c = Some c" "connect_store env cfg = Inr (pools, schema)"
        by (cases "connect_store env cfg") auto
      obtain p0 where p0: "new_pipeline (se_load_location env) (cf_ingestion cfg) (cp_backend client_capabilities) = Some p0"
        using new_pipeline_total ok by (fastforce simp: config_ok_def)
      obtain m err where m: "start_manager (se_listen env) (ic_sources (cf_ingestion cfg)) new_manager = (m, err)"
        by fastforce
      show thesis
      proof (cases err)
        case None
        then show thesis
          using assms version Inr c p0 m ok connect_store_pools [OF c(2)]
          by (intro running [of "\<lparr>sv_config = cfg, sv_client = c, sv_pools = pools, sv_schema = schema,
                sv_pipeline = start_pipeline (max 2 (se_procs env)) p0, sv_manager = m,
                sv_sources = ic_sources (cf_ingestion cfg), sv_errors = []\<rparr>" p0]) (simp_all add: start_service_def Let_def)
      next
        case (Some e)
        then show thesis using assms version Inr c p0 m ok by (intro listen [of cfg m e "start_pipeline (max 2 (se_procs env)) p0"]) (simp_all add: start_service_def Let_def)
      qed
    qed
  qed
qed

lemma running_started:
  assumes "start_service env fl = Running sv" and "qc_max_bytes (ic_queue (cf_ingestion (sv_config sv))) < 2 ^ 62"
  shows "started (cf_ingestion (sv_config sv)) (sv_pipeline sv)"
proof (rule start_service_cases [OF assms(1)])
  fix sv1 p0
  assume sv: "Running sv = Running sv1" "config_ok (se_url_parts env) (se_load_location env) (sv_config sv1)"
    "new_pipeline (se_load_location env) (cf_ingestion (sv_config sv1)) (cp_backend client_capabilities) = Some p0"
    "sv_pipeline sv1 = start_pipeline (max 2 (se_procs env)) p0"
  then have "ingestion_ok (se_load_location env) (cf_ingestion (sv_config sv))" by (simp add: config_ok_def)
  from started_of_config [OF this assms(2)] sv show ?thesis by simp
qed simp_all

text \<open>
  C16: a start is all or nothing.  If the service comes up, its configuration satisfies every
  requirement, exactly the enabled sources are listening, the pipeline is started with at
  least two workers, and a pool is open exactly if a control store is configured.  If the
  start fails, no listener is left open and a pipeline that was started has been stopped;
  building the pipeline of a loaded configuration never fails.
\<close>

theorem service_starts:
  "case start_service env fl of
     Printed \<Rightarrow> fl_version fl
   | Halted e p m \<Rightarrow>
       e \<noteq> Run_location
       \<and> (case m of
            None \<Rightarrow> p = None
          | Some mg \<Rightarrow> mg_closers mg = [] \<and> (\<exists>q. p = Some q \<and> q_closed (pl_queue q) \<and> \<not> pl_accepting q))
   | Running sv \<Rightarrow>
       config_ok (se_url_parts env) (se_load_location env) (sv_config sv)
       \<and> mg_closers (sv_manager sv) = map sc_id (filter sc_enabled (ic_sources (cf_ingestion (sv_config sv))))
       \<and> pl_accepting (sv_pipeline sv) \<and> 2 \<le> length (pl_workers (sv_pipeline sv))
       \<and> (qc_max_bytes (ic_queue (cf_ingestion (sv_config sv))) < 2 ^ 62
            \<longrightarrow> started (cf_ingestion (sv_config sv)) (sv_pipeline sv))
       \<and> sv_pools sv = (if cs_enabled (cf_control_store (sv_config sv)) then 1 else 0)"
proof (rule start_service_cases [OF refl, of env fl])
  fix cfg p m e
  assume "start_manager (se_listen env) (ic_sources (cf_ingestion cfg)) new_manager = (m, Some e)"
    "start_service env fl = Halted (Run_listen e) (Some (stop_pipeline p)) (Some m)"
  then show ?thesis
    using start_manager_outcome [of "se_listen env" "ic_sources (cf_ingestion cfg)" new_manager m "Some e"]
    by (simp add: new_manager_def stop_pipeline_def)
next
  fix sv p0
  assume sv: "start_service env fl = Running sv" "config_ok (se_url_parts env) (se_load_location env) (sv_config sv)"
    "new_pipeline (se_load_location env) (cf_ingestion (sv_config sv)) (cp_backend client_capabilities) = Some p0"
    "sv_pipeline sv = start_pipeline (max 2 (se_procs env)) p0"
    "start_manager (se_listen env) (ic_sources (cf_ingestion (sv_config sv))) new_manager = (sv_manager sv, None)"
    "sv_pools sv = (if cs_enabled (cf_control_store (sv_config sv)) then 1 else 0)"
  note running_started [OF sv(1)]
  moreover have "pl_accepting (sv_pipeline sv)" "2 \<le> length (pl_workers (sv_pipeline sv))"
    by (simp_all add: sv(4) start_pipeline_def)
  ultimately show ?thesis
    using sv start_manager_outcome [OF sv(5)] by (simp add: new_manager_def)
qed simp_all

section \<open>Stopping\<close>

lemma counter_total_split: "counter_total (\<lambda>_. True) c = counter_total P c + counter_total (\<lambda>l. \<not> P l) c"
  by (induction c) (simp_all add: counter_total_def)

lemma begin_shutdown_simps:
  "sv_pipeline (begin_shutdown cause sv) = stop_pipeline (sv_pipeline sv)"
  "sv_manager (begin_shutdown cause sv) = close_manager (sv_manager sv)"
  by (simp_all add: begin_shutdown_def stop_ingestion_def close_sources_def refuse_work_def stop_pipeline_def)


section \<open>Witnesses\<close>

definition sample_service :: service_env where
  "sample_service = \<lparr>se_read_file = (\<lambda>_. Some []), se_decode = (\<lambda>_ c. Some c), se_frac = (\<lambda>_ _ _. 0),
     se_url_parts = (\<lambda>_. Some (''http'', ''vl'')), se_url_parse = (\<lambda>_. Some \<lparr>ur_scheme = ''http'', ur_host = ''vl'', ur_path = []\<rparr>),
     se_load_location = (\<lambda>_. Some utc), se_environ = [''SYSLOGX_STORAGE_ENDPOINT=http://vl''], se_pool = (\<lambda>_. True),
     se_reachable = True, se_migrate = True, se_schema = \<lparr>pg_versions = None, pg_saved = None\<rparr>, se_procs = 4,
     se_listen = (\<lambda>_. True)\<rparr>"

lemma sample_running:
  obtains sv where "start_service sample_service default_flags = Running sv"
    "qc_max_bytes (ic_queue (cf_ingestion (sv_config sv))) < 2 ^ 62" "\<not> pl_cancelled (sv_pipeline sv)"
proof -
  have "case start_service sample_service default_flags of
      Running sv \<Rightarrow> qc_max_bytes (ic_queue (cf_ingestion (sv_config sv))) < 2 ^ 62 \<and> \<not> pl_cancelled (sv_pipeline sv)
    | _ \<Rightarrow> False"
    by code_simp
  then show thesis using that by (auto split: launch.splits)
qed

theorem service_starts_witness:
  "\<exists>sv. start_service sample_service default_flags = Running sv \<and> started (cf_ingestion (sv_config sv)) (sv_pipeline sv)"
proof (rule sample_running)
  fix sv
  assume "start_service sample_service default_flags = Running sv" "qc_max_bytes (ic_queue (cf_ingestion (sv_config sv))) < 2 ^ 62"
  then show ?thesis using service_starts [of default_flags sample_service] by simp
qed


end
